(* ===== verification/Prelude.thy ===== *)
theory Prelude
  imports Main "HOL-Library.Word"
begin

text \<open>
  Shared vocabulary of the development: bytes and \<open>size_t\<close> arithmetic, the result type of code
  that can abort, bounds-checked access to the memory behind a pointer, the byte representation of
  machine words, and the collections of rewrite rules the component theories add to.
\<close>

section \<open>Faults and results\<close>

text \<open>
  The build type is \<open>Debug\<close> (\<open>src/CMakeLists.txt\<close>), so every \<open>assert\<close> of the sources is live.
  A run that hits a failing \<open>assert\<close>, a \<open>LOG(FATAL)\<close>, an exception of the standard library, or an
  access outside an object stops with a fault; everything else is an \<open>Inr\<close>.
\<close>

datatype fault =
    AssertFailure
  | FatalLog
  | LengthError
  | OutOfBounds
  | NullPointer
  | BadFunctionCall

type_synonym 'a res = "fault + 'a"
type_synonym byte = "8 word"

named_theorems res_simps \<open>rewriting of results\<close>
named_theorems size_simps \<open>size\_t arithmetic that does not wrap\<close>

text \<open>Sequencing: the continuation runs only when the first part did not fault.\<close>

definition bindR :: "'a res \<Rightarrow> ('a \<Rightarrow> 'b res) \<Rightarrow> 'b res" where
  "bindR m f = (case m of Inl e \<Rightarrow> Inl e | Inr x \<Rightarrow> f x)"

text \<open>The \<open>assert\<close> macro, followed by the rest of the function.\<close>

definition assertR :: "bool \<Rightarrow> 'b res \<Rightarrow> 'b res" where
  "assertR p k = (if p then k else Inl AssertFailure)"

text \<open>Dereferencing an optional object: a null or dangling pointer faults.\<close>

definition derefR :: "'a option \<Rightarrow> 'a res" where
  "derefR p = (case p of None \<Rightarrow> Inl NullPointer | Some x \<Rightarrow> Inr x)"

text \<open>Running one operation after the other.\<close>

fun foldR :: "('m \<Rightarrow> 'w \<Rightarrow> 'w res) \<Rightarrow> 'm list \<Rightarrow> 'w \<Rightarrow> 'w res" where
  "foldR cb [] w = Inr w"
| "foldR cb (m # ms) w = bindR (cb m w) (foldR cb ms)"

section \<open>The type size\_t\<close>

text \<open>
  A \<open>size_t\<close> is a natural number below \<open>2 ^ 64\<close>; sums and differences wrap. \<open>max_size\<close> is the
  largest length of a \<open>std::vector<char>\<close>, and \<open>resize\<close> beyond it throws \<open>std::length_error\<close>.
\<close>

definition szadd :: "nat \<Rightarrow> nat \<Rightarrow> nat" where
  "szadd a b = (a + b) mod 2 ^ 64"

definition szsub :: "nat \<Rightarrow> nat \<Rightarrow> nat" where
  "szsub a b = nat ((int a - int b) mod 2 ^ 64)"

definition max_size :: nat where
  "max_size = 2 ^ 63 - 1"

text \<open>Conversion of an \<open>int\<close> to \<open>size_t\<close>, and narrowing to \<open>int32_t\<close>.\<close>

definition int_to_size :: "int \<Rightarrow> nat" where
  "int_to_size i = nat (i mod 2 ^ 64)"

definition size_to_int32 :: "nat \<Rightarrow> int" where
  "size_to_int32 n = sint (of_nat n :: 32 word)"

section \<open>Memory behind a pointer\<close>

definition vector_resize :: "byte list \<Rightarrow> nat \<Rightarrow> byte list res" where
  "vector_resize v n =
     (if n > max_size then Inl LengthError else Inr (take n v @ replicate (n - length v) 0))"

definition mem_read :: "byte list \<Rightarrow> nat \<Rightarrow> nat \<Rightarrow> byte list res" where
  "mem_read m i n = (if i + n \<le> length m then Inr (take n (drop i m)) else Inl OutOfBounds)"

definition mem_write :: "byte list \<Rightarrow> nat \<Rightarrow> byte list \<Rightarrow> byte list res" where
  "mem_write m i d =
     (if i + length d \<le> length m then Inr (take i m @ d @ drop (i + length d) m)
      else Inl OutOfBounds)"

section \<open>Words in memory\<close>

text \<open>
  The host is little-endian (x86-64). \<open>word_bytes\<close> is what \<open>memcpy\<close> from an integer object
  yields and \<open>bytes_word\<close> what \<open>memcpy\<close> into one yields; \<open>bswap\<close> reverses the byte order.
\<close>

fun le_bytes :: "nat \<Rightarrow> nat \<Rightarrow> byte list" where
  "le_bytes 0 x = []"
| "le_bytes (Suc n) x = of_nat (x mod 256) # le_bytes n (x div 256)"

fun le_val :: "byte list \<Rightarrow> nat" where
  "le_val [] = 0"
| "le_val (b # bs) = unat b + 256 * le_val bs"

definition word_bytes :: "'a::len word \<Rightarrow> byte list" where
  "word_bytes w = le_bytes (LENGTH('a) div 8) (unat w)"

definition bytes_word :: "byte list \<Rightarrow> 'a::len word" where
  "bytes_word bs = of_nat (le_val bs)"

definition bswap :: "'a::len word \<Rightarrow> 'a word" where
  "bswap w = bytes_word (rev (word_bytes w))"

section \<open>Lemmas\<close>

subsection \<open>Results\<close>

lemma bindR_Inr [simp, res_simps]: "bindR (Inr x) f = f x"
  by (simp add: bindR_def)

lemma bindR_Inl [simp, res_simps]: "bindR (Inl e) f = Inl e"
  by (simp add: bindR_def)

lemma bindR_eq_Inr [res_simps]: "bindR m f = Inr y \<longleftrightarrow> (\<exists>x. m = Inr x \<and> f x = Inr y)"
  by (cases m) simp_all

lemma bindR_assoc: "bindR (bindR m f) g = bindR m (\<lambda>x. bindR (f x) g)"
  by (cases m) simp_all

lemma bindR_InrE:
  assumes "bindR m f = Inr y"
  obtains x where "m = Inr x" and "f x = Inr y"
  using assms by (auto simp: bindR_eq_Inr)

lemma assertR_True [simp, res_simps]: "assertR True k = k"
  by (simp add: assertR_def)

lemma assertR_False [simp, res_simps]: "assertR False k = Inl AssertFailure"
  by (simp add: assertR_def)

lemma assertR_hold: "p \<Longrightarrow> assertR p k = k"
  by simp

lemma assertR_eq_Inr [res_simps]: "assertR p k = Inr y \<longleftrightarrow> p \<and> k = Inr y"
  by (simp add: assertR_def)

lemma derefR_Some [simp, res_simps]: "derefR (Some x) = Inr x"
  by (simp add: derefR_def)

lemma derefR_None [simp, res_simps]: "derefR None = Inl NullPointer"
  by (simp add: derefR_def)

lemma derefR_eq_Inr [res_simps]: "derefR p = Inr x \<longleftrightarrow> p = Some x"
  by (cases p) simp_all

lemma foldR_append: "foldR cb (xs @ ys) w = bindR (foldR cb xs w) (foldR cb ys)"
proof (induction xs arbitrary: w)
  case (Cons x xs)
  then show ?case by (cases "cb x w") simp_all
qed simp

lemma foldR_invariant:
  assumes "foldR f xs w = Inr w'" and "P w"
    and "\<And>x u u'. x \<in> set xs \<Longrightarrow> P u \<Longrightarrow> f x u = Inr u' \<Longrightarrow> P u'"
  shows "P w'"
  using assms
proof (induction xs arbitrary: w)
  case (Cons x xs)
  from Cons.prems(1) obtain u where "f x w = Inr u" and "foldR f xs u = Inr w'"
    by (auto elim: bindR_InrE)
  with Cons show ?case by auto
qed simp

text \<open>
  The interface between a component and its specification: every operation ends in the state the
  specification gives, or faults exactly when and as the specification does.
\<close>

locale simulation =
  fixes step :: "'op \<Rightarrow> 's \<Rightarrow> 's res" and spec :: "'op \<Rightarrow> 'a \<Rightarrow> 'a res"
    and abs :: "'s \<Rightarrow> 'a" and inv :: "'s \<Rightarrow> bool"
  assumes step_ok: "inv s \<Longrightarrow> spec x (abs s) = Inr a \<Longrightarrow> \<exists>s'. step x s = Inr s' \<and> inv s' \<and> abs s' = a"
    and step_fault: "inv s \<Longrightarrow> spec x (abs s) = Inl e \<Longrightarrow> step x s = Inl e"
begin

lemma script_refines:
  assumes "inv s"
  shows "case foldR spec xs (abs s) of
      Inl e \<Rightarrow> foldR step xs s = Inl e
    | Inr a \<Rightarrow> \<exists>s'. foldR step xs s = Inr s' \<and> inv s' \<and> abs s' = a"
  using assms
proof (induction xs arbitrary: s)
  case (Cons x xs)
  show ?case
  proof (cases "spec x (abs s)")
    case (Inl e)
    with step_fault [OF Cons.prems Inl] show ?thesis by simp
  next
    case (Inr a)
    from step_ok [OF Cons.prems Inr] obtain s' where s': "step x s = Inr s'" "inv s'" "abs s' = a"
      by blast
    with Cons.IH [OF s'(2)] Inr show ?thesis by (simp split: sum.splits)
  qed
qed simp

end

subsection \<open>size\_t\<close>

lemma szadd_small [size_simps]: "a + b < 2 ^ 64 \<Longrightarrow> szadd a b = a + b"
  by (simp add: szadd_def)

lemma szsub_le [size_simps]: "b \<le> a \<Longrightarrow> a < 2 ^ 64 \<Longrightarrow> szsub a b = a - b"
  by (simp add: szsub_def nat_diff_distrib flip: of_nat_diff)

lemma szsub_less: "szsub a b < 2 ^ 64"
  by (simp add: szsub_def nat_less_iff)

lemma szsub_szadd: "n \<le> szsub a b \<Longrightarrow> szsub a (szadd b n) = szsub a b - n"
proof -
  assume n: "n \<le> szsub a b"
  let ?m = "2 ^ 64 :: int"
  define d where "d = (int a - int b) mod ?m"
  have d: "0 \<le> d" "d < ?m" and sz: "szsub a b = nat d"
    by (simp_all add: d_def szsub_def)
  have "(int a - int (szadd b n)) mod ?m = (int a - (int b + int n)) mod ?m"
    by (simp add: szadd_def zmod_int mod_diff_right_eq)
  also have "\<dots> = (d - int n) mod ?m"
    by (simp add: d_def mod_diff_left_eq diff_diff_eq)
  also have "\<dots> = d - int n"
    using d n sz by (intro mod_pos_pos_trivial) auto
  finally show ?thesis
    using n sz d by (simp add: szsub_def nat_diff_distrib)
qed

lemma int_to_size_small [size_simps]: "0 \<le> i \<Longrightarrow> i < 2 ^ 64 \<Longrightarrow> int_to_size i = nat i"
  by (simp add: int_to_size_def)

lemma size_to_int32_small [size_simps]:
  assumes "n < 2 ^ 31" shows "size_to_int32 n = int n"
proof -
  have "signed_take_bit 31 (int n) = int n"
    using assms by (intro signed_take_bit_int_eq_self) simp_all
  then show ?thesis
    by (simp add: size_to_int32_def signed_of_nat)
qed

subsection \<open>Memory\<close>

lemma vector_resize_Inr [simp]:
  "n \<le> max_size \<Longrightarrow> vector_resize v n = Inr (take n v @ replicate (n - length v) 0)"
  by (simp add: vector_resize_def)

lemma mem_read_Inr [simp]: "i + n \<le> length m \<Longrightarrow> mem_read m i n = Inr (take n (drop i m))"
  by (simp add: mem_read_def)

lemma mem_write_Inr [simp]:
  "i + length d \<le> length m \<Longrightarrow> mem_write m i d = Inr (take i m @ d @ drop (i + length d) m)"
  by (simp add: mem_write_def)

subsection \<open>Words in memory\<close>

lemma length_le_bytes [simp]: "length (le_bytes n x) = n"
  by (induction n arbitrary: x) auto

lemma unat_byte_of_nat [simp]: "unat (of_nat (x mod 256) :: byte) = x mod 256"
  by (simp add: unat_of_nat)

lemma le_val_le_bytes: "le_val (le_bytes n x) = x mod 256 ^ n"
proof (induction n arbitrary: x)
  case (Suc n)
  have "x mod (256 * 256 ^ n) = 256 * (x div 256 mod 256 ^ n) + x mod 256"
    by (rule mod_mult2_eq)
  with Suc show ?case by simp
qed simp

lemma le_val_less: "le_val bs < 256 ^ length bs"
proof (induction bs)
  case (Cons b bs)
  have "unat b < 256"
    using unsigned_less [of b, where 'a = nat] by simp
  with Cons show ?case by simp
qed simp

lemma le_bytes_le_val: "le_bytes (length bs) (le_val bs) = bs"
proof (induction bs)
  case (Cons b bs)
  have "unat b < 256"
    using unsigned_less [of b, where 'a = nat] by simp
  with Cons show ?case by simp
qed simp

lemma length_word_bytes [simp]: "length (word_bytes (w :: 'a::len word)) = LENGTH('a) div 8"
  by (simp add: word_bytes_def)

lemma bytes_word_bytes:
  assumes "8 dvd LENGTH('a)"
  shows "bytes_word (word_bytes w) = (w :: 'a::len word)"
proof -
  have "(256::nat) ^ (LENGTH('a) div 8) = 2 ^ LENGTH('a)"
    using assms power_mult [of "2::nat" 8 "LENGTH('a) div 8"] by simp
  then show ?thesis
    by (simp add: bytes_word_def word_bytes_def le_val_le_bytes)
qed

lemma word_bytes_word:
  assumes "8 * length bs = LENGTH('a)"
  shows "word_bytes (bytes_word bs :: 'a::len word) = bs"
proof -
  have len: "LENGTH('a) div 8 = length bs"
    using assms by simp
  have "le_val bs < 2 ^ LENGTH('a)"
    using le_val_less [of bs] by (simp add: assms [symmetric] power_mult)
  then have "unat (bytes_word bs :: 'a word) = le_val bs"
    by (simp add: bytes_word_def unat_of_nat)
  then show ?thesis
    by (simp add: word_bytes_def len le_bytes_le_val)
qed

lemma word_bytes_bswap:
  assumes "8 dvd LENGTH('a)"
  shows "word_bytes (bswap w :: 'a::len word) = rev (word_bytes w)"
  using assms by (simp add: bswap_def word_bytes_word)

lemma bswap_bswap:
  assumes "8 dvd LENGTH('a)"
  shows "bswap (bswap w) = (w :: 'a::len word)"
  using assms by (simp add: bswap_def [of "bswap w"] word_bytes_bswap bytes_word_bytes)

end
