(* ===== verification/Buffer.thy ===== *)
theory Buffer
  imports Prelude
begin

text \<open>
  \<open>network/Endian.h\<close>, \<open>network/Buffer.h\<close> and \<open>network/src/Buffer.cc\<close>: the byte-order helpers and
  the growable byte buffer with its three regions (prependable, readable, writable). Every member
  function that changes the buffer is a definition; the integer accessors are given for all four
  widths. \<open>content\<close> is the abstraction to the readable bytes, and the locale \<open>byte_queue\<close> is the
  interface the codec and the connection rely on.
\<close>

section \<open>Endian.h\<close>

definition hostToNetwork64 :: "64 word \<Rightarrow> 64 word" where
  "hostToNetwork64 host64 = bswap host64"

definition hostToNetwork32 :: "32 word \<Rightarrow> 32 word" where
  "hostToNetwork32 host32 = bswap host32"

definition hostToNetwork16 :: "16 word \<Rightarrow> 16 word" where
  "hostToNetwork16 host16 = bswap host16"

definition networkToHost64 :: "64 word \<Rightarrow> 64 word" where
  "networkToHost64 net64 = bswap net64"

definition networkToHost32 :: "32 word \<Rightarrow> 32 word" where
  "networkToHost32 net32 = bswap net32"

definition networkToHost16 :: "16 word \<Rightarrow> 16 word" where
  "networkToHost16 net16 = bswap net16"

section \<open>Buffer.h\<close>

text \<open>The members \<open>buffer_\<close>, \<open>readerIndex_\<close> and \<open>writerIndex_\<close>.\<close>

record buffer =
  storage :: "byte list"
  readerIndex :: nat
  writerIndex :: nat

definition kCheapPrepend :: nat where
  "kCheapPrepend = 8"

definition kInitialSize :: nat where
  "kInitialSize = 1024 * 4"

definition readableBytes :: "buffer \<Rightarrow> nat" where
  "readableBytes b = szsub (writerIndex b) (readerIndex b)"

definition writableBytes :: "buffer \<Rightarrow> nat" where
  "writableBytes b = szsub (length (storage b)) (writerIndex b)"

definition prependableBytes :: "buffer \<Rightarrow> nat" where
  "prependableBytes b = readerIndex b"

definition mk_Buffer :: "nat \<Rightarrow> buffer res" where
  "mk_Buffer initialSize =
     bindR (vector_resize [] (szadd kCheapPrepend initialSize)) (\<lambda>v.
       let b = \<lparr>storage = v, readerIndex = kCheapPrepend, writerIndex = kCheapPrepend\<rparr> in
       assertR (readableBytes b = 0)
         (assertR (writableBytes b = initialSize)
            (assertR (prependableBytes b = kCheapPrepend) (Inr b))))"

text \<open>\<open>peek\<close> is a pointer; \<open>peek_mem b n\<close> is what reading \<open>n\<close> bytes through it yields.\<close>

definition peek_mem :: "buffer \<Rightarrow> nat \<Rightarrow> byte list res" where
  "peek_mem b n = mem_read (storage b) (readerIndex b) n"

definition retrieveAll :: "buffer \<Rightarrow> buffer" where
  "retrieveAll b = b\<lparr>readerIndex := kCheapPrepend, writerIndex := kCheapPrepend\<rparr>"

definition retrieve :: "nat \<Rightarrow> buffer \<Rightarrow> buffer res" where
  "retrieve len b =
     assertR (len \<le> readableBytes b)
       (if len < readableBytes b then Inr (b\<lparr>readerIndex := szadd (readerIndex b) len\<rparr>)
        else Inr (retrieveAll b))"

definition retrieveInt64 :: "buffer \<Rightarrow> buffer res" where
  "retrieveInt64 b = retrieve 8 b"

definition retrieveInt32 :: "buffer \<Rightarrow> buffer res" where
  "retrieveInt32 b = retrieve 4 b"

definition retrieveInt16 :: "buffer \<Rightarrow> buffer res" where
  "retrieveInt16 b = retrieve 2 b"

definition retrieveInt8 :: "buffer \<Rightarrow> buffer res" where
  "retrieveInt8 b = retrieve 1 b"

definition retrieveAsString :: "nat \<Rightarrow> buffer \<Rightarrow> (byte list \<times> buffer) res" where
  "retrieveAsString len b =
     assertR (len \<le> readableBytes b)
       (bindR (peek_mem b len) (\<lambda>result.
        bindR (retrieve len b) (\<lambda>b'. Inr (result, b'))))"

definition retrieveAllAsString :: "buffer \<Rightarrow> (byte list \<times> buffer) res" where
  "retrieveAllAsString b = retrieveAsString (readableBytes b) b"

definition makeSpace :: "nat \<Rightarrow> buffer \<Rightarrow> buffer res" where
  "makeSpace len b =
     (if szadd (writableBytes b) (prependableBytes b) < szadd len kCheapPrepend
      then bindR (vector_resize (storage b) (szadd (writerIndex b) len))
             (\<lambda>v. Inr (b\<lparr>storage := v\<rparr>))
      else assertR (kCheapPrepend < readerIndex b)
             (let readable = readableBytes b in
              bindR (mem_read (storage b) (readerIndex b) readable) (\<lambda>d.
              bindR (mem_write (storage b) kCheapPrepend d) (\<lambda>v.
                let b' = b\<lparr>storage := v, readerIndex := kCheapPrepend,
                           writerIndex := szadd kCheapPrepend readable\<rparr> in
                assertR (readable = readableBytes b') (Inr b')))))"

definition ensureWritableBytes :: "nat \<Rightarrow> buffer \<Rightarrow> buffer res" where
  "ensureWritableBytes len b =
     bindR (if writableBytes b < len then makeSpace len b else Inr b)
       (\<lambda>b'. assertR (writableBytes b' \<ge> len) (Inr b'))"

definition hasWritten :: "nat \<Rightarrow> buffer \<Rightarrow> buffer res" where
  "hasWritten len b =
     assertR (len \<le> writableBytes b) (Inr (b\<lparr>writerIndex := szadd (writerIndex b) len\<rparr>))"

text \<open>A write through the pointer \<open>beginWrite()\<close>.\<close>

definition write_at_beginWrite :: "byte list \<Rightarrow> buffer \<Rightarrow> buffer res" where
  "write_at_beginWrite data b =
     bindR (mem_write (storage b) (writerIndex b) data) (\<lambda>v. Inr (b\<lparr>storage := v\<rparr>))"

definition append_buf :: "byte list \<Rightarrow> buffer \<Rightarrow> buffer res" where
  "append_buf data b =
     bindR (ensureWritableBytes (length data) b) (\<lambda>b1.
     bindR (write_at_beginWrite data b1) (\<lambda>b2.
       hasWritten (length data) b2))"

definition unwrite :: "nat \<Rightarrow> buffer \<Rightarrow> buffer res" where
  "unwrite len b =
     assertR (len \<le> readableBytes b) (Inr (b\<lparr>writerIndex := szsub (writerIndex b) len\<rparr>))"

definition prepend :: "byte list \<Rightarrow> buffer \<Rightarrow> buffer res" where
  "prepend data b =
     assertR (length data \<le> prependableBytes b)
       (let r = szsub (readerIndex b) (length data) in
        bindR (mem_write (storage b) r data) (\<lambda>v. Inr (b\<lparr>storage := v, readerIndex := r\<rparr>)))"

text \<open>The integer accessors.\<close>

definition appendInt64 :: "64 word \<Rightarrow> buffer \<Rightarrow> buffer res" where
  "appendInt64 x b = append_buf (word_bytes (hostToNetwork64 x)) b"

definition appendInt32 :: "32 word \<Rightarrow> buffer \<Rightarrow> buffer res" where
  "appendInt32 x b = append_buf (word_bytes (hostToNetwork32 x)) b"

definition appendInt16 :: "16 word \<Rightarrow> buffer \<Rightarrow> buffer res" where
  "appendInt16 x b = append_buf (word_bytes (hostToNetwork16 x)) b"

definition appendInt8 :: "8 word \<Rightarrow> buffer \<Rightarrow> buffer res" where
  "appendInt8 x b = append_buf [x] b"

definition peekInt64 :: "buffer \<Rightarrow> 64 word res" where
  "peekInt64 b =
     assertR (readableBytes b \<ge> 8)
       (bindR (peek_mem b 8) (\<lambda>d. Inr (networkToHost64 (bytes_word d))))"

definition peekInt32 :: "buffer \<Rightarrow> 32 word res" where
  "peekInt32 b =
     assertR (readableBytes b \<ge> 4)
       (bindR (peek_mem b 4) (\<lambda>d. Inr (networkToHost32 (bytes_word d))))"

definition peekInt16 :: "buffer \<Rightarrow> 16 word res" where
  "peekInt16 b =
     assertR (readableBytes b \<ge> 2)
       (bindR (peek_mem b 2) (\<lambda>d. Inr (networkToHost16 (bytes_word d))))"

definition peekInt8 :: "buffer \<Rightarrow> 8 word res" where
  "peekInt8 b =
     assertR (readableBytes b \<ge> 1)
       (bindR (peek_mem b 1) (\<lambda>d. Inr (bytes_word d)))"

definition readInt64 :: "buffer \<Rightarrow> (64 word \<times> buffer) res" where
  "readInt64 b =
     bindR (peekInt64 b) (\<lambda>result. bindR (retrieveInt64 b) (\<lambda>b'. Inr (result, b')))"

definition readInt32 :: "buffer \<Rightarrow> (32 word \<times> buffer) res" where
  "readInt32 b =
     bindR (peekInt32 b) (\<lambda>result. bindR (retrieveInt32 b) (\<lambda>b'. Inr (result, b')))"

definition readInt16 :: "buffer \<Rightarrow> (16 word \<times> buffer) res" where
  "readInt16 b =
     bindR (peekInt16 b) (\<lambda>result. bindR (retrieveInt16 b) (\<lambda>b'. Inr (result, b')))"

definition readInt8 :: "buffer \<Rightarrow> (8 word \<times> buffer) res" where
  "readInt8 b =
     bindR (peekInt8 b) (\<lambda>result. bindR (retrieveInt8 b) (\<lambda>b'. Inr (result, b')))"

definition prependInt64 :: "64 word \<Rightarrow> buffer \<Rightarrow> buffer res" where
  "prependInt64 x b = prepend (word_bytes (hostToNetwork64 x)) b"

definition prependInt32 :: "32 word \<Rightarrow> buffer \<Rightarrow> buffer res" where
  "prependInt32 x b = prepend (word_bytes (hostToNetwork32 x)) b"

definition prependInt16 :: "16 word \<Rightarrow> buffer \<Rightarrow> buffer res" where
  "prependInt16 x b = prepend (word_bytes (hostToNetwork16 x)) b"

definition prependInt8 :: "8 word \<Rightarrow> buffer \<Rightarrow> buffer res" where
  "prependInt8 x b = prepend [x] b"

section \<open>Buffer.cc\<close>

text \<open>
  \<open>readFd\<close>. The argument \<open>readv\<close> is the system call on this descriptor: from the lengths of the
  \<open>iovec\<close> entries to an \<open>errno\<close> or the bytes the kernel scattered over the entries in order. A
  kernel that stores more than the entries hold corrupts memory. The result is the return value,
  what is stored through \<open>savedErrno\<close> (if anything) and the buffer.
\<close>

definition extrabuf_size :: nat where
  "extrabuf_size = 1024 * 1024"

definition iov_lens :: "buffer \<Rightarrow> nat list" where
  "iov_lens b =
     (if writableBytes b < extrabuf_size then [writableBytes b, extrabuf_size]
      else [writableBytes b])"

definition readFd :: "(nat list \<Rightarrow> int + byte list) \<Rightarrow> buffer \<Rightarrow> (int \<times> int option \<times> buffer) res" where
  "readFd readv b =
     (let writable = writableBytes b; vec = iov_lens b in
      case readv vec of
        Inl err \<Rightarrow> Inr (- 1, Some err, b)
      | Inr data \<Rightarrow>
          if length data > sum_list vec then Inl OutOfBounds
          else
            let n = length data; extrabuf = drop writable data in
            bindR (write_at_beginWrite (take writable data) b) (\<lambda>b1.
              if n \<le> writable
              then Inr (int n, None, b1\<lparr>writerIndex := szadd (writerIndex b1) n\<rparr>)
              else bindR (append_buf (take (n - writable) extrabuf)
                            (b1\<lparr>writerIndex := length (storage b1)\<rparr>))
                     (\<lambda>b2. Inr (int n, None, b2))))"

section \<open>Invariant and abstraction\<close>

definition buffer_inv :: "buffer \<Rightarrow> bool" where
  "buffer_inv b \<longleftrightarrow>
     readerIndex b \<le> writerIndex b \<and> writerIndex b \<le> length (storage b) \<and>
     kCheapPrepend \<le> length (storage b) \<and> length (storage b) \<le> max_size"

definition content :: "buffer \<Rightarrow> byte list" where
  "content b = take (writerIndex b - readerIndex b) (drop (readerIndex b) (storage b))"

text \<open>A buffer has room for \<open>n\<close> more bytes when the vector may grow that far.\<close>

definition has_room :: "buffer \<Rightarrow> nat \<Rightarrow> bool" where
  "has_room b n \<longleftrightarrow> length (storage b) + n \<le> max_size"

section \<open>The interface: a queue of bytes\<close>

text \<open>
  Scripts of the two operations clients use, their run on an implementation, and what a plain byte
  list does with them: a \<open>Get\<close> of more bytes than there are is refused.
\<close>

datatype qop = Put "byte list" | Get nat

fun run_ops ::
  "(byte list \<Rightarrow> 'q \<Rightarrow> 'q res) \<Rightarrow> (nat \<Rightarrow> 'q \<Rightarrow> 'q res) \<Rightarrow> qop list \<Rightarrow> 'q \<Rightarrow> 'q res" where
  "run_ops put get [] q = Inr q"
| "run_ops put get (Put d # ops) q = bindR (put d q) (run_ops put get ops)"
| "run_ops put get (Get n # ops) q = bindR (get n q) (run_ops put get ops)"

fun queue_spec :: "qop list \<Rightarrow> byte list \<Rightarrow> byte list option" where
  "queue_spec [] bs = Some bs"
| "queue_spec (Put d # ops) bs = queue_spec ops (bs @ d)"
| "queue_spec (Get n # ops) bs = (if n \<le> length bs then queue_spec ops (drop n bs) else None)"

fun put_total :: "qop list \<Rightarrow> nat" where
  "put_total [] = 0"
| "put_total (Put d # ops) = length d + put_total ops"
| "put_total (Get n # ops) = put_total ops"

locale byte_queue =
  fixes inv :: "'q \<Rightarrow> bool" and bytes :: "'q \<Rightarrow> byte list" and room :: "'q \<Rightarrow> nat \<Rightarrow> bool"
    and put :: "byte list \<Rightarrow> 'q \<Rightarrow> 'q res" and get :: "nat \<Rightarrow> 'q \<Rightarrow> 'q res"
  assumes put_ok: "inv q \<Longrightarrow> room q (length d + m) \<Longrightarrow>
      \<exists>q'. put d q = Inr q' \<and> inv q' \<and> bytes q' = bytes q @ d \<and> room q' m"
    and get_ok: "inv q \<Longrightarrow> n \<le> length (bytes q) \<Longrightarrow> room q m \<Longrightarrow>
      \<exists>q'. get n q = Inr q' \<and> inv q' \<and> bytes q' = drop n (bytes q) \<and> room q' m"
    and get_refused: "inv q \<Longrightarrow> length (bytes q) < n \<Longrightarrow> get n q = Inl AssertFailure"
begin

lemma run_simulates:
  assumes "inv q" and "room q (put_total ops)"
  shows "case queue_spec ops (bytes q) of
      None \<Rightarrow> run_ops put get ops q = Inl AssertFailure
    | Some bs \<Rightarrow> \<exists>q'. run_ops put get ops q = Inr q' \<and> inv q' \<and> bytes q' = bs"
  using assms
proof (induction ops arbitrary: q)
  case (Cons op ops)
  show ?case
  proof (cases op)
    case (Put d)
    with Cons.prems put_ok [of q d "put_total ops"] obtain q' where
      "put d q = Inr q'" "inv q'" "bytes q' = bytes q @ d" "room q' (put_total ops)"
      by auto
    with Cons.IH [of q'] Put show ?thesis by (simp split: option.splits)
  next
    case (Get n)
    show ?thesis
    proof (cases "n \<le> length (bytes q)")
      case True
      with Get Cons.prems get_ok [of q n "put_total ops"] obtain q' where
        "get n q = Inr q'" "inv q'" "bytes q' = drop n (bytes q)" "room q' (put_total ops)"
        by auto
      with Cons.IH [of q'] Get True show ?thesis by (simp split: option.splits)
    next
      case False
      with Get Cons.prems get_refused [of q n] show ?thesis by simp
    qed
  qed
qed simp

end

section \<open>Lemmas\<close>

lemma kCheapPrepend_8 [simp]: "kCheapPrepend = 8"
  by (simp add: kCheapPrepend_def)

lemma buffer_invD:
  assumes "buffer_inv b"
  shows "readerIndex b \<le> writerIndex b" and "writerIndex b \<le> length (storage b)"
    and "8 \<le> length (storage b)" and "length (storage b) \<le> max_size"
    and "length (storage b) < 2 ^ 63"
  using assms by (auto simp: buffer_inv_def max_size_def)

lemma readableBytes_eq: "buffer_inv b \<Longrightarrow> readableBytes b = writerIndex b - readerIndex b"
  using buffer_invD [of b] by (simp add: readableBytes_def size_simps)

lemma writableBytes_eq: "buffer_inv b \<Longrightarrow> writableBytes b = length (storage b) - writerIndex b"
  using buffer_invD [of b] by (simp add: writableBytes_def size_simps)

lemma length_content: "buffer_inv b \<Longrightarrow> length (content b) = readableBytes b"
  using buffer_invD [of b] by (simp add: content_def readableBytes_eq)

lemma peek_mem_content:
  assumes "buffer_inv b" and "n \<le> readableBytes b"
  shows "peek_mem b n = Inr (take n (content b))"
  using assms buffer_invD [of b]
  by (simp add: peek_mem_def content_def readableBytes_eq min_def)

lemma content_region:
  assumes inv: "buffer_inv b" and n: "i + n \<le> readableBytes b"
  shows "take n (drop (readerIndex b + i) (storage b)) = take n (drop i (content b))"
    and "n \<le> length (storage b) - (readerIndex b + i)"
proof -
  have "n \<le> writerIndex b - readerIndex b - i"
    using n by (simp add: readableBytes_eq [OF inv])
  then show "take n (drop (readerIndex b + i) (storage b)) = take n (drop i (content b))"
    by (simp add: content_def drop_take add.commute min_def)
  show "n \<le> length (storage b) - (readerIndex b + i)"
    using n buffer_invD [OF inv] by (simp add: readableBytes_eq [OF inv])
qed

text \<open>Laying out the storage as prefix, content and suffix.\<close>

lemma storage_split:
  assumes "buffer_inv b"
  shows "storage b = take (readerIndex b) (storage b) @ content b @ drop (writerIndex b) (storage b)"
proof -
  have le: "readerIndex b \<le> writerIndex b"
    using assms by (simp add: buffer_inv_def)
  have "drop (readerIndex b) (storage b) = content b @ drop (writerIndex b) (storage b)"
    using le append_take_drop_id [of "writerIndex b - readerIndex b" "drop (readerIndex b) (storage b)"]
    by (simp add: content_def)
  then show ?thesis
    by (metis append_take_drop_id)
qed

text \<open>Construction.\<close>

lemma mk_Buffer_ok:
  assumes "n + 8 \<le> max_size"
  obtains b where "mk_Buffer n = Inr b" and "buffer_inv b" and "content b = []"
    and "readerIndex b = 8" and "length (storage b) = 8 + n"
proof -
  let ?b = "\<lparr>storage = replicate (8 + n) 0, readerIndex = 8, writerIndex = 8\<rparr>"
  have sz: "szadd 8 n = 8 + n"
    using assms by (simp add: size_simps max_size_def)
  have inv: "buffer_inv ?b"
    using assms by (simp add: buffer_inv_def)
  have "mk_Buffer n = Inr ?b"
    using assms inv
    by (simp add: mk_Buffer_def sz readableBytes_eq writableBytes_eq prependableBytes_def Let_def)
  then show ?thesis
    using that inv by (simp add: content_def)
qed

text \<open>Taking bytes out.\<close>

lemma retrieveAll_content [simp]: "content (retrieveAll b) = []"
  by (simp add: retrieveAll_def content_def)

lemma retrieveAll_inv: "buffer_inv b \<Longrightarrow> buffer_inv (retrieveAll b)"
  by (simp add: retrieveAll_def buffer_inv_def)

lemma retrieveAll_storage [simp]: "storage (retrieveAll b) = storage b"
  by (simp add: retrieveAll_def)

lemma retrieve_ok:
  assumes inv: "buffer_inv b" and n: "n \<le> readableBytes b"
  obtains b' where "retrieve n b = Inr b'" and "buffer_inv b'"
    and "content b' = drop n (content b)" and "storage b' = storage b"
proof (cases "n < readableBytes b")
  case True
  let ?b = "b\<lparr>readerIndex := readerIndex b + n\<rparr>"
  have sz: "szadd (readerIndex b) n = readerIndex b + n"
    using True inv buffer_invD [OF inv] by (simp add: readableBytes_eq size_simps)
  have "buffer_inv ?b" and "content ?b = drop n (content b)"
    using True inv by (auto simp: readableBytes_eq buffer_inv_def content_def drop_take add.commute)
  with True n sz show ?thesis
    by (intro that [of ?b]) (simp_all add: retrieve_def)
next
  case False
  with n inv show ?thesis
    by (intro that [of "retrieveAll b"])
      (simp_all add: retrieve_def retrieveAll_inv length_content)
qed

lemma retrieve_too_much: "n > readableBytes b \<Longrightarrow> retrieve n b = Inl AssertFailure"
  by (simp add: retrieve_def assertR_def)

lemma retrieveAsString_ok:
  assumes inv: "buffer_inv b" and n: "n \<le> readableBytes b"
  obtains b' where "retrieveAsString n b = Inr (take n (content b), b')" and "buffer_inv b'"
    and "content b' = drop n (content b)"
proof -
  from retrieve_ok [OF assms] obtain b' where "retrieve n b = Inr b'" "buffer_inv b'"
    "content b' = drop n (content b)" .
  with n show ?thesis
    by (intro that [of b']) (simp_all add: retrieveAsString_def peek_mem_content [OF inv n])
qed

text \<open>Making room: the two branches of \<open>makeSpace\<close> never trip its assertions.\<close>

lemma makeSpace_sizes:
  assumes inv: "buffer_inv b" and small: "n \<le> max_size"
  shows "szadd n 8 = n + 8" and "szadd (writerIndex b) n = writerIndex b + n"
    and "szadd (writableBytes b) (prependableBytes b) = writableBytes b + readerIndex b"
  using small buffer_invD [OF inv]
  by (simp_all add: size_simps max_size_def writableBytes_eq [OF inv] prependableBytes_def)

lemma makeSpace_ok:
  assumes inv: "buffer_inv b" and small: "n \<le> max_size" and need: "writableBytes b < n"
    and wn: "writableBytes b + readerIndex b < n + 8 \<Longrightarrow> writerIndex b + n \<le> max_size"
  obtains b' where "makeSpace n b = Inr b'" and "buffer_inv b'" and "content b' = content b"
    and "n \<le> writableBytes b'" and "readerIndex b' = readerIndex b \<or> readerIndex b' = 8"
    and "length (storage b') \<le> length (storage b) + n"
proof -
  note D = buffer_invD [OF inv]
  note sz = makeSpace_sizes [OF inv small]
  show ?thesis
  proof (cases "writableBytes b + readerIndex b < n + 8")
    case True
    let ?v = "take (writerIndex b + n) (storage b) @ replicate (writerIndex b + n - length (storage b)) 0"
    let ?b = "b\<lparr>storage := ?v\<rparr>"
    have len: "length ?v = writerIndex b + n"
      using need D by (simp add: writableBytes_eq [OF inv])
    have "take (writerIndex b) ?v = take (writerIndex b) (storage b)"
      using D by simp
    then have "content ?b = content b"
      using D(1) by (simp add: content_def flip: drop_take)
    moreover have inv': "buffer_inv ?b"
      using D need wn [OF True] by (simp add: buffer_inv_def writableBytes_eq [OF inv])
    moreover have "n \<le> writableBytes ?b"
      by (simp add: writableBytes_eq [OF inv'])
    moreover have "makeSpace n b = Inr ?b"
      using True wn [OF True] by (simp add: makeSpace_def sz)
    ultimately show ?thesis
      using that [of ?b] D len by simp
  next
    case False
    let ?r = "readableBytes b"
    let ?v = "take 8 (storage b) @ content b @ drop (8 + ?r) (storage b)"
    let ?b = "b\<lparr>storage := ?v, readerIndex := 8, writerIndex := 8 + ?r\<rparr>"
    have r: "8 < readerIndex b" and fit: "8 + ?r \<le> length (storage b)"
      using False need D by (simp_all add: readableBytes_eq [OF inv])
    have szr: "szadd 8 ?r = 8 + ?r"
      using fit D by (simp add: size_simps)
    have len: "length ?v = length (storage b)"
      using fit by (simp add: length_content [OF inv])
    have inv': "buffer_inv ?b"
      using D fit by (simp add: buffer_inv_def length_content [OF inv])
    have c: "content ?b = content b"
      using D by (simp add: content_def [of ?b] length_content [OF inv])
    have rd: "mem_read (storage b) (readerIndex b) ?r = Inr (content b)"
      using peek_mem_content [OF inv, of ?r] by (simp add: peek_mem_def length_content [OF inv])
    have "makeSpace n b = Inr ?b"
      using False r fit
      by (simp add: makeSpace_def sz rd szr Let_def readableBytes_eq [OF inv'] length_content [OF inv])
    moreover have "n \<le> writableBytes ?b"
    proof -
      have "writableBytes ?b = length (storage b) - (8 + ?r)"
        using len by (subst writableBytes_eq [OF inv']) simp
      with False D show ?thesis
        by (simp add: writableBytes_eq [OF inv] readableBytes_eq [OF inv])
    qed
    ultimately show ?thesis
      using that [of ?b] inv' c len by simp
  qed
qed

lemma ensureWritableBytes_ok:
  assumes inv: "buffer_inv b" and room: "has_room b n"
  obtains b' where "ensureWritableBytes n b = Inr b'" and "buffer_inv b'" and "content b' = content b"
    and "n \<le> writableBytes b'" and "readerIndex b' = readerIndex b \<or> readerIndex b' = 8"
    and "length (storage b') \<le> length (storage b) + n"
proof (cases "writableBytes b < n")
  case True
  have "n \<le> max_size" and "writerIndex b + n \<le> max_size"
    using room buffer_invD [OF inv] by (auto simp: has_room_def)
  from makeSpace_ok [OF inv this(1) True this(2)] obtain b' where "makeSpace n b = Inr b'"
    "buffer_inv b'" "content b' = content b" "n \<le> writableBytes b'"
    "readerIndex b' = readerIndex b \<or> readerIndex b' = 8"
    "length (storage b') \<le> length (storage b) + n" .
  with True show ?thesis
    by (intro that [of b']) (simp_all add: ensureWritableBytes_def)
next
  case False
  with inv show ?thesis
    by (intro that [of b]) (simp_all add: ensureWritableBytes_def)
qed

text \<open>The only way out is the exception of the vector, when it would have to grow too far.\<close>

lemma ensureWritableBytes_total:
  assumes inv: "buffer_inv b" and small: "n \<le> max_size"
  shows "(\<exists>b'. ensureWritableBytes n b = Inr b' \<and> buffer_inv b' \<and> content b' = content b \<and>
            n \<le> writableBytes b') \<or>
         (ensureWritableBytes n b = Inl LengthError \<and> writerIndex b + n > max_size)"
proof (cases "writableBytes b < n \<and> writableBytes b + readerIndex b < n + 8 \<and>
    writerIndex b + n > max_size")
  case True
  then show ?thesis
    by (simp add: ensureWritableBytes_def makeSpace_def makeSpace_sizes [OF inv small]
        vector_resize_def)
next
  case F: False
  show ?thesis
  proof (cases "writableBytes b < n")
    case True
    from F True have wn: "writableBytes b + readerIndex b < n + 8 \<Longrightarrow> writerIndex b + n \<le> max_size"
      by auto
    from makeSpace_ok [OF inv small True wn] obtain b' where "makeSpace n b = Inr b'"
      "buffer_inv b'" "content b' = content b" "n \<le> writableBytes b'" .
    with True show ?thesis
      by (simp add: ensureWritableBytes_def)
  next
    case False
    with inv show ?thesis
      by (simp add: ensureWritableBytes_def)
  qed
qed

lemma write_hasWritten_ok:
  assumes inv: "buffer_inv b" and fit: "length d \<le> writableBytes b"
  obtains b1 b' where "write_at_beginWrite d b = Inr b1" and "hasWritten (length d) b1 = Inr b'"
    and "buffer_inv b1" and "storage b1 = storage b'" and "writerIndex b1 = writerIndex b"
    and "writerIndex b' = writerIndex b + length d"
    and "buffer_inv b'" and "content b' = content b @ d"
    and "readerIndex b' = readerIndex b" and "length (storage b') = length (storage b)"
proof -
  note D = buffer_invD [OF inv]
  let ?v = "take (writerIndex b) (storage b) @ d @ drop (writerIndex b + length d) (storage b)"
  let ?b1 = "b\<lparr>storage := ?v\<rparr>"
  let ?b2 = "?b1\<lparr>writerIndex := writerIndex b + length d\<rparr>"
  have f: "writerIndex b + length d \<le> length (storage b)"
    using fit D by (simp add: writableBytes_eq [OF inv])
  have len: "length ?v = length (storage b)"
    using f by simp
  have inv1: "buffer_inv ?b1" and inv2: "buffer_inv ?b2"
    using D f by (simp_all add: buffer_inv_def)
  have sz: "szadd (writerIndex b) (length d) = writerIndex b + length d"
    using f D by (simp add: size_simps)
  have "content ?b2 = content b @ d"
    using D f by (simp add: content_def take_drop)
  moreover have "hasWritten (length d) ?b1 = Inr ?b2"
    using f by (simp add: hasWritten_def sz writableBytes_eq [OF inv1] assertR_hold)
  moreover have "write_at_beginWrite d b = Inr ?b1"
    using f by (simp add: write_at_beginWrite_def)
  ultimately show ?thesis
    using that [of ?b1 ?b2] inv1 inv2 len by simp
qed

lemma append_buf_ok:
  assumes inv: "buffer_inv b" and room: "has_room b (length d)"
  obtains b' where "append_buf d b = Inr b'" and "buffer_inv b'" and "content b' = content b @ d"
    and "readerIndex b' = readerIndex b \<or> readerIndex b' = 8"
    and "length (storage b') \<le> length (storage b) + length d"
proof -
  from ensureWritableBytes_ok [OF inv room] obtain b1 where b1: "ensureWritableBytes (length d) b = Inr b1"
    "buffer_inv b1" "content b1 = content b" "length d \<le> writableBytes b1"
    "readerIndex b1 = readerIndex b \<or> readerIndex b1 = 8"
    "length (storage b1) \<le> length (storage b) + length d" .
  from write_hasWritten_ok [OF b1(2,4)] obtain b2 b3 where "write_at_beginWrite d b1 = Inr b2"
    "hasWritten (length d) b2 = Inr b3" "buffer_inv b3" "content b3 = content b1 @ d"
    "readerIndex b3 = readerIndex b1" "length (storage b3) = length (storage b1)" .
  with b1 show ?thesis
    by (intro that [of b3]) (simp_all add: append_buf_def)
qed

lemma prepend_ok:
  assumes inv: "buffer_inv b" and fit: "length d \<le> readerIndex b"
  obtains b' where "prepend d b = Inr b'" and "buffer_inv b'" and "content b' = d @ content b"
    and "readerIndex b' = readerIndex b - length d" and "length (storage b') = length (storage b)"
proof -
  note D = buffer_invD [OF inv]
  let ?r = "readerIndex b - length d"
  let ?v = "take ?r (storage b) @ d @ drop (readerIndex b) (storage b)"
  let ?b = "b\<lparr>storage := ?v, readerIndex := ?r\<rparr>"
  have sz: "szsub (readerIndex b) (length d) = ?r"
    using fit D by (simp add: size_simps)
  have "prepend d b = Inr ?b"
    using fit D by (simp add: prepend_def prependableBytes_def sz Let_def)
  moreover have "buffer_inv ?b"
    using D fit by (simp add: buffer_inv_def)
  moreover have "content ?b = d @ content b"
    using D fit by (simp add: content_def)
  ultimately show ?thesis
    using that [of ?b] D fit by simp
qed

lemma prepend_too_much: "length d > prependableBytes b \<Longrightarrow> prepend d b = Inl AssertFailure"
  by (simp add: prepend_def assertR_def)

lemma unwrite_ok:
  assumes inv: "buffer_inv b" and n: "n \<le> readableBytes b"
  obtains b' where "unwrite n b = Inr b'" and "buffer_inv b'"
    and "content b' = take (readableBytes b - n) (content b)"
proof -
  note D = buffer_invD [OF inv]
  let ?b = "b\<lparr>writerIndex := writerIndex b - n\<rparr>"
  have "szsub (writerIndex b) n = writerIndex b - n"
    using n D by (simp add: readableBytes_eq [OF inv] size_simps)
  then have "unwrite n b = Inr ?b"
    using n by (simp add: unwrite_def)
  moreover have "buffer_inv ?b"
    using n D unfolding buffer_inv_def readableBytes_eq [OF inv] by auto
  moreover have "content ?b = take (readableBytes b - n) (content b)"
    using n D by (simp add: content_def readableBytes_eq [OF inv] min_def add.commute)
  ultimately show ?thesis
    using that by blast
qed

text \<open>The buffer implements the interface.\<close>

interpretation bufq: byte_queue buffer_inv content has_room append_buf retrieve
proof (unfold_locales, goal_cases)
  case (1 q d m)
  then have "has_room q (length d)"
    by (simp add: has_room_def)
  from append_buf_ok [OF 1(1) this] obtain q' where "append_buf d q = Inr q'" "buffer_inv q'"
    "content q' = content q @ d" "length (storage q') \<le> length (storage q) + length d" .
  with 1 show ?case
    by (auto simp: has_room_def)
next
  case (2 q n m)
  then have "n \<le> readableBytes q"
    by (simp add: length_content)
  from retrieve_ok [OF 2(1) this] obtain q' where "retrieve n q = Inr q'" "buffer_inv q'"
    "content q' = drop n (content q)" "storage q' = storage q" .
  with 2 show ?case
    by (auto simp: has_room_def)
next
  case (3 q n)
  then show ?case
    by (simp add: retrieve_too_much length_content)
qed

text \<open>Network byte order: the most significant byte comes first, and it reads back.\<close>

lemma network_bytes:
  "word_bytes (hostToNetwork64 x64) = rev (word_bytes x64)"
  "word_bytes (hostToNetwork32 x32) = rev (word_bytes x32)"
  "word_bytes (hostToNetwork16 x16) = rev (word_bytes x16)"
  by (simp_all add: hostToNetwork64_def hostToNetwork32_def hostToNetwork16_def word_bytes_bswap)

lemma network_to_host:
  "networkToHost64 (bytes_word (word_bytes (hostToNetwork64 x64))) = x64"
  "networkToHost32 (bytes_word (word_bytes (hostToNetwork32 x32))) = x32"
  "networkToHost16 (bytes_word (word_bytes (hostToNetwork16 x16))) = x16"
  by (simp_all add: hostToNetwork64_def hostToNetwork32_def hostToNetwork16_def
      networkToHost64_def networkToHost32_def networkToHost16_def bytes_word_bytes bswap_bswap)

lemma bytes_word_byte [simp]: "bytes_word [x] = (x :: byte)"
  by (simp add: bytes_word_def)

lemma peekInt32_content:
  assumes "buffer_inv b" and "content b = word_bytes (hostToNetwork32 x) @ rest"
  shows "peekInt32 b = Inr x"
  using assms length_content [OF assms(1)]
  by (simp add: peekInt32_def peek_mem_content assertR_hold network_to_host)

lemma peek_content:
  assumes inv: "buffer_inv b"
  shows "content b = word_bytes (hostToNetwork64 x64) @ rest \<Longrightarrow> peekInt64 b = Inr x64"
    and "content b = word_bytes (hostToNetwork16 x16) @ rest \<Longrightarrow> peekInt16 b = Inr x16"
    and "content b = x8 # rest \<Longrightarrow> peekInt8 b = Inr x8"
  using length_content [OF inv] by (simp_all add: peekInt64_def peekInt16_def peekInt8_def
      peek_mem_content [OF inv] assertR_hold network_to_host)

lemma retrieve_prefix:
  assumes "buffer_inv b" and "content b = d @ rest" and "n = length d"
  shows "\<exists>b'. retrieve n b = Inr b' \<and> buffer_inv b' \<and> content b' = rest"
proof -
  have "n \<le> readableBytes b"
    using assms length_content [OF assms(1)] by simp
  from retrieve_ok [OF assms(1) this] show ?thesis
    using assms by auto
qed

lemmas readInt_defs = readInt64_def readInt32_def readInt16_def readInt8_def
  retrieveInt64_def retrieveInt32_def retrieveInt16_def retrieveInt8_def

lemma readInt_content:
  assumes inv: "buffer_inv b"
  shows "content b = word_bytes (hostToNetwork64 x64) @ rest \<Longrightarrow>
      \<exists>b'. readInt64 b = Inr (x64, b') \<and> buffer_inv b' \<and> content b' = rest"
    and "content b = word_bytes (hostToNetwork32 x32) @ rest \<Longrightarrow>
      \<exists>b'. readInt32 b = Inr (x32, b') \<and> buffer_inv b' \<and> content b' = rest"
    and "content b = word_bytes (hostToNetwork16 x16) @ rest \<Longrightarrow>
      \<exists>b'. readInt16 b = Inr (x16, b') \<and> buffer_inv b' \<and> content b' = rest"
    and "content b = [x8] @ rest \<Longrightarrow>
      \<exists>b'. readInt8 b = Inr (x8, b') \<and> buffer_inv b' \<and> content b' = rest"
  using retrieve_prefix [OF inv, of "word_bytes (hostToNetwork64 x64)" rest 8]
    retrieve_prefix [OF inv, of "word_bytes (hostToNetwork32 x32)" rest 4]
    retrieve_prefix [OF inv, of "word_bytes (hostToNetwork16 x16)" rest 2]
    retrieve_prefix [OF inv, of "[x8]" rest 1]
  by (auto simp: readInt_defs peek_content [OF inv] peekInt32_content [OF inv])

text \<open>Reading from a descriptor.\<close>

text \<open>What \<open>readFd\<close> does after the system call: the writable part is filled, the rest is appended.\<close>

lemma readFd_split:
  assumes inv: "buffer_inv b"
    and rd: "readv (iov_lens b) = Inr d" and bound: "length d \<le> sum_list (iov_lens b)"
  obtains b2 where "buffer_inv b2" "content b2 = content b @ take (writableBytes b) d"
    "length (storage b2) = length (storage b)"
    "readFd readv b = (if length d \<le> writableBytes b then Inr (int (length d), None, b2)
       else bindR (append_buf (drop (writableBytes b) d) b2) (\<lambda>b3. Inr (int (length d), None, b3)))"
proof -
  note D = buffer_invD [OF inv]
  let ?w = "writableBytes b"
  have fit: "length (take ?w d) \<le> ?w" by simp
  from write_hasWritten_ok [OF inv fit] obtain b1 b2 where
    b1: "write_at_beginWrite (take ?w d) b = Inr b1" "buffer_inv b1" "storage b1 = storage b2"
    "writerIndex b1 = writerIndex b" and
    b2: "hasWritten (length (take ?w d)) b1 = Inr b2" "buffer_inv b2"
    "writerIndex b2 = writerIndex b + length (take ?w d)"
    "content b2 = content b @ take ?w d" "readerIndex b2 = readerIndex b"
    "length (storage b2) = length (storage b)" .
  have b2_eq: "b2 = b1\<lparr>writerIndex := szadd (writerIndex b1) (length (take ?w d))\<rparr>"
    using b2(1) by (simp add: hasWritten_def assertR_eq_Inr)
  have "b1\<lparr>writerIndex := length (storage b1)\<rparr> = b2" if "\<not> length d \<le> ?w"
  proof -
    have "writerIndex b2 = length (storage b)"
      using that b2(3) D by (simp add: writableBytes_eq [OF inv])
    then show ?thesis
      using b2_eq b1(3) b2(6) by (metis buffer.select_convs(3) buffer.surjective buffer.update_convs(3))
  qed
  with rd bound b1 b2 b2_eq show ?thesis
    by (intro that [of b2]) (simp_all add: readFd_def Let_def)
qed

lemma readFd_ok:
  assumes inv: "buffer_inv b" and room: "has_room b extrabuf_size"
    and rd: "readv (iov_lens b) = Inr d" and bound: "length d \<le> sum_list (iov_lens b)"
  obtains b' where "readFd readv b = Inr (int (length d), None, b')" and "buffer_inv b'"
    and "content b' = content b @ d"
proof -
  let ?w = "writableBytes b"
  obtain b2 where b2: "buffer_inv b2" "content b2 = content b @ take ?w d" "length (storage b2) = length (storage b)"
    and eq: "readFd readv b = (if length d \<le> ?w then Inr (int (length d), None, b2)
       else bindR (append_buf (drop ?w d) b2) (\<lambda>b3. Inr (int (length d), None, b3)))"
    using readFd_split [where readv = readv, OF inv rd bound] by blast
  show ?thesis
  proof (cases "length d \<le> ?w")
    case True
    with b2 eq show ?thesis by (intro that [of b2]) simp_all
  next
    case False
    have "has_room b2 (length (drop ?w d))"
      using False bound room b2(3) by (auto simp: has_room_def iov_lens_def split: if_splits)
    from append_buf_ok [OF b2(1) this] obtain b3 where
      "append_buf (drop ?w d) b2 = Inr b3" "buffer_inv b3" "content b3 = content b2 @ drop ?w d" .
    with b2 eq False show ?thesis by (intro that [of b3]) simp_all
  qed
qed

lemma append_buf_outcome:
  assumes inv: "buffer_inv b" and small: "length d \<le> max_size"
  shows "(\<exists>b'. append_buf d b = Inr b' \<and> buffer_inv b' \<and> content b' = content b @ d) \<or>
         (append_buf d b = Inl LengthError \<and> writerIndex b + length d > max_size)"
  using ensureWritableBytes_total [OF assms]
proof (elim disjE exE conjE)
  fix b1
  assume b1: "ensureWritableBytes (length d) b = Inr b1" "buffer_inv b1" "content b1 = content b"
    "length d \<le> writableBytes b1"
  from write_hasWritten_ok [OF b1(2,4)] obtain b2 b3 where "write_at_beginWrite d b1 = Inr b2"
    "hasWritten (length d) b2 = Inr b3" "buffer_inv b3" "content b3 = content b1 @ d" .
  with b1 show ?thesis
    by (simp add: append_buf_def)
qed (simp add: append_buf_def)

lemma readFd_outcome:
  assumes inv: "buffer_inv b" and bound: "\<And>d. readv (iov_lens b) = Inr d \<Longrightarrow> length d \<le> sum_list (iov_lens b)"
  shows "readFd readv b = Inl LengthError \<or>
    (\<exists>n e b'. readFd readv b = Inr (n, e, b') \<and> buffer_inv b')"
proof (cases "readv (iov_lens b)")
  case (Inl err)
  then show ?thesis using inv by (simp add: readFd_def Let_def)
next
  case (Inr d)
  let ?w = "writableBytes b"
  obtain b2 where b2: "buffer_inv b2"
    and eq: "readFd readv b = (if length d \<le> ?w then Inr (int (length d), None, b2)
       else bindR (append_buf (drop ?w d) b2) (\<lambda>b3. Inr (int (length d), None, b3)))"
    using readFd_split [where readv = readv, OF inv Inr bound [OF Inr]] by blast
  have "length (drop ?w d) \<le> max_size"
    using bound [OF Inr] by (auto simp: iov_lens_def max_size_def extrabuf_size_def split: if_splits)
  from append_buf_outcome [OF b2 this] eq show ?thesis by (auto split: if_splits simp: b2)
qed

section \<open>Properties\<close>

text \<open>
  C16: the buffer refines a plain queue of bytes. From any well-formed buffer with room for what is
  put into it, a script of appends and retrieves leaves exactly the bytes the list queue holds, and
  a retrieve of more than the readable bytes is the one thing that stops it, with a failing assert.
\<close>

theorem buffer_refines_queue:
  assumes "buffer_inv b" and "has_room b (put_total ops)"
  shows "case queue_spec ops (content b) of
      None \<Rightarrow> run_ops append_buf retrieve ops b = Inl AssertFailure
    | Some bs \<Rightarrow>
        \<exists>b'. run_ops append_buf retrieve ops b = Inr b' \<and> buffer_inv b' \<and> content b' = bs"
  using assms by (rule bufq.run_simulates)

theorem buffer_refines_queue_witness:
  "\<exists>b. buffer_inv b \<and>
     (\<exists>b'. run_ops append_buf retrieve [Put [1, 2, 3], Get 2, Put [4]] b = Inr b' \<and>
           content b' = [3, 4])"
proof -
  obtain b where b: "buffer_inv b" "content b = []" "length (storage b) = 8 + 4"
    using mk_Buffer_ok [of 4] by (auto simp: max_size_def)
  then have room: "has_room b (put_total [Put [1, 2, 3], Get 2, Put [4]])"
    by (simp add: has_room_def max_size_def)
  show ?thesis
    using b buffer_refines_queue [OF b(1) room] by auto
qed

text \<open>
  C17: appending is total. On a well-formed buffer \<open>append\<close> either adds exactly the given bytes
  behind the content and keeps the buffer well-formed (compacting or growing it as needed, with no
  assertion of \<open>makeSpace\<close>, \<open>ensureWritableBytes\<close> or \<open>hasWritten\<close> failing and no write outside the
  storage), or the vector would exceed its maximal size and \<open>std::length_error\<close> is thrown.
\<close>

theorem append_total:
  assumes inv: "buffer_inv b" and small: "length d \<le> max_size"
  shows "(\<exists>b'. append_buf d b = Inr b' \<and> buffer_inv b' \<and> content b' = content b @ d) \<or>
         (append_buf d b = Inl LengthError \<and> writerIndex b + length d > max_size)"
  by (rule append_buf_outcome [OF assms])

theorem append_total_witness:
  "\<exists>b b'. buffer_inv b \<and> append_buf [7, 9] b = Inr b' \<and> content b' = [7, 9]"
proof -
  obtain b where b: "buffer_inv b" "content b = []" "length (storage b) = 8 + 1"
    using mk_Buffer_ok [of 1] by (auto simp: max_size_def)
  moreover from b have "writerIndex b + length [7, 9 :: byte] \<le> max_size"
    using buffer_invD [OF b(1)] by (simp add: max_size_def)
  ultimately show ?thesis
    using append_total [of b "[7, 9]"] by (auto simp: max_size_def)
qed

lemma prepended_integers:
  assumes inv: "buffer_inv b" and fit: "8 \<le> prependableBytes b"
  shows "\<exists>b1 b2. prependInt64 x64 b = Inr b1 \<and> readInt64 b1 = Inr (x64, b2) \<and> content b2 = content b"
    and "\<exists>b1 b2. prependInt32 x32 b = Inr b1 \<and> readInt32 b1 = Inr (x32, b2) \<and> content b2 = content b"
    and "\<exists>b1 b2. prependInt16 x16 b = Inr b1 \<and> readInt16 b1 = Inr (x16, b2) \<and> content b2 = content b"
    and "\<exists>b1 b2. prependInt8 x8 b = Inr b1 \<and> readInt8 b1 = Inr (x8, b2) \<and> content b2 = content b"
proof -
  have pre: "\<exists>b1. prepend d b = Inr b1 \<and> buffer_inv b1 \<and> content b1 = d @ content b" if "length d \<le> 8" for d
  proof -
    have "length d \<le> readerIndex b" using that fit by (simp add: prependableBytes_def)
    from prepend_ok [OF inv this] show ?thesis by metis
  qed
  show "\<exists>b1 b2. prependInt64 x64 b = Inr b1 \<and> readInt64 b1 = Inr (x64, b2) \<and> content b2 = content b"
    using pre [of "word_bytes (hostToNetwork64 x64)"] readInt_content(1) by (fastforce simp: prependInt64_def)
  show "\<exists>b1 b2. prependInt32 x32 b = Inr b1 \<and> readInt32 b1 = Inr (x32, b2) \<and> content b2 = content b"
    using pre [of "word_bytes (hostToNetwork32 x32)"] readInt_content(2) by (fastforce simp: prependInt32_def)
  show "\<exists>b1 b2. prependInt16 x16 b = Inr b1 \<and> readInt16 b1 = Inr (x16, b2) \<and> content b2 = content b"
    using pre [of "word_bytes (hostToNetwork16 x16)"] readInt_content(3) by (fastforce simp: prependInt16_def)
  show "\<exists>b1 b2. prependInt8 x8 b = Inr b1 \<and> readInt8 b1 = Inr (x8, b2) \<and> content b2 = content b"
    using pre [of "[x8]"] readInt_content(4) by (fastforce simp: prependInt8_def)
qed

text \<open>
  C18: integers of every width survive the buffer in network byte order. On a well-formed buffer
  with eight prependable bytes, prepending a 64-, 32-, 16- or 8-bit integer and reading one of the
  same width gives the integer back and leaves the content as it was; integers of the four widths
  appended to an empty buffer are read back in the order they were appended.
\<close>

theorem integer_roundtrip:
  assumes inv: "buffer_inv b" and fit: "8 \<le> prependableBytes b"
    and e: "buffer_inv e" "content e = []" "has_room e 15"
  shows "(\<exists>b1 b2. prependInt64 x64 b = Inr b1 \<and> readInt64 b1 = Inr (x64, b2) \<and> content b2 = content b) \<and>
    (\<exists>b1 b2. prependInt32 x32 b = Inr b1 \<and> readInt32 b1 = Inr (x32, b2) \<and> content b2 = content b) \<and>
    (\<exists>b1 b2. prependInt16 x16 b = Inr b1 \<and> readInt16 b1 = Inr (x16, b2) \<and> content b2 = content b) \<and>
    (\<exists>b1 b2. prependInt8 x8 b = Inr b1 \<and> readInt8 b1 = Inr (x8, b2) \<and> content b2 = content b) \<and>
    (\<exists>e1 e2 e3 e4 r1 r2 r3 r4.
       appendInt64 x64 e = Inr e1 \<and> appendInt32 x32 e1 = Inr e2 \<and>
       appendInt16 x16 e2 = Inr e3 \<and> appendInt8 x8 e3 = Inr e4 \<and>
       readInt64 e4 = Inr (x64, r1) \<and> readInt32 r1 = Inr (x32, r2) \<and>
       readInt16 r2 = Inr (x16, r3) \<and> readInt8 r3 = Inr (x8, r4) \<and> content r4 = [])"
proof -
  let ?d64 = "word_bytes (hostToNetwork64 x64)" and ?d32 = "word_bytes (hostToNetwork32 x32)"
    and ?d16 = "word_bytes (hostToNetwork16 x16)"
  obtain e1 where e1: "appendInt64 x64 e = Inr e1" "buffer_inv e1" "content e1 = ?d64" "has_room e1 7"
    using bufq.put_ok [OF e(1), of ?d64 7] e by (auto simp: appendInt64_def)
  obtain e2 where e2: "appendInt32 x32 e1 = Inr e2" "buffer_inv e2" "content e2 = ?d64 @ ?d32"
    "has_room e2 3"
    using bufq.put_ok [OF e1(2), of ?d32 3] e1 by (auto simp: appendInt32_def)
  obtain e3 where e3: "appendInt16 x16 e2 = Inr e3" "buffer_inv e3"
    "content e3 = ?d64 @ ?d32 @ ?d16" "has_room e3 1"
    using bufq.put_ok [OF e2(2), of ?d16 1] e2 by (auto simp: appendInt16_def)
  obtain e4 where e4: "appendInt8 x8 e3 = Inr e4" "buffer_inv e4"
    "content e4 = ?d64 @ ?d32 @ ?d16 @ [x8]"
    using bufq.put_ok [OF e3(2), of "[x8]" 0] e3 by (auto simp: appendInt8_def)
  obtain r1 where r1: "readInt64 e4 = Inr (x64, r1)" "buffer_inv r1"
    "content r1 = ?d32 @ ?d16 @ [x8]"
    using readInt_content(1) [OF e4(2,3)] by blast
  obtain r2 where r2: "readInt32 r1 = Inr (x32, r2)" "buffer_inv r2" "content r2 = ?d16 @ [x8]"
    using readInt_content(2) [OF r1(2,3)] by blast
  obtain r3 where r3: "readInt16 r2 = Inr (x16, r3)" "buffer_inv r3" "content r3 = [x8] @ []"
    using readInt_content(3) [OF r2(2,3)] by auto
  obtain r4 where "readInt8 r3 = Inr (x8, r4)" "content r4 = []"
    using readInt_content(4) [OF r3(2,3)] by blast
  with e1(1) e2(1) e3(1) e4(1) r1(1) r2(1) r3(1)
  show ?thesis
    using prepended_integers [OF inv fit] by blast
qed

theorem integer_roundtrip_witness:
  "\<exists>b b1 b2. buffer_inv b \<and> prependInt32 305419896 b = Inr b1 \<and>
     readInt32 b1 = Inr (305419896, b2) \<and> content b2 = content b"
proof -
  obtain b where b: "buffer_inv b" "content b = []" "readerIndex b = 8" "length (storage b) = 8 + 16"
    using mk_Buffer_ok [of 16] by (auto simp: max_size_def)
  then have "8 \<le> prependableBytes b" and "has_room b 15"
    by (simp_all add: prependableBytes_def has_room_def max_size_def)
  with integer_roundtrip [OF b(1) _ b(1,2), of _ 305419896] b(1) show ?thesis
    by blast
qed

text \<open>
  C19: \<open>readFd\<close> appends exactly what the kernel delivered. Whatever split between the writable
  region and the one-megabyte stack buffer the two \<open>iovec\<close> entries give, the bytes end up behind
  the content in order and their number is returned; on an error nothing changes and \<open>errno\<close> is
  saved. The hypothesis is the contract of \<open>readv\<close>: it stores no more than the entries hold.
\<close>

theorem readFd_appends:
  assumes inv: "buffer_inv b" and room: "has_room b extrabuf_size"
    and kernel: "\<And>vec d. readv vec = Inr d \<Longrightarrow> length d \<le> sum_list vec"
  shows "case readv (iov_lens b) of
      Inl err \<Rightarrow> readFd readv b = Inr (- 1, Some err, b)
    | Inr d \<Rightarrow> \<exists>b'. readFd readv b = Inr (int (length d), None, b') \<and> buffer_inv b' \<and>
        content b' = content b @ d"
proof (cases "readv (iov_lens b)")
  case (Inl err)
  then show ?thesis
    by (simp add: readFd_def Let_def)
next
  case (Inr d)
  from readFd_ok [where readv = readv, OF inv room Inr kernel [OF Inr]] Inr show ?thesis
    by auto
qed

theorem readFd_appends_witness:
  "\<exists>b b'. buffer_inv b \<and> readFd (\<lambda>_. Inr [5, 6]) b = Inr (2, None, b') \<and>
     content b' = content b @ [5, 6]"
proof -
  obtain b where b: "buffer_inv b" "content b = []" "length (storage b) = 8 + 1"
    using mk_Buffer_ok [of 1] by (auto simp: max_size_def)
  then have room: "has_room b extrabuf_size"
    by (simp add: has_room_def max_size_def extrabuf_size_def)
  define readv :: "nat list \<Rightarrow> int + byte list" where
    "readv = (\<lambda>vec. if 2 \<le> sum_list vec then Inr [5, 6] else Inl 0)"
  have kernel: "length d \<le> sum_list vec" if "readv vec = Inr d" for vec d
    using that by (auto simp: readv_def split: if_splits)
  have "2 \<le> sum_list (iov_lens b)"
    by (simp add: iov_lens_def extrabuf_size_def)
  then have "readv (iov_lens b) = Inr [5, 6]" and "readFd (\<lambda>_. Inr [5, 6]) b = readFd readv b"
    by (simp_all add: readv_def readFd_def Let_def)
  with readFd_appends [OF b(1) room, of readv, OF kernel] b(1) show ?thesis
    by auto
qed

end
