(* ===== verification/RpcCodec.thy ===== *)
theory RpcCodec
  imports Buffer
begin

text \<open>
  \<open>proto_rpc/rpc_framework/RpcCodec.h\<close> and \<open>RpcCodec.cc\<close>: framing of protobuf messages on the byte
  stream. Two libraries outside the repository are arguments of the definitions: \<open>adler\<close> is zlib's
  \<open>adler32\<close> (from a start value and the bytes), \<open>ser\<close> and \<open>pfa\<close> are protobuf's serialisation and
  \<open>ParseFromArray\<close>. Pointers into a buffer are the memory from the pointer to the end of the
  vector, with the \<open>int\<close> lengths of the code kept as \<open>int\<close>.

  The specification side is a decoder of one frame on plain byte lists (\<open>decode_step\<close>), the
  interface \<open>stream_decoder\<close> it satisfies, and what follows for streams cut into arbitrary chunks.
\<close>

section \<open>RpcCodec.h\<close>

definition kHeaderLen :: int where "kHeaderLen = 4"
definition kChecksumLen :: int where "kChecksumLen = 4"
definition kMaxMessageLen :: int where "kMaxMessageLen = 64 * 1024 * 1024"
definition kMinMessageLen :: int where "kMinMessageLen = 4"

text \<open>The tag \<open>"RPC0"\<close>.\<close>

definition rpc_tag :: "byte list" where
  "rpc_tag = [82, 80, 67, 48]"

datatype CodecErrorCode =
  kNoError | kInvalidLength | kCheckSumError | kInvalidNameLen | kUnknownMessageType | kParseError

section \<open>RpcCodec.cc\<close>

text \<open>Reading \<open>n\<close> bytes at a signed offset from a pointer.\<close>

definition ptr_read :: "byte list \<Rightarrow> int \<Rightarrow> int \<Rightarrow> byte list res" where
  "ptr_read p off n = (if 0 \<le> off \<and> 0 \<le> n then mem_read p (nat off) (nat n) else Inl OutOfBounds)"

definition asInt32 :: "byte list \<Rightarrow> int \<Rightarrow> 32 word res" where
  "asInt32 p off = bindR (ptr_read p off 4) (\<lambda>d. Inr (networkToHost32 (bytes_word d)))"

definition checksum :: "(32 word \<Rightarrow> byte list \<Rightarrow> 32 word) \<Rightarrow> byte list \<Rightarrow> int \<Rightarrow> 32 word res" where
  "checksum adler p len = bindR (ptr_read p 0 len) (\<lambda>d. Inr (adler 1 d))"

definition validateChecksum ::
  "(32 word \<Rightarrow> byte list \<Rightarrow> 32 word) \<Rightarrow> byte list \<Rightarrow> int \<Rightarrow> bool res" where
  "validateChecksum adler p len =
     bindR (asInt32 p (len - kChecksumLen)) (\<lambda>expectedCheckSum.
     bindR (checksum adler p (len - kChecksumLen)) (\<lambda>checkSum.
       Inr (checkSum = expectedCheckSum)))"

definition parseFromBuffer ::
  "(byte list \<Rightarrow> 'm option) \<Rightarrow> byte list \<Rightarrow> int \<Rightarrow> int \<Rightarrow> 'm option res" where
  "parseFromBuffer pfa p off len = bindR (ptr_read p off len) (\<lambda>d. Inr (pfa d))"

definition parse ::
  "(32 word \<Rightarrow> byte list \<Rightarrow> 32 word) \<Rightarrow> (byte list \<Rightarrow> 'm option) \<Rightarrow> byte list \<Rightarrow> int \<Rightarrow>
   (CodecErrorCode \<times> 'm option) res" where
  "parse adler pfa p len =
     bindR (validateChecksum adler p len) (\<lambda>ok.
       if ok then
         bindR (ptr_read p 0 (int (length rpc_tag))) (\<lambda>t.
           if t = rpc_tag then
             let dataLen = len - kChecksumLen - int (length rpc_tag) in
             bindR (parseFromBuffer pfa p (int (length rpc_tag)) dataLen) (\<lambda>message.
               case message of
                 Some m \<Rightarrow> Inr (kNoError, Some m)
               | None \<Rightarrow> Inr (kParseError, None))
           else Inr (kUnknownMessageType, None))
       else Inr (kCheckSumError, None))"

definition serializeToBuffer :: "('m \<Rightarrow> byte list) \<Rightarrow> 'm \<Rightarrow> buffer \<Rightarrow> (int \<times> buffer) res" where
  "serializeToBuffer ser message buf =
     (let byte_size = size_to_int32 (length (ser message)) in
      bindR (ensureWritableBytes (int_to_size (byte_size + kChecksumLen)) buf) (\<lambda>b1.
      bindR (write_at_beginWrite (ser message) b1) (\<lambda>b2.
      bindR (hasWritten (int_to_size byte_size) b2) (\<lambda>b3.
        Inr (byte_size, b3)))))"

definition fillEmptyBuffer ::
  "(32 word \<Rightarrow> byte list \<Rightarrow> 32 word) \<Rightarrow> ('m \<Rightarrow> byte list) \<Rightarrow> buffer \<Rightarrow> 'm \<Rightarrow> buffer res" where
  "fillEmptyBuffer adler ser buf message =
     assertR (readableBytes buf = 0)
       (bindR (append_buf rpc_tag buf) (\<lambda>b1.
        bindR (serializeToBuffer ser message b1) (\<lambda>(byte_size, b2).
        bindR (checksum adler (drop (readerIndex b2) (storage b2)) (size_to_int32 (readableBytes b2)))
          (\<lambda>checkSum.
        bindR (appendInt32 checkSum b2) (\<lambda>b3.
        assertR (readableBytes b3 =
                 szadd (szadd (length rpc_tag) (int_to_size byte_size)) (int_to_size kChecksumLen))
          (let len = hostToNetwork32 (of_int (size_to_int32 (readableBytes b3))) in
           prepend (word_bytes len) b3))))))"

text \<open>The buffer \<open>send\<close> hands to the connection.\<close>

definition encode_message ::
  "(32 word \<Rightarrow> byte list \<Rightarrow> 32 word) \<Rightarrow> ('m \<Rightarrow> byte list) \<Rightarrow> 'm \<Rightarrow> buffer res" where
  "encode_message adler ser message =
     bindR (mk_Buffer kInitialSize) (\<lambda>buf. fillEmptyBuffer adler ser buf message)"

text \<open>
  The receive loop. \<open>cb\<close> is \<open>messageCallback_\<close>, acting on the rest of the program's state \<open>w\<close>; it
  does not touch the buffer, which is retrieved after it returns. Each round takes at least eight
  bytes out of the buffer, which is the termination argument.
\<close>

lemma bindR_cong [fundef_cong]:
  "m = m' \<Longrightarrow> (\<And>x. m' = Inr x \<Longrightarrow> f x = g x) \<Longrightarrow> bindR m f = bindR m' g"
  by (cases m') simp_all

lemma retrieve_decreases:
  assumes "retrieve n b = Inr b'" and "0 < n" and "n \<le> readableBytes b"
  shows "readableBytes b' < readableBytes b"
proof (cases "n < readableBytes b")
  case True
  with assms have "readableBytes b' = readableBytes b - n"
    by (auto simp: retrieve_def readableBytes_def szsub_szadd)
  with True assms show ?thesis by simp
next
  case False
  with assms have "readableBytes b' = 0" and "0 < readableBytes b"
    by (auto simp: retrieve_def retrieveAll_def readableBytes_def szsub_def)
  then show ?thesis by simp
qed

function (sequential) onMessage ::
  "(32 word \<Rightarrow> byte list \<Rightarrow> 32 word) \<Rightarrow> (byte list \<Rightarrow> 'm option) \<Rightarrow> ('m \<Rightarrow> 'w \<Rightarrow> 'w res) \<Rightarrow>
   buffer \<Rightarrow> 'w \<Rightarrow> (buffer \<times> 'w) res" where
  "onMessage adler pfa cb buf w =
     (if readableBytes buf \<ge> nat (kMinMessageLen + kHeaderLen) then
        bindR (peekInt32 buf) (\<lambda>len32.
          let len = sint len32 in
          if len > kMaxMessageLen \<or> len < kMinMessageLen then Inr (buf, w)
          else if readableBytes buf \<ge> int_to_size (kHeaderLen + len) then
            bindR (parse adler pfa (drop (readerIndex buf + nat kHeaderLen) (storage buf)) len)
              (\<lambda>r. case r of
                 (kNoError, Some message) \<Rightarrow>
                   bindR (cb message w) (\<lambda>w'.
                   bindR (retrieve (int_to_size (kHeaderLen + len)) buf) (\<lambda>buf'.
                     onMessage adler pfa cb buf' w'))
               | _ \<Rightarrow> Inr (buf, w))
          else Inr (buf, w))
      else Inr (buf, w))"
  by pat_completeness auto
termination
proof (relation "measure (\<lambda>(adler, pfa, cb, buf, w). readableBytes buf)")
qed (auto intro!: retrieve_decreases simp: int_to_size_def kHeaderLen_def kMinMessageLen_def
    kMaxMessageLen_def not_less)

declare onMessage.simps [simp del]

section \<open>Specification\<close>

text \<open>The documented wire format.\<close>

definition be32 :: "32 word \<Rightarrow> byte list" where
  "be32 w = rev (word_bytes w)"

definition frame :: "(32 word \<Rightarrow> byte list \<Rightarrow> 32 word) \<Rightarrow> ('m \<Rightarrow> byte list) \<Rightarrow> 'm \<Rightarrow> byte list" where
  "frame adler ser m =
     be32 (of_nat (length (ser m) + 8)) @ rpc_tag @ ser m @ be32 (adler 1 (rpc_tag @ ser m))"

text \<open>Decoding a complete body (everything after the size field).\<close>

definition decode_body ::
  "(32 word \<Rightarrow> byte list \<Rightarrow> 32 word) \<Rightarrow> (byte list \<Rightarrow> 'm option) \<Rightarrow> byte list \<Rightarrow> 'm option" where
  "decode_body adler pfa body =
     (let k = length body - 4; payload = drop 4 (take k body) in
      if 8 \<le> length body \<and> drop k body = be32 (adler 1 (take k body)) \<and> take 4 body = rpc_tag
      then pfa payload else None)"

definition size_field :: "byte list \<Rightarrow> int" where
  "size_field bs = sint (bytes_word (rev (take 4 bs)) :: 32 word)"

text \<open>One message at the front of the stream and the number of bytes it occupies, if there is one.\<close>

definition decode_step ::
  "(32 word \<Rightarrow> byte list \<Rightarrow> 32 word) \<Rightarrow> (byte list \<Rightarrow> 'm option) \<Rightarrow> byte list \<Rightarrow> ('m \<times> nat) option"
where
  "decode_step adler pfa bs =
     (let len = size_field bs in
      if 8 \<le> length bs \<and> kMinMessageLen \<le> len \<and> len \<le> kMaxMessageLen \<and> 4 + nat len \<le> length bs
      then map_option (\<lambda>m. (m, 4 + nat len)) (decode_body adler pfa (take (nat len) (drop 4 bs)))
      else None)"

text \<open>Running a decoder until it finds nothing more.\<close>

function (sequential) drain :: "(byte list \<Rightarrow> ('m \<times> nat) option) \<Rightarrow> byte list \<Rightarrow> 'm list \<times> byte list" where
  "drain step bs =
     (case step bs of
        Some (m, n) \<Rightarrow>
          if 0 < n \<and> n \<le> length bs
          then (let (ms, r) = drain step (drop n bs) in (m # ms, r)) else ([], bs)
      | None \<Rightarrow> ([], bs))"
  by pat_completeness auto
termination
  by (relation "measure (\<lambda>(step, bs). length bs)") auto

declare drain.simps [simp del]

text \<open>Feeding a stream chunk by chunk.\<close>

fun feed ::
  "(32 word \<Rightarrow> byte list \<Rightarrow> 32 word) \<Rightarrow> (byte list \<Rightarrow> 'm option) \<Rightarrow> ('m \<Rightarrow> 'w \<Rightarrow> 'w res) \<Rightarrow>
   byte list list \<Rightarrow> buffer \<Rightarrow> 'w \<Rightarrow> (buffer \<times> 'w) res" where
  "feed adler pfa cb [] buf w = Inr (buf, w)"
| "feed adler pfa cb (d # ds) buf w =
     bindR (append_buf d buf) (\<lambda>b1.
     bindR (onMessage adler pfa cb b1 w) (\<lambda>(b2, w2). feed adler pfa cb ds b2 w2))"

text \<open>Adler-32 as RFC 1950 defines it, for the one place where its values matter.\<close>

fun adler_sums :: "nat \<Rightarrow> nat \<Rightarrow> byte list \<Rightarrow> nat \<times> nat" where
  "adler_sums s1 s2 [] = (s1, s2)"
| "adler_sums s1 s2 (b # bs) =
     (let s1' = (s1 + unat b) mod 65521 in adler_sums s1' ((s2 + s1') mod 65521) bs)"

definition adler32_ref :: "32 word \<Rightarrow> byte list \<Rightarrow> 32 word" where
  "adler32_ref init bs =
     (let (s1, s2) = adler_sums (unat init mod 65536) (unat init div 65536) bs
      in of_nat (s2 * 65536 + s1))"

definition is_adler32 :: "(32 word \<Rightarrow> byte list \<Rightarrow> 32 word) \<Rightarrow> bool" where
  "is_adler32 adler \<longleftrightarrow> (\<forall>init bs. adler init bs = adler32_ref init bs)"

section \<open>The interface of a frame decoder\<close>

locale stream_decoder =
  fixes step :: "byte list \<Rightarrow> ('m \<times> nat) option"
  assumes progress: "step bs = Some (m, n) \<Longrightarrow> 0 < n \<and> n \<le> length bs"
    and extends: "step bs = Some (m, n) \<Longrightarrow> step (bs @ ys) = Some (m, n)"
begin

lemma drain_None: "step bs = None \<Longrightarrow> drain step bs = ([], bs)"
  by (simp add: drain.simps)

lemma drain_Some:
  "step bs = Some (m, n) \<Longrightarrow>
   drain step bs = (m # fst (drain step (drop n bs)), snd (drain step (drop n bs)))"
  using progress [of bs m n] by (simp add: drain.simps [of step bs] split_beta)

lemma drain_drained: "drain step (snd (drain step bs)) = ([], snd (drain step bs))"
proof (induction "length bs" arbitrary: bs rule: less_induct)
  case less
  show ?case
  proof (cases "step bs")
    case None
    then show ?thesis by (simp add: drain_None)
  next
    case (Some mn)
    then obtain m n where mn: "step bs = Some (m, n)" by (cases mn) simp
    have "length (drop n bs) < length bs"
      using progress [OF mn] by auto
    from less [OF this] show ?thesis
      by (simp add: drain_Some [OF mn])
  qed
qed

lemma drain_append:
  "drain step (xs @ ys) =
     (fst (drain step xs) @ fst (drain step (snd (drain step xs) @ ys)),
      snd (drain step (snd (drain step xs) @ ys)))"
proof (induction "length xs" arbitrary: xs rule: less_induct)
  case less
  show ?case
  proof (cases "step xs")
    case None
    then show ?thesis by (simp add: drain_None)
  next
    case (Some mn)
    then obtain m n where mn: "step xs = Some (m, n)" by (cases mn) simp
    from progress [OF mn] have n: "0 < n" "n \<le> length xs" by auto
    then have "drain step (drop n xs @ ys) =
      (fst (drain step (drop n xs)) @ fst (drain step (snd (drain step (drop n xs)) @ ys)),
       snd (drain step (snd (drain step (drop n xs)) @ ys)))"
      by (intro less) simp
    with n show ?thesis
      by (simp add: drain_Some [OF mn] drain_Some [OF extends [OF mn]])
  qed
qed

end

section \<open>Lemmas\<close>

lemmas codec_consts = kHeaderLen_def kChecksumLen_def kMaxMessageLen_def kMinMessageLen_def

lemma length_rpc_tag [simp]: "length rpc_tag = 4"
  by (simp add: rpc_tag_def)

lemma length_be32 [simp]: "length (be32 w) = 4"
  by (simp add: be32_def)

lemma be32_network: "word_bytes (hostToNetwork32 w) = be32 w"
  by (simp add: be32_def network_bytes)

lemma networkToHost32_bytes:
  assumes "length d = 4"
  shows "networkToHost32 (bytes_word d) = bytes_word (rev d)"
proof -
  have "word_bytes (bytes_word d :: 32 word) = d"
    using assms by (simp add: word_bytes_word)
  then show ?thesis
    by (simp add: networkToHost32_def bswap_def)
qed

lemma bytes_word_be32 [simp]: "bytes_word (rev (be32 w)) = w"
  by (simp add: be32_def bytes_word_bytes)

lemma bytes_word_eq_be32:
  assumes "length d = 4"
  shows "w = bytes_word (rev d) \<longleftrightarrow> d = be32 w"
proof
  assume "w = bytes_word (rev d)"
  then have "word_bytes w = rev d"
    using assms by (simp add: word_bytes_word)
  then show "d = be32 w"
    by (simp add: be32_def)
qed simp

lemma size_field_append: "4 \<le> length bs \<Longrightarrow> size_field (bs @ ys) = size_field bs"
  by (simp add: size_field_def)

lemma peekInt32_size_field:
  assumes "buffer_inv b" and "4 \<le> readableBytes b"
  shows "\<exists>w. peekInt32 b = Inr w \<and> sint w = size_field (content b)"
  using assms length_content [OF assms(1)]
  by (simp add: peekInt32_def peek_mem_content networkToHost32_bytes size_field_def)

text \<open>The decoder satisfies the interface, whatever the libraries do.\<close>

interpretation rpcdec: stream_decoder "decode_step adler pfa" for adler pfa
proof (unfold_locales, goal_cases)
  case (1 bs m n)
  then show ?case
    by (auto simp: decode_step_def Let_def split: if_splits)
next
  case (2 bs m n ys)
  from 2 have "8 \<le> length bs" and "4 + nat (size_field bs) \<le> length bs"
    by (auto simp: decode_step_def Let_def split: if_splits)
  with 2 show ?case
    by (auto simp: decode_step_def Let_def size_field_append split: if_splits)
qed

subsection \<open>Parsing a body\<close>

lemma ptr_read_take:
  "0 \<le> off \<Longrightarrow> 0 \<le> n \<Longrightarrow> nat off + nat n \<le> length p \<Longrightarrow>
   ptr_read p off n = Inr (take (nat n) (drop (nat off) p))"
  by (simp add: ptr_read_def)

lemma validateChecksum_body:
  assumes "4 \<le> len" and "nat len \<le> length p"
  shows "validateChecksum adler p len =
    Inr (drop (nat len - 4) (take (nat len) p) = be32 (adler 1 (take (nat len - 4) p)))"
proof -
  have n: "nat (len - 4) = nat len - 4" and "nat (len - 4) + 4 = nat len"
    using assms by simp_all
  then have "take 4 (drop (nat len - 4) p) = drop (nat len - 4) (take (nat len) p)"
    using assms by (simp add: take_drop)
  moreover have "length (take 4 (drop (nat len - 4) p)) = 4"
    using assms by simp
  ultimately show ?thesis
    using assms bytes_word_eq_be32 [of "take 4 (drop (nat len - 4) p)"]
    by (simp add: validateChecksum_def asInt32_def checksum_def codec_consts ptr_read_take n
        networkToHost32_bytes)
qed

text \<open>A frame whose checksum and tag are right is long enough to hold both.\<close>

lemma be32_bytes:
  "be32 w = [of_nat (unat w div 16777216 mod 256), of_nat (unat w div 65536 mod 256),
             of_nat (unat w div 256 mod 256), of_nat (unat w mod 256)]"
proof -
  have "le_bytes (Suc (Suc (Suc (Suc 0)))) x = [of_nat (x mod 256), of_nat (x div 256 mod 256),
      of_nat (x div 65536 mod 256), of_nat (x div 16777216 mod 256)]" for x
    by (simp add: div_mult2_eq [symmetric])
  moreover have "(4::nat) = Suc (Suc (Suc (Suc 0)))"
    by simp
  ultimately have "le_bytes 4 x = [of_nat (x mod 256), of_nat (x div 256 mod 256),
      of_nat (x div 65536 mod 256), of_nat (x div 16777216 mod 256)]" for x
    by presburger
  then show ?thesis
    by (simp add: be32_def word_bytes_def)
qed

lemma be32_adler_short:
  "be32 (adler32_ref 1 []) = [0, 0, 0, 1]"
  "be32 (adler32_ref 1 [82]) = [0, 83, 0, 83]"
  "be32 (adler32_ref 1 [82, 80]) = [0, 246, 0, 163]"
  "be32 (adler32_ref 1 [82, 80, 67]) = [1, 220, 0, 230]"
  by (simp_all add: be32_bytes adler32_ref_def)

lemma short_body_rejected:
  assumes adler: "is_adler32 adler" and len: "length body < 8" "4 \<le> length body"
    and tag: "take 4 body = rpc_tag"
  shows "drop (length body - 4) body \<noteq> be32 (adler 1 (take (length body - 4) body))"
proof -
  obtain r where body: "body = [82, 80, 67, 48] @ r"
    using append_take_drop_id [of 4 body] tag by (metis rpc_tag_def)
  have "length r < 4"
    using len body by simp
  then consider "length r = 0" | "length r = 1" | "length r = 2" | "length r = 3"
    by linarith
  then show ?thesis
    using adler by cases (auto simp: body is_adler32_def be32_adler_short)
qed

lemma parse_decode_body:
  assumes adler: "is_adler32 adler" and len: "4 \<le> len" "nat len \<le> length p"
  shows "\<exists>e. e \<noteq> kNoError \<and> parse adler pfa p len =
    Inr (case decode_body adler pfa (take (nat len) p) of
           Some m \<Rightarrow> (kNoError, Some m) | None \<Rightarrow> (e, None))"
proof -
  let ?body = "take (nat len) p" and ?k = "nat len - 4"
  let ?ok = "drop ?k ?body = be32 (adler 1 (take ?k p))"
  have lb: "length ?body = nat len" and tk: "take ?k ?body = take ?k p" and t4: "take 4 ?body = take 4 p"
    using len by simp_all
  have tag: "ptr_read p 0 4 = Inr (take 4 p)"
    using len by (simp add: ptr_read_take)
  note check = validateChecksum_body [OF len, of adler]
  consider "\<not> ?ok" | "?ok" "take 4 p \<noteq> rpc_tag" | "?ok" "take 4 p = rpc_tag" by blast
  then show ?thesis
  proof cases
    case 1
    with lb tk have "decode_body adler pfa ?body = None"
      by (simp add: decode_body_def Let_def)
    with 1 check show ?thesis
      by (intro exI [of _ kCheckSumError]) (simp add: parse_def)
  next
    case 2
    with t4 have "decode_body adler pfa ?body = None"
      by (simp add: decode_body_def Let_def)
    with 2 check tag show ?thesis
      by (intro exI [of _ kUnknownMessageType]) (simp add: parse_def)
  next
    case 3
    have long: "8 \<le> nat len"
    proof (rule ccontr)
      assume "\<not> 8 \<le> nat len"
      then have "length ?body < 8" "4 \<le> length ?body"
        using lb len by simp_all
      from short_body_rejected [OF adler this] 3 lb tk t4 show False
        by simp
    qed
    let ?d = "drop 4 (take ?k p)"
    have "nat (len - 8) = nat len - 8" and "take (nat len - 8) (drop 4 p) = ?d"
      using long by (simp_all add: take_drop)
    then have "parseFromBuffer pfa p 4 (len - 8) = Inr (pfa ?d)"
      using long len by (simp add: parseFromBuffer_def ptr_read_take)
    moreover have "decode_body adler pfa ?body = pfa ?d"
      using 3 long lb tk t4 by (simp add: decode_body_def Let_def)
    ultimately show ?thesis
      using 3 check tag
      by (intro exI [of _ kParseError]) (simp add: parse_def Let_def codec_consts split: option.split)
  qed
qed

subsection \<open>The receive loop\<close>

lemma sint32_bounds: "sint (w :: 32 word) < 2 ^ 31"
  using sint_lt [of w] by simp

lemma onMessage_step:
  assumes adler: "is_adler32 adler" and inv: "buffer_inv b"
  shows "onMessage adler pfa cb b w =
    (case decode_step adler pfa (content b) of
       None \<Rightarrow> Inr (b, w)
     | Some (m, n) \<Rightarrow> bindR (cb m w) (\<lambda>w'. bindR (retrieve n b) (\<lambda>b'. onMessage adler pfa cb b' w')))"
proof (cases "8 \<le> readableBytes b")
  case False
  then show ?thesis
    using length_content [OF inv]
    by (simp add: onMessage.simps [of _ _ _ b] decode_step_def Let_def codec_consts)
next
  case True
  let ?len = "size_field (content b)"
  let ?p = "drop (readerIndex b + 4) (storage b)"
  obtain w32 where pk: "peekInt32 b = Inr w32" "sint w32 = ?len"
    using peekInt32_size_field [OF inv] True by auto
  show ?thesis
  proof (cases "4 \<le> ?len \<and> ?len \<le> kMaxMessageLen \<and> 4 + nat ?len \<le> readableBytes b")
    case False
    have "int_to_size (4 + ?len) = 4 + nat ?len" if "4 \<le> ?len" "?len \<le> kMaxMessageLen"
      using that by (simp add: size_simps kMaxMessageLen_def)
    with False True pk show ?thesis
      using length_content [OF inv]
      by (auto simp: onMessage.simps [of _ _ _ b] decode_step_def Let_def codec_consts)
  next
    case ok: True
    let ?body = "take (nat ?len) (drop 4 (content b))"
    have sz: "int_to_size (4 + ?len) = 4 + nat ?len"
      using ok by (auto simp: size_simps kMaxMessageLen_def)
    have "take (nat ?len) ?p = ?body" and fits: "nat ?len \<le> length ?p"
      using content_region [OF inv, of 4 "nat ?len"] ok by simp_all
    with parse_decode_body [OF adler, of ?len ?p pfa] ok obtain e where e: "e \<noteq> kNoError"
      "parse adler pfa ?p ?len = Inr (case decode_body adler pfa ?body of
         Some m \<Rightarrow> (kNoError, Some m) | None \<Rightarrow> (e, None))" by auto
    then show ?thesis
      using ok True pk sz length_content [OF inv]
      by (cases "decode_body adler pfa ?body"; cases e)
        (simp_all add: onMessage.simps [of _ _ _ b] decode_step_def Let_def codec_consts)
  qed
qed

lemma onMessage_drain:
  assumes adler: "is_adler32 adler" and inv: "buffer_inv b"
  shows "\<exists>b'. buffer_inv b' \<and> storage b' = storage b \<and>
    content b' = snd (drain (decode_step adler pfa) (content b)) \<and>
    onMessage adler pfa cb b w =
      bindR (foldR cb (fst (drain (decode_step adler pfa) (content b))) w) (\<lambda>w'. Inr (b', w'))"
  using inv
proof (induction "length (content b)" arbitrary: b w rule: less_induct)
  case less
  let ?step = "decode_step adler pfa"
  note unfold = onMessage_step [OF adler less.prems, of pfa cb w]
  show ?case
  proof (cases "?step (content b)")
    case None
    with less.prems unfold show ?thesis
      by (intro exI [of _ b]) (simp add: rpcdec.drain_None)
  next
    case (Some mn)
    then obtain m n where mn: "?step (content b) = Some (m, n)" by (cases mn) simp
    from rpcdec.progress [OF mn] have n: "0 < n" "n \<le> readableBytes b"
      by (auto simp: length_content [OF less.prems])
    from retrieve_ok [OF less.prems n(2)] obtain b1 where b1: "retrieve n b = Inr b1" "buffer_inv b1"
      "content b1 = drop n (content b)" "storage b1 = storage b" .
    have shorter: "length (content b1) < length (content b)"
      using b1(3) n by (simp add: length_content [OF less.prems])
    show ?thesis
    proof (cases "cb m w")
      case (Inl e)
      from less.hyps [OF shorter b1(2)] obtain b2 where "buffer_inv b2" "storage b2 = storage b1"
        "content b2 = snd (drain ?step (content b1))" by blast
      with Inl unfold mn b1 show ?thesis
        by (intro exI [of _ b2]) (simp add: rpcdec.drain_Some [OF mn])
    next
      case (Inr w1)
      from less.hyps [OF shorter b1(2), of w1] obtain b2 where "buffer_inv b2" "storage b2 = storage b1"
        "content b2 = snd (drain ?step (content b1))"
        "onMessage adler pfa cb b1 w1 =
           bindR (foldR cb (fst (drain ?step (content b1))) w1) (\<lambda>w'. Inr (b2, w'))" by blast
      with Inr unfold mn b1 show ?thesis
        by (intro exI [of _ b2]) (simp add: rpcdec.drain_Some [OF mn])
    qed
  qed
qed

subsection \<open>Streams\<close>

lemma feed_drain:
  assumes adler: "is_adler32 adler" and inv: "buffer_inv b"
    and room: "has_room b (length (concat ds))"
    and drained: "drain (decode_step adler pfa) (content b) = ([], content b)"
  shows "\<exists>b'. buffer_inv b' \<and>
    content b' = snd (drain (decode_step adler pfa) (content b @ concat ds)) \<and>
    feed adler pfa cb ds b w =
      bindR (foldR cb (fst (drain (decode_step adler pfa) (content b @ concat ds))) w)
        (\<lambda>w'. Inr (b', w'))"
  using inv room drained
proof (induction ds arbitrary: b w)
  case (Cons d ds)
  let ?dr = "drain (decode_step adler pfa)"
  have "has_room b (length d + length (concat ds))"
    using Cons.prems(2) by simp
  with bufq.put_ok [OF Cons.prems(1)] obtain b1 where b1: "append_buf d b = Inr b1" "buffer_inv b1"
    "content b1 = content b @ d" "has_room b1 (length (concat ds))" by blast
  from onMessage_drain [OF adler b1(2), of pfa cb w] obtain b2 where b2: "buffer_inv b2"
    "storage b2 = storage b1" "content b2 = snd (?dr (content b1))"
    "onMessage adler pfa cb b1 w = bindR (foldR cb (fst (?dr (content b1))) w) (\<lambda>w'. Inr (b2, w'))"
    by blast
  have room2: "has_room b2 (length (concat ds))"
    using b1(4) b2(2) by (simp add: has_room_def)
  have dr2: "?dr (content b2) = ([], content b2)"
    by (simp add: b2(3) rpcdec.drain_drained)
  have split: "?dr (content b @ concat (d # ds)) =
      (fst (?dr (content b1)) @ fst (?dr (content b2 @ concat ds)), snd (?dr (content b2 @ concat ds)))"
    using rpcdec.drain_append [of adler pfa "content b1" "concat ds"] by (simp add: b1(3) b2(3))
  show ?case
  proof (cases "foldR cb (fst (?dr (content b1))) w")
    case (Inl e)
    from Cons.IH [OF b2(1) room2 dr2] obtain b3 where "buffer_inv b3"
      "content b3 = snd (?dr (content b2 @ concat ds))" by blast
    with Inl b1(1) b2(4) show ?thesis
      by (intro exI [of _ b3]) (simp add: split foldR_append del: concat.simps)
  next
    case (Inr w1)
    from Cons.IH [OF b2(1) room2 dr2, of w1] obtain b3 where "buffer_inv b3"
      "content b3 = snd (?dr (content b2 @ concat ds))"
      "feed adler pfa cb ds b2 w1 =
         bindR (foldR cb (fst (?dr (content b2 @ concat ds))) w1) (\<lambda>w'. Inr (b3, w'))" by blast
    with Inr b1(1) b2(4) show ?thesis
      by (intro exI [of _ b3]) (simp add: split foldR_append del: concat.simps)
  qed
qed auto

text \<open>What the sender's library calls must give for a message to get through.\<close>

definition sendable :: "('m \<Rightarrow> byte list) \<Rightarrow> (byte list \<Rightarrow> 'm option) \<Rightarrow> 'm \<Rightarrow> bool" where
  "sendable ser pfa m \<longleftrightarrow> pfa (ser m) = Some m \<and> int (length (ser m)) + 8 \<le> kMaxMessageLen"

lemma length_frame [simp]: "length (frame adler ser m) = length (ser m) + 12"
  by (simp add: frame_def)

lemma size_field_frame:
  assumes "length (ser m) + 8 < 2 ^ 31"
  shows "size_field (frame adler ser m @ ys) = int (length (ser m)) + 8"
proof -
  have "take 4 (frame adler ser m @ ys) = be32 (of_nat (length (ser m) + 8))"
    by (simp add: frame_def)
  then have "size_field (frame adler ser m @ ys) = size_to_int32 (length (ser m) + 8)"
    by (simp only: size_field_def size_to_int32_def bytes_word_be32)
  with assms show ?thesis
    by (simp add: size_simps)
qed

lemma decode_step_frame:
  assumes "sendable ser pfa m"
  shows "decode_step adler pfa (frame adler ser m @ ys) = Some (m, length (ser m) + 12)"
proof -
  let ?N = "length (ser m)"
  have N: "int ?N + 8 \<le> kMaxMessageLen" and small: "?N + 8 < 2 ^ 31"
    using assms by (simp_all add: sendable_def kMaxMessageLen_def)
  have len: "nat (int ?N + 8) = ?N + 8" by simp
  let ?body = "rpc_tag @ ser m @ be32 (adler 1 (rpc_tag @ ser m))"
  have "take (?N + 8) (drop 4 (frame adler ser m @ ys)) = ?body"
    by (simp add: frame_def)
  moreover have "decode_body adler pfa ?body = Some m"
    using assms by (simp add: decode_body_def Let_def sendable_def)
  ultimately show ?thesis
    using N by (simp add: decode_step_def size_field_frame [where ser = ser and m = m, OF small] len Let_def kMinMessageLen_def)
qed

lemma drain_frames:
  assumes "\<forall>m \<in> set ms. sendable ser pfa m"
    and "decode_step adler pfa rest = None"
  shows "drain (decode_step adler pfa) (concat (map (frame adler ser) ms) @ rest) = (ms, rest)"
  using assms
proof (induction ms)
  case (Cons m ms)
  from Cons.prems have "sendable ser pfa m" by simp
  from rpcdec.drain_Some [OF decode_step_frame [OF this]] Cons show ?case
    by simp
qed (simp add: rpcdec.drain_None)

subsection \<open>Sending\<close>

lemma serializeToBuffer_ok:
  assumes inv: "buffer_inv b" and room: "has_room b (length (ser m) + 4)"
    and small: "length (ser m) + 8 < 2 ^ 31"
  obtains b' where "serializeToBuffer ser m b = Inr (int (length (ser m)), b')" and "buffer_inv b'"
    and "content b' = content b @ ser m" and "readerIndex b' = readerIndex b \<or> readerIndex b' = 8"
    and "length (storage b') \<le> length (storage b) + length (ser m) + 4"
proof -
  let ?N = "length (ser m)"
  have sz: "size_to_int32 ?N = int ?N" "int_to_size (int ?N + kChecksumLen) = ?N + 4"
    "int_to_size (int ?N) = ?N"
    using small by (simp_all add: size_simps kChecksumLen_def nat_add_distrib)
  from ensureWritableBytes_ok [OF inv room] obtain b1 where b1:
    "ensureWritableBytes (?N + 4) b = Inr b1" "buffer_inv b1" "content b1 = content b"
    "?N + 4 \<le> writableBytes b1" "readerIndex b1 = readerIndex b \<or> readerIndex b1 = 8"
    "length (storage b1) \<le> length (storage b) + (?N + 4)" .
  then have fit: "?N \<le> writableBytes b1" by simp
  from write_hasWritten_ok [OF b1(2) fit] obtain b2 b3 where "write_at_beginWrite (ser m) b1 = Inr b2"
    "hasWritten ?N b2 = Inr b3" "buffer_inv b3" "content b3 = content b1 @ ser m"
    "readerIndex b3 = readerIndex b1" "length (storage b3) = length (storage b1)" .
  with b1 sz show ?thesis
    by (intro that [of b3]) (simp_all add: serializeToBuffer_def Let_def)
qed

lemma fillEmptyBuffer_ok:
  assumes inv: "buffer_inv b" and empty: "content b = []" and front: "4 \<le> readerIndex b"
    and room: "has_room b (length (ser m) + 12)" and small: "length (ser m) + 8 < 2 ^ 31"
  obtains b' where "fillEmptyBuffer adler ser b m = Inr b'" and "buffer_inv b'"
    and "content b' = frame adler ser m"
proof -
  let ?N = "length (ser m)"
  have "has_room b (length rpc_tag)"
    using room by (simp add: has_room_def)
  from append_buf_ok [OF inv this] obtain b1 where b1: "append_buf rpc_tag b = Inr b1" "buffer_inv b1"
    "content b1 = content b @ rpc_tag" "readerIndex b1 = readerIndex b \<or> readerIndex b1 = 8"
    "length (storage b1) \<le> length (storage b) + length rpc_tag" .
  have "has_room b1 (?N + 4)"
    using room b1(5) by (simp add: has_room_def)
  from serializeToBuffer_ok [where ser = ser and m = m, OF b1(2) this small] obtain b2 where b2:
    "serializeToBuffer ser m b1 = Inr (int ?N, b2)" "buffer_inv b2" "content b2 = content b1 @ ser m"
    "readerIndex b2 = readerIndex b1 \<or> readerIndex b2 = 8"
    "length (storage b2) \<le> length (storage b1) + ?N + 4" .
  have c2: "content b2 = rpc_tag @ ser m" and r2: "readableBytes b2 = ?N + 4"
    using b1(3) b2(2,3) empty length_content [OF b2(2)] by simp_all
  let ?sum = "adler 1 (rpc_tag @ ser m)"
  have "checksum adler (drop (readerIndex b2) (storage b2)) (size_to_int32 (readableBytes b2)) = Inr ?sum"
    using content_region [OF b2(2), of 0 "?N + 4"] c2 r2 small
    by (simp add: checksum_def ptr_read_take size_simps nat_add_distrib)
  moreover have "has_room b2 (length (word_bytes (hostToNetwork32 ?sum)))"
    using room b1(5) b2(5) by (simp add: has_room_def)
  from append_buf_ok [OF b2(2) this] obtain b3 where b3: "appendInt32 ?sum b2 = Inr b3" "buffer_inv b3"
    "content b3 = content b2 @ be32 ?sum" "readerIndex b3 = readerIndex b2 \<or> readerIndex b3 = 8"
    by (auto simp: appendInt32_def be32_network)
  have r3: "readableBytes b3 = ?N + 8" and front3: "4 \<le> readerIndex b3"
    using length_content [OF b3(2)] b3 c2 b2(4) b1(4) front by auto
  let ?len = "word_bytes (hostToNetwork32 (of_int (int (?N + 8))))"
  have "length ?len \<le> readerIndex b3"
    using front3 by simp
  from prepend_ok [OF b3(2) this] obtain b4 where b4: "prepend ?len b3 = Inr b4" "buffer_inv b4"
    "content b4 = ?len @ content b3" .
  moreover have "readableBytes b = 0"
    using length_content [OF inv] empty by simp
  moreover have "szadd (szadd 4 (int_to_size (int ?N))) (int_to_size kChecksumLen) = ?N + 8"
    using small by (simp add: size_simps kChecksumLen_def)
  ultimately have "fillEmptyBuffer adler ser b m = Inr b4"
    using b1(1) b2(1) b3(1) r3 small by (simp add: fillEmptyBuffer_def Let_def size_simps)
  moreover have "content b4 = frame adler ser m"
    using b4(3) b3(3) c2 by (simp add: frame_def be32_network)
  ultimately show ?thesis
    using that b4(2) by blast
qed

lemma encode_message_ok:
  assumes "length (ser m) + 8 < 2 ^ 31"
  obtains b where "encode_message adler ser m = Inr b" and "buffer_inv b"
    and "content b = frame adler ser m"
proof -
  obtain b0 where b0: "mk_Buffer kInitialSize = Inr b0" "buffer_inv b0" "content b0 = []"
    "readerIndex b0 = 8" "length (storage b0) = 8 + kInitialSize"
    using mk_Buffer_ok [of kInitialSize] by (auto simp: kInitialSize_def max_size_def)
  then have "4 \<le> readerIndex b0" and "has_room b0 (length (ser m) + 12)"
    using assms by (simp_all add: has_room_def kInitialSize_def max_size_def)
  from fillEmptyBuffer_ok [where ser = ser and m = m, OF b0(2,3) this assms] obtain b where
    "fillEmptyBuffer adler ser b0 m = Inr b" "buffer_inv b" "content b = frame adler ser m" .
  with b0(1) show ?thesis
    by (intro that [of b]) (simp_all add: encode_message_def)
qed

text \<open>What one \<open>send\<close> puts on the stream.\<close>

definition wire_of ::
  "(32 word \<Rightarrow> byte list \<Rightarrow> 32 word) \<Rightarrow> ('m \<Rightarrow> byte list) \<Rightarrow> 'm \<Rightarrow> byte list \<Rightarrow> bool" where
  "wire_of adler ser m d \<longleftrightarrow> (\<exists>b. encode_message adler ser m = Inr b \<and> d = content b)"

lemma sendable_small: "sendable ser pfa m \<Longrightarrow> length (ser m) + 8 < 2 ^ 31"
  by (simp add: sendable_def kMaxMessageLen_def)

lemma wire_of_frame:
  assumes "sendable ser pfa m" and "wire_of adler ser m d"
  shows "d = frame adler ser m"
  using assms encode_message_ok [where ser = ser and m = m, OF sendable_small [OF assms(1)], of adler]
  by (metis Inr_inject wire_of_def)

lemma wires_frames:
  assumes "list_all2 (wire_of adler ser) ms ds" and "\<forall>m \<in> set ms. sendable ser pfa m"
  shows "concat ds = concat (map (frame adler ser) ms)"
  using assms by (induction rule: list_all2_induct) (auto dest: wire_of_frame)

lemma decode_step_Nil [simp]: "decode_step adler pfa [] = None"
  by (simp add: decode_step_def)

text \<open>A front that can never become a message again.\<close>

definition poisoned ::
  "(32 word \<Rightarrow> byte list \<Rightarrow> 32 word) \<Rightarrow> (byte list \<Rightarrow> 'm option) \<Rightarrow> byte list \<Rightarrow> bool" where
  "poisoned adler pfa bs \<longleftrightarrow>
     8 \<le> length bs \<and>
     (size_field bs < kMinMessageLen \<or> kMaxMessageLen < size_field bs \<or>
      4 + nat (size_field bs) \<le> length bs \<and>
      decode_body adler pfa (take (nat (size_field bs)) (drop 4 bs)) = None)"

lemma poisoned_append: "poisoned adler pfa bs \<Longrightarrow> poisoned adler pfa (bs @ ys)"
  by (auto simp: poisoned_def size_field_append)

lemma poisoned_drain:
  assumes "poisoned adler pfa bs" shows "drain (decode_step adler pfa) bs = ([], bs)"
proof -
  have "decode_step adler pfa bs = None"
    using assms by (auto simp: poisoned_def decode_step_def Let_def)
  then show ?thesis by (rule rpcdec.drain_None)
qed

text \<open>The message callback that records what it is given.\<close>

definition record_cb :: "'m \<Rightarrow> 'm list \<Rightarrow> 'm list res" where
  "record_cb m w = Inr (w @ [m])"

lemma adler32_ref_ok [simp]: "is_adler32 adler32_ref"
  by (simp add: is_adler32_def)

lemma foldR_record: "foldR record_cb ms w = Inr (w @ ms)"
  by (induction ms arbitrary: w) (simp_all add: record_cb_def)

section \<open>Properties\<close>

text \<open>
  C7: messages survive the network however it cuts the stream. When every message is one whose
  serialisation protobuf parses back and fits the 64 MB limit, and \<open>ds\<close> are the bytes \<open>send\<close>
  produced for them, then feeding the bytes to \<open>onMessage\<close> in arbitrary chunks hands the callback
  exactly these messages, once each and in order, and leaves the buffer empty.
\<close>

theorem stream_delivery:
  assumes "is_adler32 adler" and "\<forall>m \<in> set ms. sendable ser pfa m"
    and "list_all2 (wire_of adler ser) ms ds" and "concat chunks = concat ds"
    and "buffer_inv b" and "content b = []" and "has_room b (length (concat chunks))"
  shows "\<exists>b'. feed adler pfa record_cb chunks b [] = Inr (b', ms) \<and> buffer_inv b' \<and> content b' = []"
proof -
  have "drain (decode_step adler pfa) (content b @ concat chunks) = (ms, [])"
    using assms drain_frames [OF assms(2), of adler "[]"] wires_frames [OF assms(3,2)] by simp
  moreover have "drain (decode_step adler pfa) (content b) = ([], content b)"
    using assms(6) by (simp add: rpcdec.drain_None)
  ultimately show ?thesis
    using feed_drain [OF assms(1,5,7), of pfa record_cb "[]"] by (auto simp: foldR_record)
qed

theorem stream_delivery_witness:
  "\<exists>chunks b b'. length chunks = 2 \<and>
     feed adler32_ref (\<lambda>d. Some d) record_cb chunks b [] = Inr (b', [[1, 2], []])"
proof -
  let ?ser = "\<lambda>d. d" and ?pfa = "\<lambda>d. Some d" and ?ms = "[[1, 2], []] :: byte list list"
  have send: "\<forall>m \<in> set ?ms. sendable ?ser ?pfa m"
    by (simp add: sendable_def kMaxMessageLen_def)
  obtain b1 where b1: "encode_message adler32_ref ?ser [1, 2] = Inr b1"
    using encode_message_ok [where ser = ?ser and m = "[1, 2]" and adler = adler32_ref] by auto
  obtain b2 where b2: "encode_message adler32_ref ?ser [] = Inr b2"
    using encode_message_ok [where ser = ?ser and m = "[]" and adler = adler32_ref] by auto
  let ?ds = "[content b1, content b2]"
  let ?chunks = "[take 5 (concat ?ds), drop 5 (concat ?ds)]"
  have wires: "list_all2 (wire_of adler32_ref ?ser) ?ms ?ds"
    using b1 b2 by (simp add: wire_of_def)
  have chunks: "concat ?chunks = concat ?ds"
    using append_take_drop_id [of 5 "concat ?ds"] by (simp del: take_append drop_append)
  have "length (concat ?chunks) = 26"
    using wires_frames [OF wires send] by simp
  moreover obtain b where b: "buffer_inv b" "content b = []" "length (storage b) = 8 + 0"
    using mk_Buffer_ok [of 0] by (auto simp: max_size_def)
  ultimately have room: "has_room b (length (concat ?chunks))"
    by (simp only: has_room_def) (simp add: max_size_def)
  from stream_delivery [OF adler32_ref_ok send wires chunks b(1,2) room] show ?thesis
    by (intro exI [of _ ?chunks]) auto
qed

text \<open>
  C8: \<open>onMessage\<close> is an incremental decoder of arbitrary input. For any bytes whatever, cut into
  any chunks, and any callback, the run equals delivering the messages the reference decoder finds
  in the concatenated stream, in order, stopping only where the callback faults; what it leaves in
  the buffer is the undecoded rest.
\<close>

theorem segmentation_independence:
  assumes "is_adler32 adler" and "buffer_inv b" and "content b = []"
    and "has_room b (length (concat chunks))"
  shows "\<exists>b'. buffer_inv b' \<and>
    content b' = snd (drain (decode_step adler pfa) (concat chunks)) \<and>
    feed adler pfa cb chunks b w =
      bindR (foldR cb (fst (drain (decode_step adler pfa) (concat chunks))) w)
        (\<lambda>w'. Inr (b', w'))"
proof -
  have "drain (decode_step adler pfa) (content b) = ([], content b)"
    using assms(3) by (simp add: rpcdec.drain_None)
  from feed_drain [OF assms(1,2,4) this] assms(3) show ?thesis by simp
qed

theorem segmentation_independence_witness:
  "\<exists>b b'. buffer_inv b \<and>
     feed adler32_ref (\<lambda>_. None :: nat option) (\<lambda>_ w. Inl NullPointer) [[1, 2], [3]] b () = Inr (b', ()) \<and>
     content b' = [1, 2, 3]"
proof -
  obtain b where b: "buffer_inv b" "content b = []" "length (storage b) = 8 + 0"
    using mk_Buffer_ok [of 0] by (auto simp: max_size_def)
  then have room: "has_room b (length (concat [[1, 2], [3 :: byte]]))"
    by (simp add: has_room_def max_size_def)
  have "decode_step adler32_ref (\<lambda>_. None :: nat option) (concat [[1, 2], [3]]) = None"
    by (simp add: decode_step_def)
  from rpcdec.drain_None [OF this] b(1)
    segmentation_independence [OF adler32_ref_ok b(1,2) room, of "\<lambda>_. None :: nat option"
      "\<lambda>_ w. Inl NullPointer" "()"]
  show ?thesis
    by (auto simp del: feed.simps)
qed

text \<open>
  C14: the frame \<open>fillEmptyBuffer\<close> builds is the documented wire format: size \<open>N + 8\<close>, the tag
  \<open>RPC0\<close>, the payload and the Adler-32 of tag and payload, the integers in network byte order; no
  assertion fails and the cheap-prepend area always has room for the size.
\<close>

theorem encode_wire_format:
  assumes "length (ser m) + 8 < 2 ^ 31"
  shows "\<exists>b. encode_message adler ser m = Inr b \<and> buffer_inv b \<and>
    content b = be32 (of_nat (length (ser m) + 8)) @ rpc_tag @ ser m @ be32 (adler 1 (rpc_tag @ ser m))"
  using encode_message_ok [where ser = ser and m = m, OF assms, of adler] by (metis frame_def)

theorem encode_wire_format_witness:
  "\<exists>b. encode_message adler32_ref (\<lambda>_. [7]) () = Inr b \<and>
     take 9 (content b) = [0, 0, 0, 9, 82, 80, 67, 48, 7]"
  using encode_wire_format [where ser = "\<lambda>_. [7]" and m = "()" and adler = adler32_ref]
  by (auto simp: be32_bytes rpc_tag_def)

text \<open>
  C13: \<open>parse\<close> is memory safe although \<open>kMinMessageLen\<close> admits bodies shorter than tag and
  checksum. For every length the receive loop lets through it returns an error code or a message,
  never reads outside the body, and never hands protobuf a negative length: a body of four to
  seven bytes that starts with the tag cannot carry a matching Adler-32.
\<close>

theorem parse_safe:
  assumes "is_adler32 adler" and "kMinMessageLen \<le> len" and "nat len \<le> length p"
  shows "\<exists>e r. parse adler pfa p len = Inr (e, r) \<and> (e = kNoError \<longleftrightarrow> r \<noteq> None) \<and>
    (e = kNoError \<longrightarrow> 8 \<le> len)"
proof -
  have len: "4 \<le> len" using assms(2) by (simp add: kMinMessageLen_def)
  from parse_decode_body [OF assms(1) len assms(3), of pfa] obtain e where e: "e \<noteq> kNoError"
    "parse adler pfa p len = Inr (case decode_body adler pfa (take (nat len) p) of
       Some m \<Rightarrow> (kNoError, Some m) | None \<Rightarrow> (e, None))" by blast
  show ?thesis
  proof (cases "decode_body adler pfa (take (nat len) p)")
    case None
    with e show ?thesis by auto
  next
    case (Some m)
    then have "8 \<le> nat len"
      using assms(3) by (auto simp: decode_body_def Let_def split: if_splits)
    with Some e show ?thesis by auto
  qed
qed

theorem parse_safe_witness:
  "\<exists>e r. parse adler32_ref (\<lambda>_. Some ()) [82, 80, 67, 48, 0] 5 = Inr (e, r) \<and> e \<noteq> kNoError"
  using parse_safe [of adler32_ref 5 "[82, 80, 67, 48, 0]" "\<lambda>_. Some ()"]
  by (auto simp: kMinMessageLen_def)

text \<open>
  C15: a bad frame silences the connection for good. Once the front of the input is a complete
  frame that fails the length, checksum, tag or protobuf test, \<open>onMessage\<close> neither reports nor skips
  it: whatever arrives later, no callback runs and every byte stays in the buffer.
\<close>

theorem poisoned_stream_is_stuck:
  assumes "is_adler32 adler" and "buffer_inv b" and "poisoned adler pfa (content b)"
    and "has_room b (length (concat chunks))"
  shows "\<exists>b'. feed adler pfa cb chunks b w = Inr (b', w) \<and> content b' = content b @ concat chunks"
proof -
  from poisoned_drain [OF poisoned_append [OF assms(3)]]
  have "drain (decode_step adler pfa) (content b @ concat chunks) = ([], content b @ concat chunks)" .
  with feed_drain [OF assms(1,2,4) poisoned_drain [OF assms(3)], of cb w] show ?thesis
    by auto
qed

theorem poisoned_stream_is_stuck_witness:
  "\<exists>b b'. content b = [0, 0, 0, 0, 0, 0, 0, 0] \<and>
     feed adler32_ref (\<lambda>_. Some ()) (\<lambda>_ _. Inl NullPointer) [[1, 2, 3]] b () = Inr (b', ()) \<and>
     content b' = [0, 0, 0, 0, 0, 0, 0, 0, 1, 2, 3]"
proof -
  obtain b0 where b0: "buffer_inv b0" "content b0 = []" "length (storage b0) = 8 + 0"
    using mk_Buffer_ok [of 0] by (auto simp: max_size_def)
  have "has_room b0 (length [0, 0, 0, 0, 0, 0, 0, 0 :: byte] + 3)"
    using b0 by (simp add: has_room_def max_size_def)
  from bufq.put_ok [OF b0(1) this] obtain b where b: "buffer_inv b"
    "content b = [0, 0, 0, 0, 0, 0, 0, 0]" "has_room b 3"
    using b0(2) by auto
  have bad: "poisoned adler32_ref (\<lambda>_. Some ()) (content b)"
    by (simp add: poisoned_def b size_field_def bytes_word_def kMinMessageLen_def)
  have room: "has_room b (length (concat [[1, 2, 3 :: byte]]))"
    using b(3) by (simp add: has_room_def)
  from poisoned_stream_is_stuck [OF adler32_ref_ok b(1) bad room, of "\<lambda>_ _. Inl NullPointer" "()"]
  obtain b' where
    "feed adler32_ref (\<lambda>_. Some ()) (\<lambda>_ _. Inl NullPointer) [[1, 2, 3]] b () = Inr (b', ())"
    "content b' = content b @ concat [[1, 2, 3]]"
    by blast
  with b(2) show ?thesis
    by (intro exI [of _ b] exI [of _ b']) (simp del: feed.simps)
qed

end
