(* ===== verification/Reactor_State.thy ===== *)
theory Reactor_State
  imports Prelude
begin

text \<open>
  The state shared by the reactor classes \<open>Channel\<close>, \<open>Poller\<close> and \<open>EventLoop\<close>, and the operating
  system they talk to. Objects are addressed by pointers: channels live in a store, since they are
  created and deleted at run time and shared between the loop, its poller and their owner; event
  loops are stack objects that outlive everything else and are given by a total map. Closures that
  the sources build with \<open>std::bind\<close> are values of two datatypes, one for the callbacks set on a
  channel and one for the functors handed to a loop; the code they stand for is dispatched where the
  bound objects are modelled.

  The operating system is an argument: every system call asks it for a result, given the history of
  system calls so far, and is recorded in that history.
\<close>

type_synonym ptr = nat
type_synonym fd = int

section \<open>System calls\<close>

datatype epoll_op = EPOLL_CTL_ADD | EPOLL_CTL_MOD | EPOLL_CTL_DEL

datatype syscall =
    SysEpollCtl ptr epoll_op fd "32 word" ptr int \<comment> \<open>instance, operation, fd, events, data, result\<close>
  | SysEpollWait ptr int "int + (ptr \<times> 32 word) list"
  | SysRead fd nat "int + byte list"
  | SysReadv fd "nat list" "int + byte list"
  | SysWrite fd "byte list" int
  | SysShutdownWr fd
  | SysClose fd
  | SysGetSoError fd int
  | SysSocket fd
  | SysConnect fd int
  | SysAccept fd "int + fd"
  | SysListen fd
  | SysBind fd
  | SysOpenDevNull fd

text \<open>
  The kernel. \<open>os_write\<close> gives the result of \<open>write\<close> and, when it is negative, \<open>errno\<close>;
  \<open>os_read\<close> and \<open>os_readv\<close> give an \<open>errno\<close> or the bytes that were read.
\<close>

record os =
  os_epoll_ctl :: "syscall list \<Rightarrow> ptr \<Rightarrow> epoll_op \<Rightarrow> fd \<Rightarrow> 32 word \<Rightarrow> ptr \<Rightarrow> int"
  os_epoll_wait :: "syscall list \<Rightarrow> ptr \<Rightarrow> int \<Rightarrow> int + (ptr \<times> 32 word) list"
  os_read :: "syscall list \<Rightarrow> fd \<Rightarrow> nat \<Rightarrow> int + byte list"
  os_readv :: "syscall list \<Rightarrow> fd \<Rightarrow> nat list \<Rightarrow> int + byte list"
  os_write :: "syscall list \<Rightarrow> fd \<Rightarrow> byte list \<Rightarrow> int \<times> int"
  os_so_error :: "syscall list \<Rightarrow> fd \<Rightarrow> int"

section \<open>Closures\<close>

datatype callback =
    LoopHandleRead ptr
  | ConnHandleRead ptr
  | ConnHandleWrite ptr
  | ConnHandleClose ptr
  | ConnHandleError ptr
  | AcceptorHandleRead ptr
  | ConnectorHandleWrite ptr
  | ConnectorHandleError ptr

datatype Functor =
    F_sendInLoop ptr "byte list"
  | F_shutdownInLoop ptr
  | F_forceCloseInLoop ptr
  | F_startReadInLoop ptr
  | F_stopReadInLoop ptr
  | F_writeComplete nat ptr
  | F_connectEstablished ptr
  | F_connectDestroyed ptr
  | F_removeConnectionInLoop ptr ptr
  | F_listen ptr
  | F_startInLoop ptr
  | F_stopInLoop ptr
  | F_resetChannel ptr
  | F_setCloseCallback ptr

section \<open>Objects\<close>

record channel =
  ch_loop :: ptr
  ch_fd :: fd
  ch_events :: "32 word"
  ch_revents :: "32 word"
  ch_index :: int
  ch_handling :: bool
  ch_added :: bool
  ch_readCb :: "callback option"
  ch_writeCb :: "callback option"
  ch_closeCb :: "callback option"
  ch_errorCb :: "callback option"

text \<open>\<open>pl_eventsSize\<close> is \<open>events_.size()\<close>, a \<open>size_t\<close>.\<close>

record poller =
  pl_channels :: "fd \<rightharpoonup> ptr"
  pl_eventsSize :: nat

record eventloop =
  el_looping :: bool
  el_quit :: bool
  el_eventHandling :: bool
  el_calling :: bool
  el_iteration :: "64 word"
  el_threadId :: int
  el_poller :: poller
  el_wakeupFd :: fd
  el_active :: "ptr list"
  el_current :: "ptr option"
  el_pending :: "Functor list"

text \<open>\<open>w_tid\<close> is what \<open>getThreadId()\<close> returns in the thread that runs.\<close>

record world =
  w_tid :: int
  w_chans :: "ptr \<rightharpoonup> channel"
  w_loops :: "ptr \<Rightarrow> eventloop"
  w_trace :: "syscall list"

section \<open>Access\<close>

definition log_call :: "syscall \<Rightarrow> 'a world_scheme \<Rightarrow> 'a world_scheme" where
  "log_call c w = w\<lparr>w_trace := w_trace w @ [c]\<rparr>"

definition get_chan :: "ptr \<Rightarrow> 'a world_scheme \<Rightarrow> channel res" where
  "get_chan c w = derefR (w_chans w c)"

definition put_chan :: "ptr \<Rightarrow> channel \<Rightarrow> 'a world_scheme \<Rightarrow> 'a world_scheme" where
  "put_chan c ch w = w\<lparr>w_chans := (w_chans w)(c \<mapsto> ch)\<rparr>"

definition upd_chan :: "ptr \<Rightarrow> (channel \<Rightarrow> channel) \<Rightarrow> 'a world_scheme \<Rightarrow> 'a world_scheme res" where
  "upd_chan c f w = bindR (get_chan c w) (\<lambda>ch. Inr (put_chan c (f ch) w))"

definition upd_loop :: "ptr \<Rightarrow> (eventloop \<Rightarrow> eventloop) \<Rightarrow> 'a world_scheme \<Rightarrow> 'a world_scheme" where
  "upd_loop l f w = w\<lparr>w_loops := (w_loops w)(l := f (w_loops w l))\<rparr>"

definition upd_poller :: "ptr \<Rightarrow> (poller \<Rightarrow> poller) \<Rightarrow> 'a world_scheme \<Rightarrow> 'a world_scheme" where
  "upd_poller l f w = upd_loop l (\<lambda>lp. lp\<lparr>el_poller := f (el_poller lp)\<rparr>) w"

abbreviation chan_map :: "ptr \<Rightarrow> 'a world_scheme \<Rightarrow> (fd \<rightharpoonup> ptr)" where
  "chan_map l w \<equiv> pl_channels (el_poller (w_loops w l))"

named_theorems world_simps \<open>reading a world after an update\<close>

lemma log_call_simps [simp, world_simps]:
  "w_tid (log_call c w) = w_tid w" "w_chans (log_call c w) = w_chans w"
  "w_loops (log_call c w) = w_loops w" "w_trace (log_call c w) = w_trace w @ [c]"
  "world.more (log_call c w) = world.more w"
  by (simp_all add: log_call_def)

lemma put_chan_simps [simp, world_simps]:
  "w_tid (put_chan c ch w) = w_tid w" "w_chans (put_chan c ch w) = (w_chans w)(c \<mapsto> ch)"
  "w_loops (put_chan c ch w) = w_loops w" "w_trace (put_chan c ch w) = w_trace w"
  "world.more (put_chan c ch w) = world.more w"
  by (simp_all add: put_chan_def)

lemma upd_loop_simps [simp, world_simps]:
  "w_tid (upd_loop l f w) = w_tid w" "w_chans (upd_loop l f w) = w_chans w"
  "w_loops (upd_loop l f w) = (w_loops w)(l := f (w_loops w l))"
  "w_trace (upd_loop l f w) = w_trace w" "world.more (upd_loop l f w) = world.more w"
  by (simp_all add: upd_loop_def)

lemma upd_poller_simps [simp, world_simps]:
  "w_tid (upd_poller l f w) = w_tid w" "w_chans (upd_poller l f w) = w_chans w"
  "w_loops (upd_poller l f w) =
     (w_loops w)(l := (w_loops w l)\<lparr>el_poller := f (el_poller (w_loops w l))\<rparr>)"
  "w_trace (upd_poller l f w) = w_trace w" "world.more (upd_poller l f w) = world.more w"
  by (simp_all add: upd_poller_def)

lemma get_chan_Some [simp]: "w_chans w c = Some ch \<Longrightarrow> get_chan c w = Inr ch"
  by (simp add: get_chan_def)

lemma get_chan_None [simp]: "w_chans w c = None \<Longrightarrow> get_chan c w = Inl NullPointer"
  by (simp add: get_chan_def)

lemma upd_chan_Some [simp]: "w_chans w c = Some ch \<Longrightarrow> upd_chan c f w = Inr (put_chan c (f ch) w)"
  by (simp add: upd_chan_def)

section \<open>The thread check\<close>

text \<open>
  \<open>EventLoop::isInLoopThread\<close> and \<open>assertInLoopThread\<close> (\<open>EventLoop.h\<close>). The body of
  \<open>abortNotInLoopThread\<close> is commented out, so the check never stops the program.
\<close>

definition isInLoopThread :: "ptr \<Rightarrow> 'a world_scheme \<Rightarrow> bool" where
  "isInLoopThread l w \<longleftrightarrow> el_threadId (w_loops w l) = w_tid w"

definition abortNotInLoopThread :: "ptr \<Rightarrow> 'a world_scheme \<Rightarrow> 'a world_scheme res" where
  "abortNotInLoopThread l w = Inr w"

definition assertInLoopThread :: "ptr \<Rightarrow> 'a world_scheme \<Rightarrow> 'a world_scheme res" where
  "assertInLoopThread l w = (if isInLoopThread l w then Inr w else abortNotInLoopThread l w)"

lemma assertInLoopThread_void [simp]: "assertInLoopThread l w = Inr w"
  by (simp add: assertInLoopThread_def abortNotInLoopThread_def)

end
