(* ===== verification/Poller.thy ===== *)
theory Poller
  imports Reactor_State
begin

text \<open>
  \<open>network/Poller.h\<close> and \<open>network/src/Poller.cc\<close>: the epoll registry of one event loop. The loop's
  pointer identifies its epoll instance. \<open>interest\<close> replays the recorded \<open>epoll_ctl\<close> calls into the
  kernel's interest list, and \<open>registry_inv\<close> says that the map \<open>channels_\<close>, the indices kept in the
  channels and the kernel agree.
\<close>

unbundle bit_operations_syntax

section \<open>Event masks\<close>

text \<open>The constants of \<open>poll(2)\<close> on Linux, which the static assertions equate with those of \<open>epoll\<close>.\<close>

definition POLLIN :: "32 word" where "POLLIN = 1"
definition POLLPRI :: "32 word" where "POLLPRI = 2"
definition POLLOUT :: "32 word" where "POLLOUT = 4"
definition POLLERR :: "32 word" where "POLLERR = 8"
definition POLLHUP :: "32 word" where "POLLHUP = 16"
definition POLLNVAL :: "32 word" where "POLLNVAL = 32"
definition POLLRDHUP :: "32 word" where "POLLRDHUP = 8192"

lemmas poll_defs = POLLIN_def POLLPRI_def POLLOUT_def POLLERR_def POLLHUP_def POLLNVAL_def POLLRDHUP_def

section \<open>Poller.cc\<close>

definition kNew :: int where "kNew = - 1"
definition kAdded :: int where "kAdded = 1"
definition kDeleted :: int where "kDeleted = 2"

definition kInitEventListSize :: nat where "kInitEventListSize = 16"

definition mk_Poller :: poller where
  "mk_Poller = \<lparr>pl_channels = Map.empty, pl_eventsSize = kInitEventListSize\<rparr>"

definition isNoneEvent :: "channel \<Rightarrow> bool" where
  "isNoneEvent ch \<longleftrightarrow> ch_events ch = 0"

definition set_index :: "ptr \<Rightarrow> int \<Rightarrow> 'a world_scheme \<Rightarrow> 'a world_scheme res" where
  "set_index c idx w = upd_chan c (\<lambda>ch. ch\<lparr>ch_index := idx\<rparr>) w"

definition set_revents :: "ptr \<Rightarrow> 32 word \<Rightarrow> 'a world_scheme \<Rightarrow> 'a world_scheme res" where
  "set_revents c revt w = upd_chan c (\<lambda>ch. ch\<lparr>ch_revents := revt\<rparr>) w"

text \<open>\<open>Poller::update\<close>: a failing removal is logged, any other failure is fatal.\<close>

definition update_poller ::
  "'o os_scheme \<Rightarrow> ptr \<Rightarrow> epoll_op \<Rightarrow> ptr \<Rightarrow> 'a world_scheme \<Rightarrow> 'a world_scheme res" where
  "update_poller os l operation c w =
     bindR (get_chan c w) (\<lambda>ch.
       let r = os_epoll_ctl os (w_trace w) l operation (ch_fd ch) (ch_events ch) c;
           w' = log_call (SysEpollCtl l operation (ch_fd ch) (ch_events ch) c r) w in
       if r < 0 then (if operation = EPOLL_CTL_DEL then Inr w' else Inl FatalLog) else Inr w')"

definition updateChannel_poller ::
  "'o os_scheme \<Rightarrow> ptr \<Rightarrow> ptr \<Rightarrow> 'a world_scheme \<Rightarrow> 'a world_scheme res" where
  "updateChannel_poller os l c w =
     bindR (assertInLoopThread l w) (\<lambda>w. bindR (get_chan c w) (\<lambda>ch.
       let index = ch_index ch; fd = ch_fd ch in
       if index = kNew \<or> index = kDeleted then
         bindR (if index = kNew
                then assertR (chan_map l w fd = None)
                       (Inr (upd_poller l (\<lambda>p. p\<lparr>pl_channels := (pl_channels p)(fd \<mapsto> c)\<rparr>) w))
                else assertR (chan_map l w fd \<noteq> None) (assertR (chan_map l w fd = Some c) (Inr w)))
           (\<lambda>w1. bindR (set_index c kAdded w1) (\<lambda>w2. update_poller os l EPOLL_CTL_ADD c w2))
       else
         assertR (chan_map l w fd \<noteq> None)
           (assertR (chan_map l w fd = Some c)
              (assertR (index = kAdded)
                 (if isNoneEvent ch
                  then bindR (update_poller os l EPOLL_CTL_DEL c w) (\<lambda>w1. set_index c kDeleted w1)
                  else update_poller os l EPOLL_CTL_MOD c w)))))"

definition removeChannel_poller ::
  "'o os_scheme \<Rightarrow> ptr \<Rightarrow> ptr \<Rightarrow> 'a world_scheme \<Rightarrow> 'a world_scheme res" where
  "removeChannel_poller os l c w =
     bindR (assertInLoopThread l w) (\<lambda>w. bindR (get_chan c w) (\<lambda>ch.
       let fd = ch_fd ch; index = ch_index ch in
       assertR (chan_map l w fd \<noteq> None)
         (assertR (chan_map l w fd = Some c)
            (assertR (isNoneEvent ch)
               (assertR (index = kAdded \<or> index = kDeleted)
                  (let w1 = upd_poller l (\<lambda>p. p\<lparr>pl_channels := (pl_channels p)(fd := None)\<rparr>) w in
                   bindR (if index = kAdded then update_poller os l EPOLL_CTL_DEL c w1 else Inr w1)
                     (\<lambda>w2. set_index c kNew w2)))))))"

definition hasChannel_poller :: "ptr \<Rightarrow> ptr \<Rightarrow> 'a world_scheme \<Rightarrow> bool res" where
  "hasChannel_poller l c w =
     bindR (assertInLoopThread l w) (\<lambda>w.
       bindR (get_chan c w) (\<lambda>ch. Inr (chan_map l w (ch_fd ch) = Some c)))"

text \<open>The loop body of \<open>fillActiveChannels\<close>, over the events the kernel stored.\<close>

fun fillActiveChannels ::
  "ptr \<Rightarrow> (ptr \<times> 32 word) list \<Rightarrow> ptr list \<Rightarrow> 'a world_scheme \<Rightarrow> (ptr list \<times> 'a world_scheme) res" where
  "fillActiveChannels l [] activeChannels w = Inr (activeChannels, w)"
| "fillActiveChannels l ((c, revt) # evs) activeChannels w =
     bindR (get_chan c w) (\<lambda>ch.
       assertR (chan_map l w (ch_fd ch) \<noteq> None)
         (assertR (chan_map l w (ch_fd ch) = Some c)
            (bindR (set_revents c revt w) (\<lambda>w1.
               fillActiveChannels l evs (activeChannels @ [c]) w1))))"

text \<open>
  \<open>events_.resize\<close>: the new size is a \<open>size_t\<close> product, and a vector of \<open>struct epoll_event\<close> (12 bytes
  each, packed) has at most \<open>max_events\<close> elements.
\<close>

definition max_events :: nat where
  "max_events = max_size div 12"

definition resize_events :: "ptr \<Rightarrow> nat \<Rightarrow> 'a world_scheme \<Rightarrow> 'a world_scheme res" where
  "resize_events l n w =
     (if n > max_events then Inl LengthError else Inr (upd_poller l (\<lambda>p. p\<lparr>pl_eventsSize := n\<rparr>) w))"

text \<open>\<open>epoll_wait\<close> gets the size of the event array as an \<open>int\<close>.\<close>

definition poll ::
  "'o os_scheme \<Rightarrow> ptr \<Rightarrow> ptr list \<Rightarrow> 'a world_scheme \<Rightarrow> (ptr list \<times> 'a world_scheme) res" where
  "poll os l activeChannels w =
     (let size = pl_eventsSize (el_poller (w_loops w l)); maxevents = size_to_int32 size;
          r = os_epoll_wait os (w_trace w) l maxevents;
          w1 = log_call (SysEpollWait l maxevents r) w in
      case r of
        Inl err \<Rightarrow> Inr (activeChannels, w1)
      | Inr evs \<Rightarrow>
          if evs \<noteq> [] then
            assertR (length evs \<le> size)
              (bindR (fillActiveChannels l evs activeChannels w1) (\<lambda>(acs, w2).
                 bindR (if length evs = size then resize_events l (size * 2 mod 2 ^ 64) w2 else Inr w2)
                   (\<lambda>w3. Inr (acs, w3))))
          else Inr (activeChannels, w1))"

section \<open>The kernel's interest list and the registry invariant\<close>

fun ctl_effect ::
  "ptr \<Rightarrow> syscall \<Rightarrow> (fd \<rightharpoonup> 32 word \<times> ptr) \<Rightarrow> (fd \<rightharpoonup> 32 word \<times> ptr)" where
  "ctl_effect l (SysEpollCtl l' operation fd ev c r) m =
     (if l' = l \<and> 0 \<le> r
      then (if operation = EPOLL_CTL_DEL then m(fd := None) else m(fd \<mapsto> (ev, c))) else m)"
| "ctl_effect l _ m = m"

definition interest :: "ptr \<Rightarrow> syscall list \<Rightarrow> (fd \<rightharpoonup> 32 word \<times> ptr)" where
  "interest l tr = foldl (\<lambda>m c. ctl_effect l c m) Map.empty tr"

text \<open>
  The documented contract of \<open>epoll_ctl\<close>: adding a descriptor that is not in the interest list
  succeeds, and so does modifying or removing one that is.
\<close>

definition epoll_ctl_contract :: "'o os_scheme \<Rightarrow> bool" where
  "epoll_ctl_contract os \<longleftrightarrow>
     (\<forall>tr l operation fd ev c.
        (operation = EPOLL_CTL_ADD \<longleftrightarrow> interest l tr fd = None) \<longrightarrow>
        os_epoll_ctl os tr l operation fd ev c = 0)"

text \<open>
  The registry of loop \<open>l\<close>: a channel of the loop is new and unknown to the poller, or in its map
  under its own descriptor and then either in the kernel's list with exactly the events it asks for
  (added) or not in it and without events (deleted); the kernel watches nothing else.
\<close>

definition registry_inv :: "ptr \<Rightarrow> 'a world_scheme \<Rightarrow> bool" where
  "registry_inv l w \<longleftrightarrow>
     (\<forall>fd c. chan_map l w fd = Some c \<longrightarrow>
        (\<exists>ch. w_chans w c = Some ch \<and> ch_loop ch = l \<and> ch_fd ch = fd \<and>
              (ch_index ch = kAdded \<and> interest l (w_trace w) fd = Some (ch_events ch, c) \<or>
               ch_index ch = kDeleted \<and> isNoneEvent ch \<and> interest l (w_trace w) fd = None))) \<and>
     (\<forall>fd. chan_map l w fd = None \<longrightarrow> interest l (w_trace w) fd = None) \<and>
     (\<forall>c ch. w_chans w c = Some ch \<longrightarrow> ch_loop ch = l \<longrightarrow>
        ch_index ch = kNew \<or> chan_map l w (ch_fd ch) = Some c)"

section \<open>Lemmas\<close>

lemmas index_defs = kNew_def kAdded_def kDeleted_def

lemma interest_append [simp]: "interest l (tr @ [c]) = ctl_effect l c (interest l tr)"
  by (simp add: interest_def)

lemma interest_append2 [simp]:
  "interest l (tr @ [c, d]) = ctl_effect l d (ctl_effect l c (interest l tr))"
  by (simp add: interest_def)

lemma interest_Nil [simp]: "interest l [] = Map.empty"
  by (simp add: interest_def)

lemma interest_log_call [simp]:
  "interest l (w_trace (log_call c w)) = ctl_effect l c (interest l (w_trace w))"
  by simp

lemma epoll_ctl_ok:
  assumes "epoll_ctl_contract os" and "operation = EPOLL_CTL_ADD \<longleftrightarrow> interest l tr fd = None"
  shows "os_epoll_ctl os tr l operation fd ev c = 0"
  using assms by (simp add: epoll_ctl_contract_def)

lemma update_poller_ok:
  assumes "epoll_ctl_contract os" and "w_chans w c = Some ch"
    and "operation = EPOLL_CTL_ADD \<longleftrightarrow> interest l (w_trace w) (ch_fd ch) = None"
  shows "update_poller os l operation c w =
    Inr (log_call (SysEpollCtl l operation (ch_fd ch) (ch_events ch) c 0) w)"
  using assms by (simp add: update_poller_def epoll_ctl_ok Let_def)

lemma registry_inv_mapped:
  assumes "registry_inv l w" and "chan_map l w fd = Some c" and "w_chans w c = Some ch"
  shows "ch_loop ch = l" and "ch_fd ch = fd"
    and "ch_index ch = kAdded \<and> interest l (w_trace w) fd = Some (ch_events ch, c) \<or>
         ch_index ch = kDeleted \<and> isNoneEvent ch \<and> interest l (w_trace w) fd = None"
proof -
  have "\<exists>ch. w_chans w c = Some ch \<and> ch_loop ch = l \<and> ch_fd ch = fd \<and>
      (ch_index ch = kAdded \<and> interest l (w_trace w) fd = Some (ch_events ch, c) \<or>
       ch_index ch = kDeleted \<and> isNoneEvent ch \<and> interest l (w_trace w) fd = None)"
    using assms(1,2) unfolding registry_inv_def by simp
  then show "ch_loop ch = l" and "ch_fd ch = fd"
    and "ch_index ch = kAdded \<and> interest l (w_trace w) fd = Some (ch_events ch, c) \<or>
         ch_index ch = kDeleted \<and> isNoneEvent ch \<and> interest l (w_trace w) fd = None"
    using assms(3) by auto
qed

text \<open>
  A channel the poller accepts: it belongs to the loop, and if it is new then no other channel is
  registered under its descriptor.
\<close>

definition registrable :: "ptr \<Rightarrow> ptr \<Rightarrow> channel \<Rightarrow> 'a world_scheme \<Rightarrow> bool" where
  "registrable l c ch w \<longleftrightarrow>
     w_chans w c = Some ch \<and> ch_loop ch = l \<and> (ch_index ch = kNew \<longrightarrow> chan_map l w (ch_fd ch) = None)"

text \<open>The index after \<open>updateChannel\<close>, and the world it leaves.\<close>

definition next_index :: "channel \<Rightarrow> int" where
  "next_index ch = (if ch_index ch = kAdded \<and> isNoneEvent ch then kDeleted else kAdded)"

definition update_op :: "channel \<Rightarrow> epoll_op" where
  "update_op ch =
     (if ch_index ch = kAdded then (if isNoneEvent ch then EPOLL_CTL_DEL else EPOLL_CTL_MOD)
      else EPOLL_CTL_ADD)"

definition updated_world :: "ptr \<Rightarrow> ptr \<Rightarrow> channel \<Rightarrow> 'a world_scheme \<Rightarrow> 'a world_scheme" where
  "updated_world l c ch w =
     w\<lparr>w_chans := (w_chans w)(c \<mapsto> ch\<lparr>ch_index := next_index ch\<rparr>),
       w_loops := (w_loops w)(l := (w_loops w l)\<lparr>el_poller :=
          (el_poller (w_loops w l))\<lparr>pl_channels := (chan_map l w)(ch_fd ch \<mapsto> c)\<rparr>\<rparr>),
       w_trace := w_trace w @ [SysEpollCtl l (update_op ch) (ch_fd ch) (ch_events ch) c 0]\<rparr>"

lemma registry_inv_index:
  assumes inv: "registry_inv l w" and reg: "registrable l c ch w"
  obtains (new) "ch_index ch = kNew" "chan_map l w (ch_fd ch) = None"
      "interest l (w_trace w) (ch_fd ch) = None"
    | (added) "ch_index ch = kAdded" "chan_map l w (ch_fd ch) = Some c"
      "interest l (w_trace w) (ch_fd ch) = Some (ch_events ch, c)"
    | (deleted) "ch_index ch = kDeleted" "chan_map l w (ch_fd ch) = Some c"
      "interest l (w_trace w) (ch_fd ch) = None" "isNoneEvent ch"
proof (cases "ch_index ch = kNew")
  case True
  then have "chan_map l w (ch_fd ch) = None"
    using reg by (simp add: registrable_def)
  moreover from this have "interest l (w_trace w) (ch_fd ch) = None"
    using inv by (simp add: registry_inv_def)
  ultimately show thesis using True by (intro new)
next
  case False
  have c: "w_chans w c = Some ch" "ch_loop ch = l"
    using reg by (simp_all add: registrable_def)
  have m: "chan_map l w (ch_fd ch) = Some c"
    using inv c False unfolding registry_inv_def by metis
  show thesis
    using registry_inv_mapped(3) [OF inv m c(1)] m
    by (elim disjE conjE) (rule added deleted; assumption)+
qed

lemma index_same: "ch_index ch = i \<Longrightarrow> ch\<lparr>ch_index := i\<rparr> = ch"
  by auto

lemma chan_map_same: "chan_map l w fd = Some c \<Longrightarrow> (chan_map l w)(fd \<mapsto> c) = chan_map l w"
  by (rule map_upd_triv)

lemma update_raw:
  assumes os: "epoll_ctl_contract os" and ch: "w_chans w c = Some ch"
    and st: "ch_index ch = kNew \<and> chan_map l w (ch_fd ch) = None \<and> interest l (w_trace w) (ch_fd ch) = None \<or>
      ch_index ch = kAdded \<and> chan_map l w (ch_fd ch) = Some c \<and> interest l (w_trace w) (ch_fd ch) \<noteq> None \<or>
      ch_index ch = kDeleted \<and> chan_map l w (ch_fd ch) = Some c \<and> interest l (w_trace w) (ch_fd ch) = None"
  shows "updateChannel_poller os l c w = Inr (updated_world l c ch w)"
  using st ch
  by (elim disjE conjE)
    (auto simp: updateChannel_poller_def Let_def set_index_def update_poller_ok [OF os]
      updated_world_def next_index_def update_op_def index_defs chan_map_same index_same
      put_chan_def upd_poller_def upd_loop_def log_call_def fun_upd_idem map_upd_triv)

text \<open>
  \<open>updateChannel\<close> succeeds on a channel the poller accepts whose event mask has just been set, and
  issues the one \<open>epoll_ctl\<close> call that brings the kernel up to date.
\<close>

lemma updateChannel_poller_ok:
  assumes os: "epoll_ctl_contract os" and inv: "registry_inv l w" and reg: "registrable l c ch w"
  shows "updateChannel_poller os l c (put_chan c (ch\<lparr>ch_events := e, ch_added := True\<rparr>) w) =
    Inr (updated_world l c (ch\<lparr>ch_events := e, ch_added := True\<rparr>) w)"
proof -
  let ?ch = "ch\<lparr>ch_events := e, ch_added := True\<rparr>"
  have "updateChannel_poller os l c (put_chan c ?ch w) = Inr (updated_world l c ?ch (put_chan c ?ch w))"
    using inv reg by (cases rule: registry_inv_index) (auto intro!: update_raw [OF os])
  also have "updated_world l c ?ch (put_chan c ?ch w) = updated_world l c ?ch w"
    by (simp add: updated_world_def put_chan_def)
  finally show ?thesis .
qed

lemma registry_inv_intro:
  assumes "\<And>fd c. chan_map l w fd = Some c \<Longrightarrow>
      \<exists>ch. w_chans w c = Some ch \<and> ch_loop ch = l \<and> ch_fd ch = fd \<and>
        (ch_index ch = kAdded \<and> interest l (w_trace w) fd = Some (ch_events ch, c) \<or>
         ch_index ch = kDeleted \<and> isNoneEvent ch \<and> interest l (w_trace w) fd = None)"
    and "\<And>fd. chan_map l w fd = None \<Longrightarrow> interest l (w_trace w) fd = None"
    and "\<And>c ch. w_chans w c = Some ch \<Longrightarrow> ch_loop ch = l \<Longrightarrow>
      ch_index ch = kNew \<or> chan_map l w (ch_fd ch) = Some c"
  shows "registry_inv l w"
  unfolding registry_inv_def using assms by blast

lemma registry_inv_lookup:
  assumes "registry_inv l w" and "chan_map l w fd = Some c"
  obtains ch where "w_chans w c = Some ch" "ch_loop ch = l" "ch_fd ch = fd"
    "ch_index ch = kAdded \<and> interest l (w_trace w) fd = Some (ch_events ch, c) \<or>
     ch_index ch = kDeleted \<and> isNoneEvent ch \<and> interest l (w_trace w) fd = None"
proof -
  have "\<exists>ch. w_chans w c = Some ch"
    using assms unfolding registry_inv_def by metis
  then obtain ch where "w_chans w c = Some ch" ..
  with registry_inv_mapped [OF assms this] that show thesis by blast
qed

lemma registry_inv_unmapped: "registry_inv l w \<Longrightarrow> chan_map l w fd = None \<Longrightarrow> interest l (w_trace w) fd = None"
  by (simp add: registry_inv_def)

lemma registry_inv_known:
  assumes "registry_inv l w" "w_chans w c = Some ch" "ch_loop ch = l" "ch_index ch \<noteq> kNew"
  shows "chan_map l w (ch_fd ch) = Some c"
  using assms unfolding registry_inv_def by metis

lemma registry_inv_new:
  assumes "registry_inv l w" "w_chans w c = Some ch" "ch_index ch = kNew"
  shows "chan_map l w fd \<noteq> Some c"
proof
  assume "chan_map l w fd = Some c"
  from registry_inv_mapped(3) [OF assms(1) this assms(2)] assms(3) show False
    by (auto simp: index_defs)
qed

lemma updated_world_simps [simp]:
  "w_tid (updated_world l c ch w) = w_tid w"
  "w_chans (updated_world l c ch w) = (w_chans w)(c \<mapsto> ch\<lparr>ch_index := next_index ch\<rparr>)"
  "chan_map l (updated_world l c ch w) = (chan_map l w)(ch_fd ch \<mapsto> c)"
  "l' \<noteq> l \<Longrightarrow> w_loops (updated_world l c ch w) l' = w_loops w l'"
  "w_trace (updated_world l c ch w) =
     w_trace w @ [SysEpollCtl l (update_op ch) (ch_fd ch) (ch_events ch) c 0]"
  "world.more (updated_world l c ch w) = world.more w"
  by (simp_all add: updated_world_def)

lemma registry_inv_updated:
  assumes inv: "registry_inv l w" and reg: "registrable l c ch w"
  shows "registry_inv l (updated_world l c (ch\<lparr>ch_events := e, ch_added := True\<rparr>) w)"
    (is "registry_inv l ?w'")
proof (rule registry_inv_intro)
  let ?ch = "ch\<lparr>ch_events := e, ch_added := True\<rparr>"
  have c: "w_chans w c = Some ch" "ch_loop ch = l"
    using reg by (simp_all add: registrable_def)
  have own: "interest l (w_trace ?w') (ch_fd ch) =
      (if next_index ?ch = kAdded then Some (e, c) else None)"
    by (simp add: update_op_def next_index_def index_defs)
  have other: "interest l (w_trace ?w') fd = interest l (w_trace w) fd" if "fd \<noteq> ch_fd ch" for fd
    using that by simp
  show "\<exists>ch'. w_chans ?w' c' = Some ch' \<and> ch_loop ch' = l \<and> ch_fd ch' = fd \<and>
      (ch_index ch' = kAdded \<and> interest l (w_trace ?w') fd = Some (ch_events ch', c') \<or>
       ch_index ch' = kDeleted \<and> isNoneEvent ch' \<and> interest l (w_trace ?w') fd = None)"
    if m: "chan_map l ?w' fd = Some c'" for fd c'
  proof (cases "fd = ch_fd ch")
    case True
    with m have "c' = c" by simp
    moreover have "next_index ?ch = kAdded \<or> next_index ?ch = kDeleted \<and> e = 0 \<and> next_index ?ch \<noteq> kAdded"
      by (simp add: next_index_def isNoneEvent_def index_defs)
    ultimately show ?thesis
      using True own c by (auto simp: isNoneEvent_def simp del: interest_append updated_world_simps(5))
  next
    case False
    with m have m': "chan_map l w fd = Some c'" by simp
    from inv m' obtain ch' where ch': "w_chans w c' = Some ch'" "ch_loop ch' = l" "ch_fd ch' = fd"
      "ch_index ch' = kAdded \<and> interest l (w_trace w) fd = Some (ch_events ch', c') \<or>
       ch_index ch' = kDeleted \<and> isNoneEvent ch' \<and> interest l (w_trace w) fd = None"
      by (rule registry_inv_lookup)
    have "c' \<noteq> c" using ch' False c by auto
    with ch' other [OF False] show ?thesis by auto
  qed
  show "interest l (w_trace ?w') fd = None" if "chan_map l ?w' fd = None" for fd
  proof -
    have "fd \<noteq> ch_fd ch" "chan_map l w fd = None"
      using that by (auto split: if_splits)
    with registry_inv_unmapped [OF inv] other show ?thesis by simp
  qed
  show "ch_index ch' = kNew \<or> chan_map l ?w' (ch_fd ch') = Some c'"
    if c': "w_chans ?w' c' = Some ch'" "ch_loop ch' = l" for c' ch'
  proof (cases "c' = c")
    case False
    with c' have w: "w_chans w c' = Some ch'" by simp
    show ?thesis
    proof (cases "ch_index ch' = kNew")
      case old: False
      from registry_inv_known [OF inv w c'(2) old] have m: "chan_map l w (ch_fd ch') = Some c'" .
      have "ch_fd ch' \<noteq> ch_fd ch"
        using inv reg by (cases rule: registry_inv_index) (use m False in auto)
      with m show ?thesis by simp
    qed simp
  qed (use c' in auto)
qed

text \<open>\<open>removeChannel\<close> on a registered channel without events, and the world it leaves.\<close>

definition removed_world :: "ptr \<Rightarrow> ptr \<Rightarrow> channel \<Rightarrow> 'a world_scheme \<Rightarrow> 'a world_scheme" where
  "removed_world l c ch w =
     w\<lparr>w_chans := (w_chans w)(c \<mapsto> ch\<lparr>ch_index := kNew\<rparr>),
       w_loops := (w_loops w)(l := (w_loops w l)\<lparr>el_poller :=
          (el_poller (w_loops w l))\<lparr>pl_channels := (chan_map l w)(ch_fd ch := None)\<rparr>\<rparr>),
       w_trace := w_trace w @
         (if ch_index ch = kAdded then [SysEpollCtl l EPOLL_CTL_DEL (ch_fd ch) (ch_events ch) c 0]
          else [])\<rparr>"

lemma removeChannel_poller_ok:
  assumes os: "epoll_ctl_contract os" and inv: "registry_inv l w" and reg: "registrable l c ch w"
    and known: "ch_index ch \<noteq> kNew" and none: "isNoneEvent ch"
  shows "removeChannel_poller os l c (put_chan c (ch\<lparr>ch_added := False\<rparr>) w) =
    Inr (removed_world l c (ch\<lparr>ch_added := False\<rparr>) w)"
proof -
  note defs = removeChannel_poller_def Let_def set_index_def update_poller_ok [OF os]
    removed_world_def index_defs
  note world_defs = put_chan_def upd_poller_def upd_loop_def log_call_def
  from inv reg show ?thesis
  proof (cases rule: registry_inv_index)
    case new
    with known show ?thesis by simp
  next
    case deleted
    with none show ?thesis by (simp add: defs isNoneEvent_def world_defs)
  next
    case added
    with none show ?thesis by (simp add: defs isNoneEvent_def world_defs)
  qed
qed

lemma removed_world_simps [simp]:
  "w_tid (removed_world l c ch w) = w_tid w"
  "w_chans (removed_world l c ch w) = (w_chans w)(c \<mapsto> ch\<lparr>ch_index := kNew\<rparr>)"
  "chan_map l (removed_world l c ch w) = (chan_map l w)(ch_fd ch := None)"
  "l' \<noteq> l \<Longrightarrow> w_loops (removed_world l c ch w) l' = w_loops w l'"
  "world.more (removed_world l c ch w) = world.more w"
  by (simp_all add: removed_world_def)

lemma registry_inv_removed:
  assumes inv: "registry_inv l w" and reg: "registrable l c ch w" and known: "ch_index ch \<noteq> kNew"
  shows "registry_inv l (removed_world l c (ch\<lparr>ch_added := False\<rparr>) w)"
    (is "registry_inv l ?w'")
proof (rule registry_inv_intro)
  let ?fd = "ch_fd ch"
  have c: "w_chans w c = Some ch" "ch_loop ch = l"
    using reg by (simp_all add: registrable_def)
  have own: "interest l (w_trace ?w') ?fd = None"
    using inv reg by (cases rule: registry_inv_index) (use known in \<open>auto simp: removed_world_def index_defs\<close>)
  have other: "interest l (w_trace ?w') fd = interest l (w_trace w) fd" if "fd \<noteq> ?fd" for fd
    using that by (simp add: removed_world_def)
  show "\<exists>ch'. w_chans ?w' c' = Some ch' \<and> ch_loop ch' = l \<and> ch_fd ch' = fd \<and>
      (ch_index ch' = kAdded \<and> interest l (w_trace ?w') fd = Some (ch_events ch', c') \<or>
       ch_index ch' = kDeleted \<and> isNoneEvent ch' \<and> interest l (w_trace ?w') fd = None)"
    if m: "chan_map l ?w' fd = Some c'" for fd c'
  proof -
    have m': "chan_map l w fd = Some c'" and ne: "fd \<noteq> ?fd"
      using m by (auto split: if_splits)
    from inv m' obtain ch' where ch': "w_chans w c' = Some ch'" "ch_loop ch' = l" "ch_fd ch' = fd"
      "ch_index ch' = kAdded \<and> interest l (w_trace w) fd = Some (ch_events ch', c') \<or>
       ch_index ch' = kDeleted \<and> isNoneEvent ch' \<and> interest l (w_trace w) fd = None"
      by (rule registry_inv_lookup)
    have "c' \<noteq> c" using ch' ne c by auto
    with ch' other [OF ne] show ?thesis by auto
  qed
  show "interest l (w_trace ?w') fd = None" if "chan_map l ?w' fd = None" for fd
    using that own other [of fd] registry_inv_unmapped [OF inv, of fd] by (cases "fd = ?fd") auto
  show "ch_index ch' = kNew \<or> chan_map l ?w' (ch_fd ch') = Some c'"
    if c': "w_chans ?w' c' = Some ch'" "ch_loop ch' = l" for c' ch'
  proof (cases "c' = c \<or> ch_index ch' = kNew")
    case False
    with c' have w: "w_chans w c' = Some ch'" by simp
    from registry_inv_known [OF inv w c'(2)] False have m: "chan_map l w (ch_fd ch') = Some c'"
      by simp
    have "ch_fd ch' \<noteq> ?fd"
      using inv reg by (cases rule: registry_inv_index) (use m False known in auto)
    with m show ?thesis by simp
  qed (use c' in auto)
qed

section \<open>Waiting for events\<close>

text \<open>
  The documented contract of \<open>epoll_wait\<close>: an error (\<open>EINVAL\<close>) unless a positive number of events is
  asked for; otherwise at most that number of events, each with the data registered for a descriptor
  of the interest list, at most once per descriptor, and no event that was not asked for other than
  an error or a hang-up.
\<close>

definition epoll_wait_contract :: "'o os_scheme \<Rightarrow> bool" where
  "epoll_wait_contract os \<longleftrightarrow>
     (\<forall>tr l n evs. os_epoll_wait os tr l n = Inr evs \<longrightarrow>
        0 < n \<and> int (length evs) \<le> n \<and> distinct (map fst evs) \<and>
        (\<forall>c revt. (c, revt) \<in> set evs \<longrightarrow>
           (\<exists>fd ev. interest l tr fd = Some (ev, c) \<and> revt AND NOT (ev OR POLLERR OR POLLHUP) = 0)))"

text \<open>The events stored in the channels, and the channels an active list may hold.\<close>

definition store_revents :: "(ptr \<times> 32 word) list \<Rightarrow> (ptr \<rightharpoonup> channel) \<Rightarrow> (ptr \<rightharpoonup> channel)" where
  "store_revents evs m =
     (\<lambda>c. case map_of (rev evs) c of
        None \<Rightarrow> m c | Some revt \<Rightarrow> map_option (\<lambda>ch. ch\<lparr>ch_revents := revt\<rparr>) (m c))"

definition active_ok :: "ptr \<Rightarrow> 'a world_scheme \<Rightarrow> ptr \<Rightarrow> bool" where
  "active_ok l w c \<longleftrightarrow>
     (\<exists>ch. w_chans w c = Some ch \<and> ch_loop ch = l \<and> chan_map l w (ch_fd ch) = Some c \<and>
           ch_index ch = kAdded \<and> ch_revents ch AND NOT (ch_events ch OR POLLERR OR POLLHUP) = 0)"

lemma store_revents_Nil [simp]: "store_revents [] m = m"
  by (simp add: store_revents_def)

lemma store_revents_Cons:
  assumes "m c = Some ch"
  shows "store_revents ((c, revt) # evs) m = store_revents evs (m(c \<mapsto> ch\<lparr>ch_revents := revt\<rparr>))"
  using assms by (auto simp: store_revents_def map_add_def split: option.split)

lemma fillActiveChannels_ok:
  assumes "\<forall>c \<in> fst ` set evs. \<exists>ch. w_chans w c = Some ch \<and> chan_map l w (ch_fd ch) = Some c"
  shows "fillActiveChannels l evs acs w =
    Inr (acs @ map fst evs, w\<lparr>w_chans := store_revents evs (w_chans w)\<rparr>)"
  using assms
proof (induction evs arbitrary: acs w)
  case (Cons e evs)
  obtain c revt where e: "e = (c, revt)" by force
  with Cons.prems obtain ch where ch: "w_chans w c = Some ch" "chan_map l w (ch_fd ch) = Some c"
    by auto
  let ?w = "put_chan c (ch\<lparr>ch_revents := revt\<rparr>) w"
  have "\<forall>d \<in> fst ` set evs. \<exists>ch. w_chans ?w d = Some ch \<and> chan_map l ?w (ch_fd ch) = Some d"
    using Cons.prems ch by auto
  from Cons.IH [OF this, of "acs @ [c]"] show ?case
    using ch by (simp add: e set_revents_def store_revents_Cons put_chan_def fun_upd_def)
qed simp

lemma registry_inv_cong:
  assumes "registry_inv l w" and "chan_map l w' = chan_map l w"
    and "interest l (w_trace w') = interest l (w_trace w)"
    and same: "\<And>c. map_option (\<lambda>ch. (ch_loop ch, ch_fd ch, ch_index ch, ch_events ch)) (w_chans w' c) =
      map_option (\<lambda>ch. (ch_loop ch, ch_fd ch, ch_index ch, ch_events ch)) (w_chans w c)"
  shows "registry_inv l w'"
proof (rule registry_inv_intro)
  fix fd c assume "chan_map l w' fd = Some c"
  then have "chan_map l w fd = Some c" using assms(2) by simp
  with assms(1) obtain ch where "w_chans w c = Some ch" "ch_loop ch = l" "ch_fd ch = fd"
    "ch_index ch = kAdded \<and> interest l (w_trace w) fd = Some (ch_events ch, c) \<or>
     ch_index ch = kDeleted \<and> isNoneEvent ch \<and> interest l (w_trace w) fd = None"
    by (rule registry_inv_lookup)
  with same [of c] show "\<exists>ch. w_chans w' c = Some ch \<and> ch_loop ch = l \<and> ch_fd ch = fd \<and>
      (ch_index ch = kAdded \<and> interest l (w_trace w') fd = Some (ch_events ch, c) \<or>
       ch_index ch = kDeleted \<and> isNoneEvent ch \<and> interest l (w_trace w') fd = None)"
    by (auto simp: assms(3) isNoneEvent_def)
next
  fix fd assume "chan_map l w' fd = None"
  then show "interest l (w_trace w') fd = None"
    using assms(2,3) registry_inv_unmapped [OF assms(1)] by simp
next
  fix c ch assume ch: "w_chans w' c = Some ch" "ch_loop ch = l"
  then obtain ch0 where "w_chans w c = Some ch0" "ch_loop ch0 = l" "ch_fd ch0 = ch_fd ch" "ch_index ch0 = ch_index ch"
    using same [of c] by (cases "w_chans w c") auto
  with registry_inv_known [OF assms(1)] assms(2) show "ch_index ch = kNew \<or> chan_map l w' (ch_fd ch) = Some c"
    by metis
qed

lemma interest_wait [simp]: "interest l (tr @ [SysEpollWait l' n r]) = interest l tr"
  by simp

text \<open>A number of events an \<open>int\<close> holds leaves the size of the array far from any limit.\<close>

lemma size_to_int32_bounds:
  assumes "int k \<le> size_to_int32 n"
  shows "k \<le> n" "k < 2 ^ 31"
proof -
  have "signed_take_bit 31 (int n) \<le> int n" by (simp add: signed_take_bit_int_less_eq_self_iff)
  then have "sint (of_nat n :: 32 word) \<le> int n" by (simp add: signed_of_nat)
  with assms show "k \<le> n" by (simp add: size_to_int32_def)
  have "sint (of_nat n :: 32 word) < 2 ^ 31" using sint_lt [of "of_nat n :: 32 word"] by simp
  with assms show "k < 2 ^ 31" by (simp add: size_to_int32_def)
qed

text \<open>The world \<open>poll\<close> leaves when the kernel reported \<open>evs\<close>.\<close>

definition polled_world :: "ptr \<Rightarrow> (ptr \<times> 32 word) list \<Rightarrow> 'a world_scheme \<Rightarrow> 'a world_scheme" where
  "polled_world l evs w =
     (let n = pl_eventsSize (el_poller (w_loops w l));
          w' = (log_call (SysEpollWait l (size_to_int32 n) (Inr evs)) w)\<lparr>w_chans := store_revents evs (w_chans w)\<rparr>
      in if evs \<noteq> [] \<and> length evs = n
         then upd_poller l (\<lambda>p. p\<lparr>pl_eventsSize := n * 2\<rparr>) w' else w')"

lemma polled_world_simps [simp]:
  "w_tid (polled_world l evs w) = w_tid w"
  "w_chans (polled_world l evs w) = store_revents evs (w_chans w)"
  "chan_map l' (polled_world l evs w) = chan_map l' w"
  "interest l' (w_trace (polled_world l evs w)) = interest l' (w_trace w)"
  "world.more (polled_world l evs w) = world.more w"
  by (simp_all add: polled_world_def Let_def)

lemma poll_ok:
  assumes inv: "registry_inv l w" and os: "epoll_wait_contract os"
    and evs: "os_epoll_wait os (w_trace w) l (size_to_int32 (pl_eventsSize (el_poller (w_loops w l)))) = Inr evs"
  shows "poll os l acs w = Inr (acs @ map fst evs, polled_world l evs w)"
    and "registry_inv l (polled_world l evs w)"
    and "\<And>c. c \<in> fst ` set evs \<Longrightarrow> active_ok l (polled_world l evs w) c"
    and "distinct (map fst evs)"
proof -
  let ?n = "pl_eventsSize (el_poller (w_loops w l))"
  have len: "int (length evs) \<le> size_to_int32 ?n" and dist: "distinct (map fst evs)"
    and src: "\<And>c revt. (c, revt) \<in> set evs \<Longrightarrow>
      \<exists>fd ev. interest l (w_trace w) fd = Some (ev, c) \<and> revt AND NOT (ev OR POLLERR OR POLLHUP) = 0"
    using os evs unfolding epoll_wait_contract_def by blast+
  have fits: "length evs \<le> ?n" "length evs < 2 ^ 31" using size_to_int32_bounds [OF len] by simp_all
  have known: "\<exists>ch. w_chans w c = Some ch \<and> ch_loop ch = l \<and> chan_map l w (ch_fd ch) = Some c \<and>
      ch_index ch = kAdded \<and> revt AND NOT (ch_events ch OR POLLERR OR POLLHUP) = 0"
    if e: "(c, revt) \<in> set evs" for c revt
  proof -
    from src [OF e] obtain fd ev where i: "interest l (w_trace w) fd = Some (ev, c)"
      and r: "revt AND NOT (ev OR POLLERR OR POLLHUP) = 0" by blast
    then obtain c' where m: "chan_map l w fd = Some c'"
      using registry_inv_unmapped [OF inv, of fd] by fastforce
    from inv m obtain ch where ch: "w_chans w c' = Some ch" "ch_loop ch = l" "ch_fd ch = fd"
      "ch_index ch = kAdded \<and> interest l (w_trace w) fd = Some (ch_events ch, c') \<or>
       ch_index ch = kDeleted \<and> isNoneEvent ch \<and> interest l (w_trace w) fd = None"
      by (rule registry_inv_lookup)
    with i m r show ?thesis by auto
  qed
  let ?w = "log_call (SysEpollWait l (size_to_int32 ?n) (Inr evs)) w"
  have "\<forall>c \<in> fst ` set evs. \<exists>ch. w_chans ?w c = Some ch \<and> chan_map l ?w (ch_fd ch) = Some c"
    using known by fastforce
  from fillActiveChannels_ok [OF this, of acs]
  show "poll os l acs w = Inr (acs @ map fst evs, polled_world l evs w)"
    using fits evs by (auto simp: poll_def polled_world_def resize_events_def max_events_def max_size_def Let_def upd_poller_def upd_loop_def)
  show "distinct (map fst evs)" by (rule dist)
  show "registry_inv l (polled_world l evs w)"
    by (rule registry_inv_cong [OF inv])
      (auto simp: store_revents_def option.map_comp comp_def split: option.split)
  show "active_ok l (polled_world l evs w) c" if "c \<in> fst ` set evs" for c
  proof -
    from that obtain revt where e: "(c, revt) \<in> set evs" by auto
    with dist have "map_of (rev evs) c = Some revt"
      by (simp add: rev_map [symmetric])
    with known [OF e] show ?thesis by (auto simp: active_ok_def store_revents_def)
  qed
qed

text \<open>
  C26: when the registry agrees with the kernel, \<open>Poller::poll\<close> never fails an assertion, whatever
  the kernel reports within the contract of \<open>epoll_wait\<close> (an error included). Every channel it
  hands to the loop is alive, is registered under its own descriptor and received only events it
  asked for, errors or hang-ups; no channel is reported twice; and the registry still agrees with
  the kernel.
\<close>

theorem poll_reports_registered:
  assumes "registry_inv l w" and "epoll_wait_contract os"
  shows "\<exists>acs w'. poll os l [] w = Inr (acs, w') \<and> registry_inv l w' \<and> distinct acs \<and>
    (\<forall>c. c \<in> set acs \<longrightarrow> active_ok l w' c) \<and> dom (w_chans w') = dom (w_chans w)"
proof (cases "os_epoll_wait os (w_trace w) l (size_to_int32 (pl_eventsSize (el_poller (w_loops w l))))")
  case (Inl e)
  have "registry_inv l (log_call (SysEpollWait l n r) w)" for n r
    by (rule registry_inv_cong [OF assms(1)]) simp_all
  with Inl show ?thesis by (simp add: poll_def Let_def)
next
  case (Inr evs)
  note ok = poll_ok [OF assms Inr]
  show ?thesis
    using ok(1) [of "[]"] ok(2,4) ok(3)
    by (auto simp: store_revents_def domIff split: option.splits)
qed

section \<open>A kernel that keeps the contracts\<close>

text \<open>
  \<open>model_os\<close> answers every \<open>epoll_ctl\<close> call as documented, reports descriptor 5 as ready for
  whatever was asked of it, accepts every write in full and has one byte to read.
\<close>

definition model_os :: os where
  "model_os = \<lparr>
     os_epoll_ctl = (\<lambda>tr l operation fd ev c.
       if (operation = EPOLL_CTL_ADD) = (interest l tr fd = None) then 0 else - 1),
     os_epoll_wait = (\<lambda>tr l n. if n \<le> 0 then Inl 22 else Inr (case interest l tr 5 of
       None \<Rightarrow> [] | Some (ev, c) \<Rightarrow> [(c, ev)])),
     os_read = (\<lambda>tr fd n. Inr (replicate n 1)),
     os_readv = (\<lambda>tr fd ns. Inr (replicate (min 1 (sum_list ns)) 1)),
     os_write = (\<lambda>tr fd bs. (int (length bs), 0)),
     os_so_error = (\<lambda>tr fd. 0)\<rparr>"

lemma model_os_ctl: "epoll_ctl_contract model_os"
  by (simp add: epoll_ctl_contract_def model_os_def)

lemma mask_own [simp]: "ev AND NOT ev AND a = (0 :: 32 word)"
  by (auto simp: bit_eq_iff bit_simps)

lemma model_os_wait: "epoll_wait_contract model_os"
proof -
  have "(c, revt) \<in> set evs \<Longrightarrow> \<exists>fd ev. interest l tr fd = Some (ev, c) \<and> revt AND NOT (ev OR POLLERR OR POLLHUP) = 0"
    if "os_epoll_wait model_os tr l n = Inr evs" for tr l n evs c revt
    using that by (auto simp: model_os_def split: option.splits if_splits intro!: exI [of _ "5 :: int"])
  moreover have "0 < n \<and> int (length evs) \<le> n \<and> distinct (map fst evs)" if "os_epoll_wait model_os tr l n = Inr evs" for tr l n evs
    using that by (auto simp: model_os_def split: option.splits if_splits)
  ultimately show ?thesis unfolding epoll_wait_contract_def by blast
qed

text \<open>A loop in thread 1 that watches one channel, at address 7, for input on descriptor 5.\<close>

definition model_channel :: channel where
  "model_channel = \<lparr>ch_loop = 0, ch_fd = 5, ch_events = 1, ch_revents = 0, ch_index = kAdded,
     ch_handling = False, ch_added = True, ch_readCb = None, ch_writeCb = None, ch_closeCb = None,
     ch_errorCb = None\<rparr>"

definition model_loop :: eventloop where
  "model_loop = \<lparr>el_looping = True, el_quit = False, el_eventHandling = False, el_calling = False,
     el_iteration = 0, el_threadId = 1,
     el_poller = \<lparr>pl_channels = [5 \<mapsto> 7], pl_eventsSize = kInitEventListSize\<rparr>, el_wakeupFd = 4,
     el_active = [], el_current = None, el_pending = []\<rparr>"

definition model_world :: world where
  "model_world = \<lparr>w_tid = 1, w_chans = [7 \<mapsto> model_channel], 
     w_loops = (\<lambda>_. model_loop\<lparr>el_poller := mk_Poller\<rparr>)(0 := model_loop),
     w_trace = [SysEpollCtl 0 EPOLL_CTL_ADD 5 1 7 0]\<rparr>"

lemmas model_defs = model_world_def model_loop_def model_channel_def

lemma model_world_registry: "registry_inv l model_world"
  by (rule registry_inv_intro)
    (auto simp: model_defs mk_Poller_def interest_def index_defs split: if_splits)

theorem poll_reports_registered_witness:
  "registry_inv 0 model_world \<and> epoll_wait_contract model_os \<and>
   (\<exists>acs w'. poll model_os 0 [] model_world = Inr (acs, w') \<and> registry_inv 0 w' \<and> distinct acs \<and>
     (\<forall>c. c \<in> set acs \<longrightarrow> active_ok 0 w' c) \<and> dom (w_chans w') = dom (w_chans model_world))"
  using poll_reports_registered [OF model_world_registry model_os_wait] model_world_registry
    model_os_wait by blast

end
