(* ===== verification/Channel.thy ===== *)
theory Channel
  imports Poller
begin

text \<open>
  \<open>network/Channel.h\<close> and \<open>network/src/Channel.cc\<close>, with the three members of \<open>EventLoop\<close> that pass
  a channel on to the poller. The callbacks are run by a function \<open>run\<close> that the theories of the
  objects they belong to supply.
\<close>

section \<open>EventLoop.cc: the registry of channels\<close>

definition updateChannel_loop ::
  "'o os_scheme \<Rightarrow> ptr \<Rightarrow> ptr \<Rightarrow> 'a world_scheme \<Rightarrow> 'a world_scheme res" where
  "updateChannel_loop os l c w =
     bindR (get_chan c w) (\<lambda>ch.
       assertR (ch_loop ch = l)
         (bindR (assertInLoopThread l w) (\<lambda>w. updateChannel_poller os l c w)))"

definition removeChannel_loop ::
  "'o os_scheme \<Rightarrow> ptr \<Rightarrow> ptr \<Rightarrow> 'a world_scheme \<Rightarrow> 'a world_scheme res" where
  "removeChannel_loop os l c w =
     bindR (get_chan c w) (\<lambda>ch.
       assertR (ch_loop ch = l)
         (bindR (assertInLoopThread l w) (\<lambda>w.
            let lp = w_loops w l in
            assertR (el_eventHandling lp \<longrightarrow> el_current lp = Some c \<or> c \<notin> set (el_active lp))
              (removeChannel_poller os l c w))))"

definition hasChannel_loop :: "ptr \<Rightarrow> ptr \<Rightarrow> 'a world_scheme \<Rightarrow> bool res" where
  "hasChannel_loop l c w =
     bindR (get_chan c w) (\<lambda>ch.
       assertR (ch_loop ch = l) (bindR (assertInLoopThread l w) (\<lambda>w. hasChannel_poller l c w)))"

section \<open>Channel.h and Channel.cc\<close>

definition NoneEvent :: "32 word" where "NoneEvent = 0"
definition ReadEvent :: "32 word" where "ReadEvent = POLLIN"
definition WriteEvent :: "32 word" where "WriteEvent = POLLOUT"

definition mk_Channel :: "ptr \<Rightarrow> fd \<Rightarrow> channel" where
  "mk_Channel loop fd = \<lparr>ch_loop = loop, ch_fd = fd, ch_events = 0, ch_revents = 0, ch_index = - 1,
     ch_handling = False, ch_added = False, ch_readCb = None, ch_writeCb = None, ch_closeCb = None,
     ch_errorCb = None\<rparr>"

definition setReadCallback :: "callback \<Rightarrow> channel \<Rightarrow> channel" where
  "setReadCallback cb ch = ch\<lparr>ch_readCb := Some cb\<rparr>"

definition setWriteCallback :: "callback \<Rightarrow> channel \<Rightarrow> channel" where
  "setWriteCallback cb ch = ch\<lparr>ch_writeCb := Some cb\<rparr>"

definition setCloseCallback :: "callback \<Rightarrow> channel \<Rightarrow> channel" where
  "setCloseCallback cb ch = ch\<lparr>ch_closeCb := Some cb\<rparr>"

definition setErrorCallback :: "callback \<Rightarrow> channel \<Rightarrow> channel" where
  "setErrorCallback cb ch = ch\<lparr>ch_errorCb := Some cb\<rparr>"

text \<open>The destructor: the object leaves the store.\<close>

definition delete_Channel :: "ptr \<Rightarrow> 'a world_scheme \<Rightarrow> 'a world_scheme res" where
  "delete_Channel c w =
     bindR (get_chan c w) (\<lambda>ch.
       assertR (\<not> ch_handling ch)
         (assertR (\<not> ch_added ch)
            (bindR (if isInLoopThread (ch_loop ch) w
                    then bindR (hasChannel_loop (ch_loop ch) c w) (\<lambda>b. assertR (\<not> b) (Inr w))
                    else Inr w)
               (\<lambda>w. Inr (w\<lparr>w_chans := (w_chans w)(c := None)\<rparr>)))))"

definition update_channel :: "'o os_scheme \<Rightarrow> ptr \<Rightarrow> 'a world_scheme \<Rightarrow> 'a world_scheme res" where
  "update_channel os c w =
     bindR (upd_chan c (\<lambda>ch. ch\<lparr>ch_added := True\<rparr>) w) (\<lambda>w1.
       bindR (get_chan c w1) (\<lambda>ch. updateChannel_loop os (ch_loop ch) c w1))"

definition set_events ::
  "'o os_scheme \<Rightarrow> (32 word \<Rightarrow> 32 word) \<Rightarrow> ptr \<Rightarrow> 'a world_scheme \<Rightarrow> 'a world_scheme res" where
  "set_events os f c w =
     bindR (upd_chan c (\<lambda>ch. ch\<lparr>ch_events := f (ch_events ch)\<rparr>) w) (update_channel os c)"

definition enableReading :: "'o os_scheme \<Rightarrow> ptr \<Rightarrow> 'a world_scheme \<Rightarrow> 'a world_scheme res" where
  "enableReading os c w = set_events os (\<lambda>e. e OR ReadEvent) c w"

definition disableReading :: "'o os_scheme \<Rightarrow> ptr \<Rightarrow> 'a world_scheme \<Rightarrow> 'a world_scheme res" where
  "disableReading os c w = set_events os (\<lambda>e. e AND NOT ReadEvent) c w"

definition enableWriting :: "'o os_scheme \<Rightarrow> ptr \<Rightarrow> 'a world_scheme \<Rightarrow> 'a world_scheme res" where
  "enableWriting os c w = set_events os (\<lambda>e. e OR WriteEvent) c w"

definition disableWriting :: "'o os_scheme \<Rightarrow> ptr \<Rightarrow> 'a world_scheme \<Rightarrow> 'a world_scheme res" where
  "disableWriting os c w = set_events os (\<lambda>e. e AND NOT WriteEvent) c w"

definition disableAll :: "'o os_scheme \<Rightarrow> ptr \<Rightarrow> 'a world_scheme \<Rightarrow> 'a world_scheme res" where
  "disableAll os c w = set_events os (\<lambda>e. NoneEvent) c w"

definition isWriting :: "channel \<Rightarrow> bool" where
  "isWriting ch \<longleftrightarrow> ch_events ch AND WriteEvent \<noteq> 0"

definition isReading :: "channel \<Rightarrow> bool" where
  "isReading ch \<longleftrightarrow> ch_events ch AND ReadEvent \<noteq> 0"

definition remove_channel :: "'o os_scheme \<Rightarrow> ptr \<Rightarrow> 'a world_scheme \<Rightarrow> 'a world_scheme res" where
  "remove_channel os c w =
     bindR (get_chan c w) (\<lambda>ch.
       assertR (isNoneEvent ch)
         (bindR (upd_chan c (\<lambda>ch. ch\<lparr>ch_added := False\<rparr>) w) (\<lambda>w1.
            removeChannel_loop os (ch_loop ch) c w1)))"

text \<open>
  One clause of \<open>handleEvent\<close>: the members are read again each time, as the previous callback may
  have changed them.
\<close>

definition fire ::
  "(callback \<Rightarrow> 'a world_scheme \<Rightarrow> 'a world_scheme res) \<Rightarrow> (32 word \<Rightarrow> bool) \<Rightarrow>
   (channel \<Rightarrow> callback option) \<Rightarrow> ptr \<Rightarrow> 'a world_scheme \<Rightarrow> 'a world_scheme res" where
  "fire run test cb c w =
     bindR (get_chan c w) (\<lambda>ch.
       if test (ch_revents ch)
       then (case cb ch of None \<Rightarrow> Inr w | Some k \<Rightarrow> run k w)
       else Inr w)"

definition hup_only :: "32 word \<Rightarrow> bool" where
  "hup_only r \<longleftrightarrow> r AND POLLHUP \<noteq> 0 \<and> \<not> r AND POLLIN \<noteq> 0"

definition readable :: "32 word \<Rightarrow> bool" where
  "readable r \<longleftrightarrow> r AND (POLLIN OR POLLPRI OR POLLRDHUP) \<noteq> 0"

definition writable :: "32 word \<Rightarrow> bool" where
  "writable r \<longleftrightarrow> r AND POLLOUT \<noteq> 0"

definition erroneous :: "32 word \<Rightarrow> bool" where
  "erroneous r \<longleftrightarrow> r AND (POLLERR OR POLLNVAL) \<noteq> 0"

definition handleEvent ::
  "(callback \<Rightarrow> 'a world_scheme \<Rightarrow> 'a world_scheme res) \<Rightarrow> ptr \<Rightarrow>
   'a world_scheme \<Rightarrow> 'a world_scheme res" where
  "handleEvent run c w =
     bindR (upd_chan c (\<lambda>ch. ch\<lparr>ch_handling := True\<rparr>) w) (\<lambda>w.
     bindR (fire run hup_only ch_closeCb c w) (\<lambda>w.
     bindR (fire run readable ch_readCb c w) (\<lambda>w.
     bindR (fire run writable ch_writeCb c w) (\<lambda>w.
     bindR (fire run erroneous ch_errorCb c w) (\<lambda>w.
       upd_chan c (\<lambda>ch. ch\<lparr>ch_handling := False\<rparr>) w)))))"

section \<open>Lemmas: the registry\<close>

lemma set_events_ok:
  assumes "epoll_ctl_contract os" and "registry_inv l w" and "registrable l c ch w"
  shows "set_events os f c w =
    Inr (updated_world l c (ch\<lparr>ch_events := f (ch_events ch), ch_added := True\<rparr>) w)"
proof -
  have c: "w_chans w c = Some ch" "ch_loop ch = l"
    using assms(3) by (simp_all add: registrable_def)
  let ?ch = "ch\<lparr>ch_events := f (ch_events ch), ch_added := True\<rparr>"
  have "set_events os f c w = updateChannel_poller os l c (put_chan c ?ch w)"
    using c by (simp add: set_events_def update_channel_def updateChannel_loop_def)
      (simp add: put_chan_def)
  then show ?thesis
    using updateChannel_poller_ok [OF assms] by simp
qed

lemma remove_channel_ok:
  assumes "epoll_ctl_contract os" and "registry_inv l w" and "registrable l c ch w"
    and "ch_index ch \<noteq> kNew" and "isNoneEvent ch"
    and "el_eventHandling (w_loops w l) \<longrightarrow>
      el_current (w_loops w l) = Some c \<or> c \<notin> set (el_active (w_loops w l))"
  shows "remove_channel os c w = Inr (removed_world l c (ch\<lparr>ch_added := False\<rparr>) w)"
proof -
  have c: "w_chans w c = Some ch" "ch_loop ch = l"
    using assms(3) by (simp_all add: registrable_def)
  show ?thesis
    using c assms(5,6) removeChannel_poller_ok [OF assms(1-5)]
    by (simp add: remove_channel_def removeChannel_loop_def Let_def)
qed

lemma registrable_updated:
  assumes "registrable l c ch w"
  shows "registrable l c (ch\<lparr>ch_events := e, ch_added := True,
      ch_index := next_index (ch\<lparr>ch_events := e, ch_added := True\<rparr>)\<rparr>)
    (updated_world l c (ch\<lparr>ch_events := e, ch_added := True\<rparr>) w)"
  using assms by (auto simp: registrable_def next_index_def index_defs)

text \<open>Masks as bits.\<close>

lemma POLL_bits:
  "POLLIN = 2 ^ 0" "POLLPRI = 2 ^ 1" "POLLOUT = 2 ^ 2" "POLLERR = 2 ^ 3" "POLLHUP = 2 ^ 4"
  "POLLNVAL = 2 ^ 5" "POLLRDHUP = 2 ^ 13"
  by (simp_all add: poll_defs)

lemma isReading_bit: "isReading ch \<longleftrightarrow> bit (ch_events ch) 0"
  unfolding isReading_def ReadEvent_def POLL_bits by (simp only: and_exp_eq_0_iff_not_bit not_not)

lemma isWriting_bit: "isWriting ch \<longleftrightarrow> bit (ch_events ch) 2"
  unfolding isWriting_def WriteEvent_def POLL_bits by (simp only: and_exp_eq_0_iff_not_bit not_not)

lemma event_bits [simp]:
  "bit ReadEvent n \<longleftrightarrow> n = 0" "bit WriteEvent n \<longleftrightarrow> n = 2" "bit NoneEvent n \<longleftrightarrow> False"
  unfolding ReadEvent_def WriteEvent_def NoneEvent_def POLL_bits
  by (auto simp only: bit_exp_iff) (auto simp: possible_bit_def)

lemma revents_bits:
  "hup_only r \<longleftrightarrow> bit r 4 \<and> \<not> bit r 0"
  "readable r \<longleftrightarrow> bit r 0 \<or> bit r 1 \<or> bit r 13"
  "writable r \<longleftrightarrow> bit r 2"
  "erroneous r \<longleftrightarrow> bit r 3 \<or> bit r 5"
proof -
  have split: "r AND (a OR b) = 0 \<longleftrightarrow> r AND a = 0 \<and> r AND b = 0" for a b :: "32 word"
    by (auto simp: bit_eq_iff bit_simps)
  show "hup_only r \<longleftrightarrow> bit r 4 \<and> \<not> bit r 0" "readable r \<longleftrightarrow> bit r 0 \<or> bit r 1 \<or> bit r 13"
    "writable r \<longleftrightarrow> bit r 2" "erroneous r \<longleftrightarrow> bit r 3 \<or> bit r 5"
    unfolding hup_only_def readable_def writable_def erroneous_def split POLL_bits
    by (simp_all only: and_exp_eq_0_iff_not_bit not_not de_Morgan_conj)
qed

section \<open>Scripts of channel operations\<close>

datatype chan_op = EnableReading | DisableReading | EnableWriting | DisableWriting | DisableAll | Remove

fun chan_step :: "'o os_scheme \<Rightarrow> ptr \<times> chan_op \<Rightarrow> 'a world_scheme \<Rightarrow> 'a world_scheme res" where
  "chan_step os (c, EnableReading) w = enableReading os c w"
| "chan_step os (c, DisableReading) w = disableReading os c w"
| "chan_step os (c, EnableWriting) w = enableWriting os c w"
| "chan_step os (c, DisableWriting) w = disableWriting os c w"
| "chan_step os (c, DisableAll) w = disableAll os c w"
| "chan_step os (c, Remove) w = remove_channel os c w"

text \<open>
  The specification: a channel is registered or not, has a set of events, and cannot be removed
  while the loop is still going to dispatch to it.
\<close>

record chan_spec =
  cs_registered :: bool
  cs_events :: "32 word"
  cs_awaited :: bool

fun new_events :: "chan_op \<Rightarrow> 32 word \<Rightarrow> 32 word" where
  "new_events EnableReading e = e OR ReadEvent"
| "new_events DisableReading e = e AND NOT ReadEvent"
| "new_events EnableWriting e = e OR WriteEvent"
| "new_events DisableWriting e = e AND NOT WriteEvent"
| "new_events DisableAll e = 0"
| "new_events Remove e = e"

fun chan_spec_step :: "ptr \<times> chan_op \<Rightarrow> (ptr \<rightharpoonup> chan_spec) \<Rightarrow> (ptr \<rightharpoonup> chan_spec) res" where
  "chan_spec_step (c, x) m =
     (case m c of
        None \<Rightarrow> Inl NullPointer
      | Some s \<Rightarrow>
          if x = Remove
          then assertR (cs_registered s \<and> cs_events s = 0 \<and> \<not> cs_awaited s)
                 (Inr (m(c \<mapsto> s\<lparr>cs_registered := False\<rparr>)))
          else Inr (m(c \<mapsto> s\<lparr>cs_registered := True, cs_events := new_events x (cs_events s)\<rparr>)))"

definition awaited :: "ptr \<Rightarrow> ptr \<Rightarrow> 'a world_scheme \<Rightarrow> bool" where
  "awaited l c w \<longleftrightarrow> el_eventHandling (w_loops w l) \<and> el_current (w_loops w l) \<noteq> Some c \<and>
     c \<in> set (el_active (w_loops w l))"

definition chan_abs :: "'a world_scheme \<Rightarrow> (ptr \<rightharpoonup> chan_spec)" where
  "chan_abs w = (\<lambda>c. map_option (\<lambda>ch.
     \<lparr>cs_registered = (ch_index ch \<noteq> kNew), cs_events = ch_events ch,
      cs_awaited = awaited (ch_loop ch) c w\<rparr>) (w_chans w c))"

text \<open>All registries agree with the kernel, and no descriptor has two channels in one loop.\<close>

definition fds_unique :: "'a world_scheme \<Rightarrow> bool" where
  "fds_unique w \<longleftrightarrow> (\<forall>c1 c2 ch1 ch2. w_chans w c1 = Some ch1 \<longrightarrow> w_chans w c2 = Some ch2 \<longrightarrow>
     ch_loop ch1 = ch_loop ch2 \<longrightarrow> ch_fd ch1 = ch_fd ch2 \<longrightarrow> c1 = c2)"

definition reactor_inv :: "'a world_scheme \<Rightarrow> bool" where
  "reactor_inv w \<longleftrightarrow> (\<forall>l. registry_inv l w) \<and> fds_unique w"

lemma reactor_registrable:
  assumes "reactor_inv w" and "w_chans w c = Some ch"
  shows "registrable (ch_loop ch) c ch w"
proof -
  have inv: "registry_inv (ch_loop ch) w" and uniq: "fds_unique w"
    using assms(1) by (simp_all add: reactor_inv_def)
  have "chan_map (ch_loop ch) w (ch_fd ch) = None" if new: "ch_index ch = kNew"
  proof (rule ccontr)
    assume "chan_map (ch_loop ch) w (ch_fd ch) \<noteq> None"
    then obtain c' where m: "chan_map (ch_loop ch) w (ch_fd ch) = Some c'" by blast
    with inv obtain ch' where "w_chans w c' = Some ch'" "ch_loop ch' = ch_loop ch" "ch_fd ch' = ch_fd ch"
      by (rule registry_inv_lookup)
    with uniq assms(2) have "c' = c" unfolding fds_unique_def by metis
    with m registry_inv_new [OF inv assms(2) new] show False by simp
  qed
  with assms(2) show ?thesis by (simp add: registrable_def)
qed

lemma registry_inv_other_loop:
  assumes inv: "registry_inv l' w" and ch: "w_chans w c = Some ch" "ch_loop ch \<noteq> l'"
    and "w_chans w' = (w_chans w)(c \<mapsto> ch')" "ch_loop ch' \<noteq> l'"
    and "chan_map l' w' = chan_map l' w" "interest l' (w_trace w') = interest l' (w_trace w)"
  shows "registry_inv l' w'"
proof (rule registry_inv_intro)
  fix fd d assume "chan_map l' w' fd = Some d"
  with assms(6) have "chan_map l' w fd = Some d" by simp
  with inv obtain dh where d: "w_chans w d = Some dh" "ch_loop dh = l'" "ch_fd dh = fd"
    "ch_index dh = kAdded \<and> interest l' (w_trace w) fd = Some (ch_events dh, d) \<or>
     ch_index dh = kDeleted \<and> isNoneEvent dh \<and> interest l' (w_trace w) fd = None"
    by (rule registry_inv_lookup)
  then have "d \<noteq> c" using ch by auto
  with d show "\<exists>dh. w_chans w' d = Some dh \<and> ch_loop dh = l' \<and> ch_fd dh = fd \<and>
      (ch_index dh = kAdded \<and> interest l' (w_trace w') fd = Some (ch_events dh, d) \<or>
       ch_index dh = kDeleted \<and> isNoneEvent dh \<and> interest l' (w_trace w') fd = None)"
    using assms(4,7) by simp
next
  fix fd assume "chan_map l' w' fd = None"
  with assms(6,7) registry_inv_unmapped [OF inv] show "interest l' (w_trace w') fd = None" by simp
next
  fix d dh assume "w_chans w' d = Some dh" "ch_loop dh = l'"
  with assms(4,5) have "w_chans w d = Some dh" "ch_loop dh = l'" by (auto split: if_splits)
  with registry_inv_known [OF inv] assms(6) show "ch_index dh = kNew \<or> chan_map l' w' (ch_fd dh) = Some d"
    by metis
qed

lemma fds_unique_put:
  assumes "fds_unique w" "w_chans w c = Some ch" "w_chans w' = (w_chans w)(c \<mapsto> ch')"
    and "ch_loop ch' = ch_loop ch" "ch_fd ch' = ch_fd ch"
  shows "fds_unique w'"
  unfolding fds_unique_def
proof (intro allI impI)
  fix c1 c2 ch1 ch2
  assume a: "w_chans w' c1 = Some ch1" "w_chans w' c2 = Some ch2" "ch_loop ch1 = ch_loop ch2" "ch_fd ch1 = ch_fd ch2"
  have "\<exists>d. w_chans w x = Some d \<and> ch_loop d = ch_loop y \<and> ch_fd d = ch_fd y" if "w_chans w' x = Some y" for x y
    using that assms(2-5) by (auto split: if_splits)
  from this [OF a(1)] this [OF a(2)] a(3,4) assms(1) show "c1 = c2"
    unfolding fds_unique_def by metis
qed

lemma reactor_inv_updated:
  assumes "reactor_inv w" and ch: "w_chans w c = Some ch"
  shows "reactor_inv (updated_world (ch_loop ch) c (ch\<lparr>ch_events := e, ch_added := True\<rparr>) w)"
    (is "reactor_inv ?w")
proof -
  have inv: "registry_inv l w" and uniq: "fds_unique w" for l
    using assms(1) by (simp_all add: reactor_inv_def)
  have "registry_inv l ?w" for l
  proof (cases "l = ch_loop ch")
    case True
    then show ?thesis
      using registry_inv_updated [OF inv reactor_registrable [OF assms]] by simp
  next
    case False
    then show ?thesis
      by (intro registry_inv_other_loop [OF inv ch]) auto
  qed
  moreover have "fds_unique ?w"
    by (rule fds_unique_put [OF uniq ch updated_world_simps(2)]) simp_all
  ultimately show ?thesis by (simp add: reactor_inv_def)
qed

lemma reactor_inv_removed:
  assumes "reactor_inv w" and ch: "w_chans w c = Some ch" and "ch_index ch \<noteq> kNew"
  shows "reactor_inv (removed_world (ch_loop ch) c (ch\<lparr>ch_added := False\<rparr>) w)" (is "reactor_inv ?w")
proof -
  have inv: "registry_inv l w" and uniq: "fds_unique w" for l
    using assms(1) by (simp_all add: reactor_inv_def)
  have "registry_inv l ?w" for l
  proof (cases "l = ch_loop ch")
    case True
    then show ?thesis
      using registry_inv_removed [OF inv reactor_registrable [OF assms(1,2)] assms(3)] by simp
  next
    case False
    then show ?thesis
      by (intro registry_inv_other_loop [OF inv ch]) (auto simp: removed_world_def)
  qed
  moreover have "fds_unique ?w"
    by (rule fds_unique_put [OF uniq ch removed_world_simps(2)]) simp_all
  ultimately show ?thesis by (simp add: reactor_inv_def)
qed

lemma awaited_updated [simp]:
  "awaited l' c' (updated_world l c ch w) = awaited l' c' w"
  "awaited l' c' (removed_world l c ch w) = awaited l' c' w"
  by (simp_all add: awaited_def updated_world_def removed_world_def)

lemma chan_step_set_events:
  assumes "x \<noteq> Remove"
  shows "chan_step os (c, x) w = set_events os (new_events x) c w"
  using assms
  by (cases x) (simp_all add: enableReading_def disableReading_def enableWriting_def disableWriting_def
      disableAll_def NoneEvent_def set_events_def)

lemma chan_step_NullPointer:
  assumes "w_chans w c = None"
  shows "chan_step os (c, x) w = Inl NullPointer"
  using assms
  by (cases "x = Remove") (simp_all add: chan_step_set_events set_events_def upd_chan_def remove_channel_def)

lemma remove_channel_refused:
  assumes "w_chans w c = Some ch" and "registry_inv (ch_loop ch) w"
    and "ch_index ch = kNew \<or> \<not> isNoneEvent ch \<or> awaited (ch_loop ch) c w"
  shows "remove_channel os c w = Inl AssertFailure"
proof (cases "isNoneEvent ch \<and> \<not> awaited (ch_loop ch) c w")
  case True
  then have new: "ch_index ch = kNew" using assms(3) by simp
  have "chan_map (ch_loop ch) w (ch_fd ch) \<noteq> Some c"
    by (rule registry_inv_new [OF assms(2,1) new])
  with True assms(1) show ?thesis
    by (cases "chan_map (ch_loop ch) w (ch_fd ch)")
      (auto simp: remove_channel_def removeChannel_loop_def removeChannel_poller_def Let_def awaited_def assertR_def)
next
  case False
  with assms(1) show ?thesis
    by (auto simp: remove_channel_def removeChannel_loop_def awaited_def Let_def assertR_def)
qed

interpretation chansim: simulation "chan_step os" chan_spec_step chan_abs
    "\<lambda>w. epoll_ctl_contract os \<and> reactor_inv w" for os :: "'o os_scheme"
proof (unfold_locales, goal_cases)
  case (1 w cx m)
  obtain c x where cx: "cx = (c, x)" by force
  from 1 cx obtain ch where ch: "w_chans w c = Some ch"
    by (cases "w_chans w c") (auto simp: chan_abs_def)
  from 1 have os: "epoll_ctl_contract os" and inv: "reactor_inv w" "registry_inv (ch_loop ch) w"
    by (auto simp: reactor_inv_def)
  note reg = reactor_registrable [OF inv(1) ch]
  show ?case
  proof (cases "x = Remove")
    case True
    with 1 cx ch have ok: "ch_index ch \<noteq> kNew" "isNoneEvent ch" "\<not> awaited (ch_loop ch) c w"
      and m: "m = (chan_abs w)(c \<mapsto> (the (chan_abs w c))\<lparr>cs_registered := False\<rparr>)"
      by (auto simp: chan_abs_def assertR_def isNoneEvent_def split: if_splits)
    let ?w = "removed_world (ch_loop ch) c (ch\<lparr>ch_added := False\<rparr>) w"
    have "chan_step os cx w = Inr ?w"
      using remove_channel_ok [OF os inv(2) reg ok(1,2)] ok(3) True cx by (auto simp: awaited_def)
    moreover have "chan_abs ?w = m"
      using ch by (auto simp: m chan_abs_def)
    ultimately show ?thesis
      using reactor_inv_removed [OF inv(1) ch ok(1)] os by auto
  next
    case False
    let ?w = "updated_world (ch_loop ch) c (ch\<lparr>ch_events := new_events x (ch_events ch), ch_added := True\<rparr>) w"
    have "chan_step os cx w = Inr ?w"
      using set_events_ok [OF os inv(2) reg] False cx by (simp add: chan_step_set_events)
    moreover have "chan_abs ?w = m"
      using 1 cx False ch by (auto simp: chan_abs_def next_index_def index_defs)
    ultimately show ?thesis
      using reactor_inv_updated [OF inv(1) ch] os by auto
  qed
next
  case (2 w cx e)
  obtain c x where cx: "cx = (c, x)" by force
  show ?case
  proof (cases "w_chans w c")
    case None
    with 2 cx chan_step_NullPointer [OF None, of os x] show ?thesis by (simp add: chan_abs_def)
  next
    case (Some ch)
    with 2 cx have "x = Remove" "e = AssertFailure"
      "ch_index ch = kNew \<or> \<not> isNoneEvent ch \<or> awaited (ch_loop ch) c w"
      by (auto simp: chan_abs_def assertR_def isNoneEvent_def split: if_splits)
    with remove_channel_refused [OF Some] 2 cx show ?thesis by (simp add: reactor_inv_def)
  qed
qed

text \<open>
  C23: any sequence of \<open>enableReading\<close>, \<open>disableReading\<close>, \<open>enableWriting\<close>, \<open>disableWriting\<close>,
  \<open>disableAll\<close> and \<open>remove\<close> calls on the channels of any number of loops does what the
  specification says: it fails an assertion exactly at a removal of a channel that is not
  registered, still has events or is still to be dispatched, and otherwise the kernel ends up
  watching every registered channel that has events for exactly these events, and no descriptor of
  an unregistered channel.
\<close>

theorem channel_scripts_keep_kernel_in_step:
  assumes "epoll_ctl_contract os" and "reactor_inv w"
  shows "case foldR chan_spec_step xs (chan_abs w) of
      Inl e \<Rightarrow> foldR (chan_step os) xs w = Inl e
    | Inr m \<Rightarrow> \<exists>w'. foldR (chan_step os) xs w = Inr w' \<and> reactor_inv w' \<and> chan_abs w' = m \<and>
        (\<forall>c ch. w_chans w' c = Some ch \<longrightarrow>
           (ch_index ch \<noteq> kNew \<and> ch_events ch \<noteq> 0 \<longrightarrow>
              interest (ch_loop ch) (w_trace w') (ch_fd ch) = Some (ch_events ch, c)) \<and>
           (ch_index ch = kNew \<longrightarrow> interest (ch_loop ch) (w_trace w') (ch_fd ch) = None))"
proof -
  have watched: "(ch_index ch \<noteq> kNew \<and> ch_events ch \<noteq> 0 \<longrightarrow>
        interest (ch_loop ch) (w_trace w') (ch_fd ch) = Some (ch_events ch, c)) \<and>
      (ch_index ch = kNew \<longrightarrow> interest (ch_loop ch) (w_trace w') (ch_fd ch) = None)"
    if "reactor_inv w'" "w_chans w' c = Some ch" for w' :: "'b world_scheme" and c ch
  proof -
    have "registry_inv (ch_loop ch) w'" using that(1) by (simp add: reactor_inv_def)
    then show ?thesis
      using reactor_registrable [OF that]
      by (cases rule: registry_inv_index) (auto simp: index_defs isNoneEvent_def)
  qed
  show ?thesis
    using chansim.script_refines [of os w xs] assms watched by (fastforce split: sum.splits)
qed

lemma model_world_reactor: "reactor_inv model_world"
  using model_world_registry
  by (auto simp: reactor_inv_def fds_unique_def model_world_def split: if_splits)

theorem channel_scripts_keep_kernel_in_step_witness:
  "epoll_ctl_contract model_os \<and> reactor_inv model_world \<and>
   (\<exists>w'. foldR (chan_step model_os) [(7, EnableWriting), (7, DisableAll), (7, Remove)] model_world = Inr w' \<and>
      (\<exists>ch. w_chans w' 7 = Some ch \<and> ch_index ch = kNew \<and> interest (ch_loop ch) (w_trace w') (ch_fd ch) = None)) \<and>
   foldR (chan_step model_os) [(7, Remove)] model_world = Inl AssertFailure"
proof -
  have spec: "foldR chan_spec_step [(7, EnableWriting), (7, DisableAll), (7, Remove)] (chan_abs model_world) =
      Inr ((chan_abs model_world)(7 \<mapsto> \<lparr>cs_registered = False, cs_events = 0, cs_awaited = False\<rparr>))"
    "foldR chan_spec_step [(7, Remove)] (chan_abs model_world) = Inl AssertFailure"
    by (auto simp: chan_abs_def model_defs awaited_def assertR_def index_defs)
  note ok = channel_scripts_keep_kernel_in_step [OF model_os_ctl model_world_reactor]
  from ok [of "[(7, EnableWriting), (7, DisableAll), (7, Remove)]", unfolded spec]
  obtain w' where w': "foldR (chan_step model_os) [(7, EnableWriting), (7, DisableAll), (7, Remove)] model_world = Inr w'"
      "chan_abs w' = (chan_abs model_world)(7 \<mapsto> \<lparr>cs_registered = False, cs_events = 0, cs_awaited = False\<rparr>)"
    and out: "\<forall>c ch. w_chans w' c = Some ch \<longrightarrow> ch_index ch = kNew \<longrightarrow>
      interest (ch_loop ch) (w_trace w') (ch_fd ch) = None"
    by auto
  from w'(2) have "chan_abs w' 7 = Some \<lparr>cs_registered = False, cs_events = 0, cs_awaited = False\<rparr>" by simp
  then obtain ch where "w_chans w' 7 = Some ch" "ch_index ch = kNew" by (auto simp: chan_abs_def)
  with w'(1) out ok [of "[(7, Remove)]", unfolded spec] model_os_ctl model_world_reactor show ?thesis
    by auto
qed

section \<open>Channels that come and go\<close>

lemma reactor_inv_cong:
  assumes "reactor_inv w" and "w_chans w' = w_chans w" and "\<And>l. chan_map l w' = chan_map l w"
    and "\<And>l. interest l (w_trace w') = interest l (w_trace w)"
  shows "reactor_inv w'"
  using assms registry_inv_cong [of _ w w'] by (simp add: reactor_inv_def fds_unique_def)

lemma reactor_inv_same_keys:
  assumes "reactor_inv w" and "w_chans w c = Some ch" and "w_chans w' = (w_chans w)(c \<mapsto> ch')"
    and "ch_loop ch' = ch_loop ch" "ch_fd ch' = ch_fd ch" "ch_index ch' = ch_index ch" "ch_events ch' = ch_events ch"
    and "\<And>l. chan_map l w' = chan_map l w"
    and "\<And>l. interest l (w_trace w') = interest l (w_trace w)"
  shows "reactor_inv w'"
proof -
  have "registry_inv l w'" for l
    using assms by (intro registry_inv_cong [of l w w']) (auto simp: reactor_inv_def)
  moreover have "fds_unique w'"
    using assms fds_unique_put [of w c ch w' ch'] by (simp add: reactor_inv_def)
  ultimately show ?thesis by (simp add: reactor_inv_def)
qed

lemma registry_inv_new_channel:
  assumes inv: "registry_inv l w" and none: "w_chans w c = None" and new: "ch_index ch = kNew"
  shows "registry_inv l (put_chan c ch w)"
proof (rule registry_inv_intro)
  show "\<exists>dh. w_chans (put_chan c ch w) d = Some dh \<and> ch_loop dh = l \<and> ch_fd dh = fd \<and>
    (ch_index dh = kAdded \<and> interest l (w_trace (put_chan c ch w)) fd = Some (ch_events dh, d) \<or>
     ch_index dh = kDeleted \<and> isNoneEvent dh \<and> interest l (w_trace (put_chan c ch w)) fd = None)"
    if "chan_map l (put_chan c ch w) fd = Some d" for fd d
  proof -
    from that have "chan_map l w fd = Some d" by simp
    with inv obtain dh where "w_chans w d = Some dh" "ch_loop dh = l" "ch_fd dh = fd"
      "ch_index dh = kAdded \<and> interest l (w_trace w) fd = Some (ch_events dh, d) \<or>
       ch_index dh = kDeleted \<and> isNoneEvent dh \<and> interest l (w_trace w) fd = None"
      by (rule registry_inv_lookup)
    with none show ?thesis by (cases "d = c") auto
  qed
  show "interest l (w_trace (put_chan c ch w)) fd = None"
    if "chan_map l (put_chan c ch w) fd = None" for fd
    using that registry_inv_unmapped [OF inv] by simp
  show "ch_index dh = kNew \<or> chan_map l (put_chan c ch w) (ch_fd dh) = Some d"
    if "w_chans (put_chan c ch w) d = Some dh" "ch_loop dh = l" for d dh
    using that new registry_inv_known [OF inv, of d dh] by (cases "d = c") auto
qed

lemma reactor_inv_new_channel:
  assumes inv: "reactor_inv w" and none: "w_chans w c = None" and new: "ch_index ch = kNew"
    and uniq: "\<And>c' ch'. w_chans w c' = Some ch' \<Longrightarrow> ch_loop ch' = ch_loop ch \<Longrightarrow> ch_fd ch' \<noteq> ch_fd ch"
  shows "reactor_inv (put_chan c ch w)"
proof -
  have "registry_inv l (put_chan c ch w)" for l
    by (rule registry_inv_new_channel) (use inv none new in \<open>simp_all add: reactor_inv_def\<close>)
  moreover have "fds_unique (put_chan c ch w)"
    unfolding fds_unique_def
  proof (intro allI impI)
    fix c1 c2 ch1 ch2
    assume a: "w_chans (put_chan c ch w) c1 = Some ch1" "w_chans (put_chan c ch w) c2 = Some ch2"
      "ch_loop ch1 = ch_loop ch2" "ch_fd ch1 = ch_fd ch2"
    have u: "fds_unique w" using inv by (simp add: reactor_inv_def)
    show "c1 = c2"
    proof (cases "c1 = c \<or> c2 = c")
      case True
      with a uniq show ?thesis by (auto split: if_splits)
    next
      case False
      with a have "w_chans w c1 = Some ch1" "w_chans w c2 = Some ch2" by simp_all
      with u a(3,4) show ?thesis unfolding fds_unique_def by blast
    qed
  qed
  ultimately show ?thesis by (simp add: reactor_inv_def)
qed

lemma reactor_inv_delete:
  assumes inv: "reactor_inv w" and ch: "w_chans w c = Some ch" "ch_index ch = kNew"
  shows "reactor_inv (w\<lparr>w_chans := (w_chans w)(c := None)\<rparr>)" (is "reactor_inv ?w")
proof -
  have "registry_inv l ?w" for l
  proof (rule registry_inv_intro)
    have inv: "registry_inv l w" using inv by (simp add: reactor_inv_def)
    show "\<exists>dh. w_chans ?w d = Some dh \<and> ch_loop dh = l \<and> ch_fd dh = fd \<and>
      (ch_index dh = kAdded \<and> interest l (w_trace ?w) fd = Some (ch_events dh, d) \<or>
       ch_index dh = kDeleted \<and> isNoneEvent dh \<and> interest l (w_trace ?w) fd = None)"
      if "chan_map l ?w fd = Some d" for fd d
    proof -
      from that have m: "chan_map l w fd = Some d" by simp
      with inv obtain dh where "w_chans w d = Some dh" "ch_loop dh = l" "ch_fd dh = fd"
        "ch_index dh = kAdded \<and> interest l (w_trace w) fd = Some (ch_events dh, d) \<or>
         ch_index dh = kDeleted \<and> isNoneEvent dh \<and> interest l (w_trace w) fd = None"
        by (rule registry_inv_lookup)
      moreover have "d \<noteq> c" using registry_inv_new [OF inv ch] m by auto
      ultimately show ?thesis by auto
    qed
    show "interest l (w_trace ?w) fd = None" if "chan_map l ?w fd = None" for fd
      using that registry_inv_unmapped [OF inv] by simp
    show "ch_index dh = kNew \<or> chan_map l ?w (ch_fd dh) = Some d"
      if "w_chans ?w d = Some dh" "ch_loop dh = l" for d dh
      using that registry_inv_known [OF inv, of d dh] by (auto split: if_splits)
  qed
  moreover have "fds_unique ?w"
    using inv unfolding reactor_inv_def fds_unique_def by (auto split: if_splits)
  ultimately show ?thesis by (simp add: reactor_inv_def)
qed

section \<open>Dispatch\<close>

text \<open>A channel that asks for input and output only does not get a hang-up without input together with input.\<close>

lemma close_or_read:
  assumes e: "e AND NOT (ReadEvent OR WriteEvent) = 0" and r: "r AND NOT (e OR POLLERR OR POLLHUP) = 0"
  shows "\<not> (hup_only r \<and> readable r)"
proof -
  have "bit e n \<Longrightarrow> n = 0 \<or> n = 2" for n
    using e bit_imp_le_length [of e n] by (auto simp: bit_eq_iff bit_simps)
  moreover have "bit POLLERR n \<longleftrightarrow> n = 3" "bit POLLHUP n \<longleftrightarrow> n = 4" for n
    unfolding POLL_bits by (auto simp only: bit_exp_iff) (auto simp: possible_bit_def)
  moreover have "bit r n \<Longrightarrow> bit e n \<or> bit POLLERR n \<or> bit POLLHUP n" for n
    using r bit_imp_le_length [of r n] by (auto simp: bit_eq_iff bit_simps)
  ultimately show ?thesis
    by (fastforce simp: revents_bits)
qed

lemma bindR_cong_inv:
  "m = m' \<Longrightarrow> (\<And>x. m' = Inr x \<Longrightarrow> f x = g x) \<Longrightarrow> bindR m f = bindR m' g"
  by (cases m') auto

end
