(* ===== verification/EventLoop.thy ===== *)
theory EventLoop
  imports Channel
begin

text \<open>
  \<open>network/EventLoop.h\<close> and \<open>network/src/EventLoop.cc\<close>: construction and destruction, the queue of
  pending functors with its wake-up descriptor, and the loop. Channel callbacks and functors are run
  by the arguments \<open>run\<close> and \<open>runF\<close>. The interleaving of the loop with other threads is the subject
  of the theory \<open>Wakeup\<close>; here each operation runs to completion.
\<close>

section \<open>Construction and destruction\<close>

text \<open>
  \<open>t_loopInThisThread\<close> is passed in. \<open>threadId_\<close> is read by the thread check of \<open>enableReading\<close>
  before the constructor sets it: \<open>junk\<close> is what the member held.
\<close>

definition mk_EventLoop ::
  "'o os_scheme \<Rightarrow> ptr option \<Rightarrow> int \<Rightarrow> ptr \<Rightarrow> ptr \<Rightarrow> fd \<Rightarrow> 'a world_scheme \<Rightarrow> 'a world_scheme res" where
  "mk_EventLoop os t_loopInThisThread junk l wakeupChannel wakeupFd w =
     (let w1 = upd_loop l (\<lambda>_. \<lparr>el_looping = False, el_quit = False, el_eventHandling = False,
                 el_calling = False, el_iteration = 0, el_threadId = junk, el_poller = mk_Poller,
                 el_wakeupFd = wakeupFd, el_active = [], el_current = None, el_pending = []\<rparr>) w;
          w2 = put_chan wakeupChannel (mk_Channel l wakeupFd) w1 in
      if t_loopInThisThread \<noteq> None then Inl FatalLog
      else bindR (upd_chan wakeupChannel (setReadCallback (LoopHandleRead l)) w2) (\<lambda>w3.
           bindR (enableReading os wakeupChannel w3) (\<lambda>w4.
             Inr (upd_loop l (\<lambda>lp. lp\<lparr>el_threadId := w_tid w4\<rparr>) w4))))"

definition delete_EventLoop ::
  "'o os_scheme \<Rightarrow> ptr \<Rightarrow> ptr \<Rightarrow> 'a world_scheme \<Rightarrow> 'a world_scheme res" where
  "delete_EventLoop os l wakeupChannel w =
     bindR (disableAll os wakeupChannel w) (\<lambda>w1.
     bindR (remove_channel os wakeupChannel w1) (\<lambda>w2.
       delete_Channel wakeupChannel (log_call (SysClose (el_wakeupFd (w_loops w2 l))) w2)))"

section \<open>Pending functors\<close>

definition wakeup :: "'o os_scheme \<Rightarrow> ptr \<Rightarrow> 'a world_scheme \<Rightarrow> 'a world_scheme" where
  "wakeup os l w =
     (let fd = el_wakeupFd (w_loops w l); one = word_bytes (1 :: 64 word);
          n = fst (os_write os (w_trace w) fd one) in
      log_call (SysWrite fd one n) w)"

definition handleRead_loop :: "'o os_scheme \<Rightarrow> ptr \<Rightarrow> 'a world_scheme \<Rightarrow> 'a world_scheme res" where
  "handleRead_loop os l w =
     (let fd = el_wakeupFd (w_loops w l) in
      Inr (log_call (SysRead fd 8 (os_read os (w_trace w) fd 8)) w))"

definition quit :: "'o os_scheme \<Rightarrow> ptr \<Rightarrow> 'a world_scheme \<Rightarrow> 'a world_scheme" where
  "quit os l w =
     (let w1 = upd_loop l (\<lambda>lp. lp\<lparr>el_quit := True\<rparr>) w in
      if \<not> isInLoopThread l w1 then wakeup os l w1 else w1)"

definition queueInLoop :: "'o os_scheme \<Rightarrow> ptr \<Rightarrow> Functor \<Rightarrow> 'a world_scheme \<Rightarrow> 'a world_scheme" where
  "queueInLoop os l cb w =
     (let w1 = upd_loop l (\<lambda>lp. lp\<lparr>el_pending := el_pending lp @ [cb]\<rparr>) w in
      if \<not> isInLoopThread l w1 \<or> el_calling (w_loops w1 l) then wakeup os l w1 else w1)"

definition runInLoop ::
  "'o os_scheme \<Rightarrow> (Functor \<Rightarrow> 'a world_scheme \<Rightarrow> 'a world_scheme res) \<Rightarrow> ptr \<Rightarrow> Functor \<Rightarrow>
   'a world_scheme \<Rightarrow> 'a world_scheme res" where
  "runInLoop os runF l cb w = (if isInLoopThread l w then runF cb w else Inr (queueInLoop os l cb w))"

definition queueSize :: "ptr \<Rightarrow> 'a world_scheme \<Rightarrow> nat" where
  "queueSize l w = length (el_pending (w_loops w l))"

definition doPendingFunctors ::
  "(Functor \<Rightarrow> 'a world_scheme \<Rightarrow> 'a world_scheme res) \<Rightarrow> ptr \<Rightarrow> 'a world_scheme \<Rightarrow> 'a world_scheme res" where
  "doPendingFunctors runF l w =
     (let w1 = upd_loop l (\<lambda>lp. lp\<lparr>el_calling := True\<rparr>) w;
          functors = el_pending (w_loops w1 l);
          w2 = upd_loop l (\<lambda>lp. lp\<lparr>el_pending := []\<rparr>) w1 in
      bindR (foldR runF functors w2) (\<lambda>w3. Inr (upd_loop l (\<lambda>lp. lp\<lparr>el_calling := False\<rparr>) w3)))"

section \<open>The loop\<close>

definition handleActive ::
  "(callback \<Rightarrow> 'a world_scheme \<Rightarrow> 'a world_scheme res) \<Rightarrow> ptr \<Rightarrow> ptr list \<Rightarrow>
   'a world_scheme \<Rightarrow> 'a world_scheme res" where
  "handleActive run l activeChannels w =
     foldR (\<lambda>c w. handleEvent run c (upd_loop l (\<lambda>lp. lp\<lparr>el_current := Some c\<rparr>) w)) activeChannels w"

text \<open>The body of the \<open>while\<close> loop.\<close>

definition loop_body ::
  "'o os_scheme \<Rightarrow> (callback \<Rightarrow> 'a world_scheme \<Rightarrow> 'a world_scheme res) \<Rightarrow>
   (Functor \<Rightarrow> 'a world_scheme \<Rightarrow> 'a world_scheme res) \<Rightarrow> ptr \<Rightarrow>
   'a world_scheme \<Rightarrow> 'a world_scheme res" where
  "loop_body os run runF l w =
     bindR (poll os l [] (upd_loop l (\<lambda>lp. lp\<lparr>el_active := []\<rparr>) w)) (\<lambda>(activeChannels, w1).
     bindR (handleActive run l activeChannels
              (upd_loop l (\<lambda>lp. lp\<lparr>el_active := activeChannels, el_iteration := el_iteration lp + 1,
                 el_eventHandling := True\<rparr>) w1)) (\<lambda>w2.
       doPendingFunctors runF l
         (upd_loop l (\<lambda>lp. lp\<lparr>el_current := None, el_eventHandling := False\<rparr>) w2)))"

partial_function (option) loop_while ::
  "('a world_scheme \<Rightarrow> 'a world_scheme res) \<Rightarrow> ptr \<Rightarrow> 'a world_scheme \<Rightarrow> 'a world_scheme res option" where
  "loop_while body l w =
     (if el_quit (w_loops w l) then Some (Inr w)
      else case body w of Inl e \<Rightarrow> Some (Inl e) | Inr w' \<Rightarrow> loop_while body l w')"

declare loop_while.simps [code]

definition loop ::
  "'o os_scheme \<Rightarrow> (callback \<Rightarrow> 'a world_scheme \<Rightarrow> 'a world_scheme res) \<Rightarrow>
   (Functor \<Rightarrow> 'a world_scheme \<Rightarrow> 'a world_scheme res) \<Rightarrow> ptr \<Rightarrow>
   'a world_scheme \<Rightarrow> 'a world_scheme res option" where
  "loop os run runF l w =
     (if el_looping (w_loops w l) then Some (Inl AssertFailure)
      else map_option (\<lambda>r. bindR r (\<lambda>w'. Inr (upd_loop l (\<lambda>lp. lp\<lparr>el_looping := False\<rparr>) w')))
             (loop_while (loop_body os run runF l) l
                (upd_loop l (\<lambda>lp. lp\<lparr>el_looping := True, el_quit := False\<rparr>) w)))"

section \<open>Pending functors: lemmas\<close>

lemma wakeup_simps [simp]:
  "w_tid (wakeup os l w) = w_tid w" "w_chans (wakeup os l w) = w_chans w"
  "w_loops (wakeup os l w) = w_loops w" "world.more (wakeup os l w) = world.more w"
  "interest l' (w_trace (wakeup os l w)) = interest l' (w_trace w)"
  by (simp_all add: wakeup_def Let_def)

lemma queueInLoop_simps [simp]:
  "w_tid (queueInLoop os l f w) = w_tid w" "w_chans (queueInLoop os l f w) = w_chans w"
  "w_loops (queueInLoop os l f w) = (w_loops w)(l := (w_loops w l)\<lparr>el_pending := el_pending (w_loops w l) @ [f]\<rparr>)"
  "world.more (queueInLoop os l f w) = world.more w"
  "interest l' (w_trace (queueInLoop os l f w)) = interest l' (w_trace w)"
  by (simp_all add: queueInLoop_def Let_def)

section \<open>Termination of the loop\<close>

fun iterR :: "('w \<Rightarrow> 'w res) \<Rightarrow> nat \<Rightarrow> 'w \<Rightarrow> 'w res" where
  "iterR body 0 w = Inr w"
| "iterR body (Suc n) w = bindR (body w) (iterR body n)"

text \<open>\<open>u\<close> is the first state in which the loop condition is false.\<close>

definition stops_at ::
  "('a world_scheme \<Rightarrow> 'a world_scheme res) \<Rightarrow> ptr \<Rightarrow> 'a world_scheme \<Rightarrow> nat \<Rightarrow> 'a world_scheme \<Rightarrow> bool" where
  "stops_at body l w n u \<longleftrightarrow> iterR body n w = Inr u \<and> el_quit (w_loops u l) \<and>
     (\<forall>m<n. \<forall>v. iterR body m w = Inr v \<longrightarrow> \<not> el_quit (w_loops v l))"

lemma stops_at_0: "stops_at body l w 0 u \<longleftrightarrow> u = w \<and> el_quit (w_loops w l)"
  by (auto simp: stops_at_def)

lemma stops_at_Suc:
  "stops_at body l w (Suc n) u \<longleftrightarrow> \<not> el_quit (w_loops w l) \<and> (\<exists>w'. body w = Inr w' \<and> stops_at body l w' n u)"
  by (cases "body w") (auto simp: stops_at_def less_Suc_eq_0_disj)

lemma loop_while_stops:
  assumes "loop_while body l w = Some (Inr u)"
  shows "\<exists>n. stops_at body l w n u"
proof -
  have "\<forall>u. r = Inr u \<longrightarrow> (\<exists>n. stops_at body l w n u)" if "loop_while body l w = Some r" for r
  proof (rule loop_while.raw_induct
      [where P = "\<lambda>body l w r. \<forall>u. r = Inr u \<longrightarrow> (\<exists>n. stops_at body l w n u)", OF _ that], goal_cases)
    case (1 lw body l w r)
    show ?case
    proof (cases "el_quit (w_loops w l)")
      case True
      with 1(2) have "r = Inr w" by simp
      with True show ?thesis using stops_at_0 [of body l w w] by blast
    next
      case False
      show ?thesis
      proof (cases "body w")
        case (Inr w')
        with 1(1) [of body l w' r] 1(2) False have "\<forall>u. r = Inr u \<longrightarrow> (\<exists>n. stops_at body l w' n u)"
          by simp
        with Inr False show ?thesis using stops_at_Suc [of body l w] by blast
      qed (use 1(2) False in auto)
    qed
  qed
  with assms show ?thesis by blast
qed

lemma stops_loop_while: "stops_at body l w n u \<Longrightarrow> loop_while body l w = Some (Inr u)"
proof (induction n arbitrary: w)
  case 0
  then show ?case by (simp add: stops_at_0 loop_while.simps)
next
  case (Suc n)
  then obtain w' where "\<not> el_quit (w_loops w l)" "body w = Inr w'" "stops_at body l w' n u"
    by (auto simp: stops_at_Suc)
  with Suc.IH show ?case by (subst loop_while.simps) simp
qed

text \<open>
  C28: \<open>EventLoop::loop\<close> returns exactly when some iteration ends with \<open>quit_\<close> set, after the
  first such iteration and with everything that iteration did; a request to quit that was made
  before the call is forgotten, since the call itself clears \<open>quit_\<close>.
\<close>

theorem loop_runs_until_quit:
  "loop os run runF l w = Some (Inr w') \<longleftrightarrow>
     \<not> el_looping (w_loops w l) \<and>
     (\<exists>n u. stops_at (loop_body os run runF l) l
          (upd_loop l (\<lambda>lp. lp\<lparr>el_looping := True, el_quit := False\<rparr>) w) (Suc n) u \<and>
        w' = upd_loop l (\<lambda>lp. lp\<lparr>el_looping := False\<rparr>) u)"
proof -
  let ?w = "upd_loop l (\<lambda>lp. lp\<lparr>el_looping := True, el_quit := False\<rparr>) w"
  let ?lw = "loop_while (loop_body os run runF l) l ?w"
  have "\<not> stops_at (loop_body os run runF l) l ?w 0 u" for u
    by (simp add: stops_at_0)
  then have stop: "?lw = Some (Inr u) \<longleftrightarrow> (\<exists>n. stops_at (loop_body os run runF l) l ?w (Suc n) u)" for u
    using loop_while_stops stops_loop_while by (metis not0_implies_Suc)
  have "loop os run runF l w = Some (Inr w') \<longleftrightarrow> \<not> el_looping (w_loops w l) \<and>
      (\<exists>u. ?lw = Some (Inr u) \<and> w' = upd_loop l (\<lambda>lp. lp\<lparr>el_looping := False\<rparr>) u)"
    by (auto simp: loop_def bindR_eq_Inr)
  then show ?thesis
    unfolding stop by blast
qed

section \<open>Lifecycle\<close>

lemma delete_Channel_ok:
  assumes "w_chans w c = Some ch" "\<not> ch_handling ch" "\<not> ch_added ch" "ch_index ch = kNew"
    and "reactor_inv w"
  shows "delete_Channel c w = Inr (w\<lparr>w_chans := (w_chans w)(c := None)\<rparr>)"
proof -
  have "registry_inv (ch_loop ch) w" using assms(5) by (simp add: reactor_inv_def)
  from registry_inv_new [OF this assms(1,4)] assms show ?thesis
    by (simp add: delete_Channel_def hasChannel_loop_def hasChannel_poller_def)
qed

text \<open>The two halves of the lifecycle; \<open>idle_loop\<close> describes the loop between them.\<close>

definition idle_loop :: "ptr \<Rightarrow> ptr \<Rightarrow> fd \<Rightarrow> 'a world_scheme \<Rightarrow> bool" where
  "idle_loop l c fd w \<longleftrightarrow> reactor_inv w \<and> isInLoopThread l w \<and> interest l (w_trace w) = [fd \<mapsto> (ReadEvent, c)] \<and>
     \<not> el_eventHandling (w_loops w l) \<and> el_wakeupFd (w_loops w l) = fd \<and>
     (\<exists>ch. w_chans w c = Some ch \<and> ch_loop ch = l \<and> ch_fd ch = fd \<and> ch_index ch = kAdded \<and> \<not> ch_handling ch)"

definition loop_unused :: "ptr \<Rightarrow> 'a world_scheme \<Rightarrow> bool" where
  "loop_unused l w \<longleftrightarrow> interest l (w_trace w) = Map.empty \<and>
     (\<forall>d ch. w_chans w d = Some ch \<longrightarrow> ch_loop ch \<noteq> l)"

lemma reactor_inv_reset_loop:
  assumes inv: "reactor_inv w" and unused: "loop_unused l w" and lp: "pl_channels (el_poller lp) = Map.empty"
  shows "reactor_inv (upd_loop l (\<lambda>_. lp) w)"
proof -
  have "registry_inv k (upd_loop l (\<lambda>_. lp) w)" for k
  proof (cases "k = l")
    case True
    then show ?thesis
      using unused lp by (intro registry_inv_intro) (auto simp: loop_unused_def)
  next
    case False
    have "registry_inv k w" using inv by (simp add: reactor_inv_def)
    then show ?thesis by (rule registry_inv_cong) (use False in simp_all)
  qed
  then show ?thesis using inv by (simp add: reactor_inv_def fds_unique_def)
qed

lemma set_events_reactor:
  assumes "epoll_ctl_contract os" and inv: "reactor_inv w" and ch: "w_chans w c = Some ch"
  obtains w' where "set_events os f c w = Inr w'" "reactor_inv w'"
    "w' = updated_world (ch_loop ch) c (ch\<lparr>ch_events := f (ch_events ch), ch_added := True\<rparr>) w"
proof -
  have "registry_inv (ch_loop ch) w" using inv by (simp add: reactor_inv_def)
  from set_events_ok [OF assms(1) this reactor_registrable [OF inv ch]] reactor_inv_updated [OF inv ch] that
  show thesis by blast
qed

lemma mk_EventLoop_ok:
  assumes os: "epoll_ctl_contract os" and inv: "reactor_inv w"
    and fresh: "w_chans w c = None" and unused: "loop_unused l w"
  shows "\<exists>w1. mk_EventLoop os None junk l c fd w = Inr w1 \<and> idle_loop l c fd w1"
proof -
  define ch where "ch = setReadCallback (LoopHandleRead l) (mk_Channel l fd)"
  define lp where "lp = \<lparr>el_looping = False, el_quit = False, el_eventHandling = False,
     el_calling = False, el_iteration = 0, el_threadId = junk, el_poller = mk_Poller,
     el_wakeupFd = fd, el_active = [], el_current = None, el_pending = []\<rparr>"
  define w0 where "w0 = put_chan c ch (upd_loop l (\<lambda>_. lp) w)"
  have ch: "ch_loop ch = l" "ch_fd ch = fd" "ch_index ch = kNew" "ch_events ch = 0" "\<not> ch_handling ch"
    by (simp_all add: ch_def setReadCallback_def mk_Channel_def kNew_def)
  have "reactor_inv (upd_loop l (\<lambda>_. lp) w)"
    by (rule reactor_inv_reset_loop [OF inv unused]) (simp add: lp_def mk_Poller_def)
  then have inv0: "reactor_inv w0" and c0: "w_chans w0 c = Some ch"
    unfolding w0_def using fresh unused ch
    by (auto intro!: reactor_inv_new_channel simp: loop_unused_def)
  from os inv0 c0 obtain w1 where en: "set_events os (\<lambda>e. e OR ReadEvent) c w0 = Inr w1" and inv1: "reactor_inv w1"
    and w1: "w1 = updated_world (ch_loop ch) c (ch\<lparr>ch_events := ch_events ch OR ReadEvent, ch_added := True\<rparr>) w0"
    by (rule set_events_reactor)
  let ?w2 = "upd_loop l (\<lambda>lp. lp\<lparr>el_threadId := w_tid w1\<rparr>) w1"
  have mk: "mk_EventLoop os None junk l c fd w = Inr ?w2"
    using en by (simp add: mk_EventLoop_def Let_def w0_def ch_def lp_def enableReading_def) (simp add: put_chan_def)
  have "reactor_inv ?w2"
    by (rule reactor_inv_cong [OF inv1]) simp_all
  moreover have "interest l (w_trace ?w2) = [fd \<mapsto> (ReadEvent, c)]"
    using unused by (simp add: w1 w0_def loop_unused_def ch update_op_def index_defs)
  ultimately have "idle_loop l c fd ?w2"
    by (simp add: idle_loop_def isInLoopThread_def w1 w0_def lp_def ch next_index_def index_defs)
      (simp add: updated_world_def)
  with mk show ?thesis by blast
qed

lemma delete_EventLoop_ok:
  assumes os: "epoll_ctl_contract os" and idle: "idle_loop l c fd w"
  shows "\<exists>w2. delete_EventLoop os l c w = Inr w2 \<and> reactor_inv w2 \<and> w_chans w2 c = None \<and>
      interest l (w_trace w2) = Map.empty \<and> last (w_trace w2) = SysClose fd"
proof -
  from idle obtain ch where inv: "reactor_inv w" and int: "interest l (w_trace w) = [fd \<mapsto> (ReadEvent, c)]"
    and c: "w_chans w c = Some ch" and ch: "ch_loop ch = l" "ch_fd ch = fd" "ch_index ch = kAdded" "\<not> ch_handling ch"
    and lp: "\<not> el_eventHandling (w_loops w l)" "el_wakeupFd (w_loops w l) = fd"
    by (auto simp: idle_loop_def)
  from os inv c obtain w3 where dis: "set_events os (\<lambda>e. NoneEvent) c w = Inr w3" and inv3: "reactor_inv w3"
    and w3: "w3 = updated_world (ch_loop ch) c (ch\<lparr>ch_events := NoneEvent, ch_added := True\<rparr>) w"
    by (rule set_events_reactor)
  define ch4 where "ch4 = ch\<lparr>ch_events := NoneEvent, ch_added := True, ch_index := kDeleted\<rparr>"
  have c3: "w_chans w3 c = Some ch4"
    by (simp add: w3 ch4_def next_index_def ch isNoneEvent_def NoneEvent_def)
  have ch4: "ch_loop ch4 = l" "ch_fd ch4 = fd" "ch_index ch4 = kDeleted" "isNoneEvent ch4" "\<not> ch_handling ch4"
    by (simp_all add: ch4_def ch isNoneEvent_def NoneEvent_def)
  define w4 where "w4 = removed_world l c (ch4\<lparr>ch_added := False\<rparr>) w3"
  have lp3: "\<not> el_eventHandling (w_loops w3 l)" "el_wakeupFd (w_loops w4 l) = fd"
    by (simp_all add: w4_def w3 lp ch updated_world_def removed_world_def)
  have "registry_inv l w3" using inv3 by (simp add: reactor_inv_def)
  then have rem: "remove_channel os c w3 = Inr w4"
    using remove_channel_ok [OF os _, of l w3 c ch4] reactor_registrable [OF inv3 c3] ch4 lp3
    by (simp add: w4_def index_defs)
  let ?w5 = "log_call (SysClose fd) w4"
  have inv4: "reactor_inv w4"
    using reactor_inv_removed [OF inv3 c3] ch4 by (simp add: w4_def index_defs)
  then have inv5: "reactor_inv ?w5"
    by (rule reactor_inv_cong) simp_all
  have c5: "w_chans ?w5 c = Some (ch4\<lparr>ch_added := False, ch_index := kNew\<rparr>)"
    by (simp add: w4_def)
  have "delete_EventLoop os l c w = Inr (?w5\<lparr>w_chans := (w_chans ?w5)(c := None)\<rparr>)"
    using delete_Channel_ok [OF c5 _ _ _ inv5] ch4 dis
    by (simp add: delete_EventLoop_def disableAll_def rem lp3)
  moreover have "reactor_inv (?w5\<lparr>w_chans := (w_chans ?w5)(c := None)\<rparr>)"
    by (rule reactor_inv_delete [OF inv5 c5]) simp
  moreover have "interest l (w_trace ?w5) = Map.empty"
    by (auto simp: w4_def removed_world_def w3 int ch4_def ch update_op_def isNoneEvent_def
        NoneEvent_def index_defs)
  ultimately show ?thesis by simp
qed

text \<open>
  Constructing an event loop in a thread that has none and destroying it again succeeds
  although \<open>threadId_\<close> is used before it is set: in between the loop belongs to the thread and the
  kernel watches exactly its wake-up descriptor, for input; afterwards the kernel watches nothing,
  the wake-up channel is gone and its descriptor closed.
\<close>

theorem eventloop_lifecycle:
  assumes os: "epoll_ctl_contract os" and inv: "reactor_inv w"
    and fresh: "w_chans w c = None" and unused: "loop_unused l w"
  shows "\<exists>w1 w2. mk_EventLoop os None junk l c fd w = Inr w1 \<and> reactor_inv w1 \<and> isInLoopThread l w1 \<and>
      interest l (w_trace w1) = [fd \<mapsto> (ReadEvent, c)] \<and>
      delete_EventLoop os l c w1 = Inr w2 \<and> reactor_inv w2 \<and> w_chans w2 c = None \<and>
      interest l (w_trace w2) = Map.empty \<and> last (w_trace w2) = SysClose fd"
proof -
  obtain w1 where w1: "mk_EventLoop os None junk l c fd w = Inr w1" "idle_loop l c fd w1"
    using mk_EventLoop_ok [OF os inv fresh unused] by blast
  with delete_EventLoop_ok [OF os w1(2)] show ?thesis
    unfolding idle_loop_def by blast
qed

theorem eventloop_lifecycle_witness:
  "\<exists>w1 w2. mk_EventLoop model_os None 42 1 9 11 model_world = Inr w1 \<and>
      delete_EventLoop model_os 1 9 w1 = Inr w2 \<and> interest 1 (w_trace w2) = Map.empty"
proof -
  have "w_chans model_world 9 = None" "loop_unused 1 model_world"
    by (auto simp: model_defs loop_unused_def interest_def split: if_splits)
  from eventloop_lifecycle [OF model_os_ctl model_world_reactor this] show ?thesis by blast
qed

end
