(* ===== verification/TcpConnection.thy ===== *)
theory TcpConnection
  imports EventLoop Buffer
begin

text \<open>
  \<open>network/TcpConnection.h\<close> and \<open>network/src/TcpConnection.cc\<close>, with the members of \<open>Socket\<close> they
  call. Connections live in a store of their own. The callbacks a user or an owner installs are
  numbers, and the argument \<open>env\<close> says what each of them does; an empty callback throws
  \<open>std::bad_function_call\<close>. The addresses, the name and the context are only stored.
\<close>

section \<open>State\<close>

datatype StateE = kDisconnected | kConnecting | kConnected | kDisconnecting

record tcp_connection =
  tc_loop :: ptr
  tc_name :: string
  tc_state :: StateE
  tc_reading :: bool
  tc_sockfd :: fd
  tc_channel :: ptr
  tc_connectionCb :: "nat option"
  tc_messageCb :: "nat option"
  tc_writeCompleteCb :: "nat option"
  tc_closeCb :: "nat option"
  tc_inputBuffer :: buffer
  tc_outputBuffer :: buffer

record cworld = world +
  cw_conns :: "ptr \<rightharpoonup> tcp_connection"

type_synonym 'a env = "nat \<Rightarrow> ptr \<Rightarrow> 'a cworld_scheme \<Rightarrow> 'a cworld_scheme res"

definition get_conn :: "ptr \<Rightarrow> 'a cworld_scheme \<Rightarrow> tcp_connection res" where
  "get_conn p w = derefR (cw_conns w p)"

definition put_conn :: "ptr \<Rightarrow> tcp_connection \<Rightarrow> 'a cworld_scheme \<Rightarrow> 'a cworld_scheme" where
  "put_conn p c w = w\<lparr>cw_conns := (cw_conns w)(p \<mapsto> c)\<rparr>"

definition upd_conn ::
  "ptr \<Rightarrow> (tcp_connection \<Rightarrow> tcp_connection) \<Rightarrow> 'a cworld_scheme \<Rightarrow> 'a cworld_scheme res" where
  "upd_conn p f w = bindR (get_conn p w) (\<lambda>c. Inr (put_conn p (f c) w))"

definition call_cb :: "'a env \<Rightarrow> nat option \<Rightarrow> ptr \<Rightarrow> 'a cworld_scheme \<Rightarrow> 'a cworld_scheme res" where
  "call_cb env cb p w = (case cb of None \<Rightarrow> Inl BadFunctionCall | Some k \<Rightarrow> env k p w)"

section \<open>TcpConnection.cc\<close>

text \<open>The errors \<open>sendInLoop\<close> tells apart, with their values on Linux.\<close>

definition EWOULDBLOCK :: int where "EWOULDBLOCK = 11"
definition EPIPE :: int where "EPIPE = 32"
definition ECONNRESET :: int where "ECONNRESET = 104"

definition mk_TcpConnection ::
  "ptr \<Rightarrow> ptr \<Rightarrow> ptr \<Rightarrow> string \<Rightarrow> fd \<Rightarrow> 'a cworld_scheme \<Rightarrow> 'a cworld_scheme res" where
  "mk_TcpConnection p channel l nameArg sockfd w =
     bindR (mk_Buffer kInitialSize) (\<lambda>inputBuffer. bindR (mk_Buffer kInitialSize) (\<lambda>outputBuffer.
       let ch = setErrorCallback (ConnHandleError p) (setCloseCallback (ConnHandleClose p)
                  (setWriteCallback (ConnHandleWrite p) (setReadCallback (ConnHandleRead p)
                     (mk_Channel l sockfd)))) in
       Inr (put_conn p
         \<lparr>tc_loop = l, tc_name = nameArg, tc_state = kConnecting, tc_reading = True, tc_sockfd = sockfd,
          tc_channel = channel, tc_connectionCb = None, tc_messageCb = None, tc_writeCompleteCb = None,
          tc_closeCb = None, tc_inputBuffer = inputBuffer, tc_outputBuffer = outputBuffer\<rparr>
         (put_chan channel ch w))))"

text \<open>The destructor, with those of the channel and the socket the connection owns.\<close>

definition delete_TcpConnection :: "ptr \<Rightarrow> 'a cworld_scheme \<Rightarrow> 'a cworld_scheme res" where
  "delete_TcpConnection p w =
     bindR (get_conn p w) (\<lambda>c.
       assertR (tc_state c = kDisconnected)
         (bindR (delete_Channel (tc_channel c) w) (\<lambda>w1.
            Inr ((log_call (SysClose (tc_sockfd c)) w1)\<lparr>cw_conns := (cw_conns w1)(p := None)\<rparr>))))"

definition setState :: "ptr \<Rightarrow> StateE \<Rightarrow> 'a cworld_scheme \<Rightarrow> 'a cworld_scheme res" where
  "setState p s w = upd_conn p (\<lambda>c. c\<lparr>tc_state := s\<rparr>) w"

text \<open>The members of the header that install callbacks.\<close>

definition setConnectionCallback_conn :: "nat option \<Rightarrow> tcp_connection \<Rightarrow> tcp_connection" where
  "setConnectionCallback_conn cb c = c\<lparr>tc_connectionCb := cb\<rparr>"

definition setMessageCallback_conn :: "nat option \<Rightarrow> tcp_connection \<Rightarrow> tcp_connection" where
  "setMessageCallback_conn cb c = c\<lparr>tc_messageCb := cb\<rparr>"

definition setWriteCompleteCallback_conn :: "nat option \<Rightarrow> tcp_connection \<Rightarrow> tcp_connection" where
  "setWriteCompleteCallback_conn cb c = c\<lparr>tc_writeCompleteCb := cb\<rparr>"

definition setCloseCallback_conn :: "nat option \<Rightarrow> tcp_connection \<Rightarrow> tcp_connection" where
  "setCloseCallback_conn cb c = c\<lparr>tc_closeCb := cb\<rparr>"

definition shutdownWrite :: "fd \<Rightarrow> 'a world_scheme \<Rightarrow> 'a world_scheme" where
  "shutdownWrite sockfd w = log_call (SysShutdownWr sockfd) w"

definition queue_writeComplete ::
  "'o os_scheme \<Rightarrow> ptr \<Rightarrow> tcp_connection \<Rightarrow> 'a world_scheme \<Rightarrow> 'a world_scheme" where
  "queue_writeComplete os p c w =
     (case tc_writeCompleteCb c of None \<Rightarrow> w | Some k \<Rightarrow> queueInLoop os (tc_loop c) (F_writeComplete k p) w)"

text \<open>The first attempt of \<open>sendInLoop\<close>: what was written, what remains, and whether the peer is gone.\<close>

definition try_write ::
  "'o os_scheme \<Rightarrow> ptr \<Rightarrow> tcp_connection \<Rightarrow> channel \<Rightarrow> byte list \<Rightarrow> 'a cworld_scheme \<Rightarrow>
   nat \<times> nat \<times> bool \<times> 'a cworld_scheme" where
  "try_write os p c ch data w =
     (let len = length data in
      if \<not> isWriting ch \<and> readableBytes (tc_outputBuffer c) = 0 then
        let (nwrote, errno) = os_write os (w_trace w) (ch_fd ch) data;
            w1 = log_call (SysWrite (ch_fd ch) data nwrote) w in
        if nwrote \<ge> 0 then
          let remaining = szsub len (nat nwrote) in
          (nat nwrote, remaining, False,
           if remaining = 0 then queue_writeComplete os p c w1 else w1)
        else (0, len, errno \<noteq> EWOULDBLOCK \<and> (errno = EPIPE \<or> errno = ECONNRESET), w1)
      else (0, len, False, w))"

definition sendInLoop ::
  "'o os_scheme \<Rightarrow> ptr \<Rightarrow> byte list \<Rightarrow> 'a cworld_scheme \<Rightarrow> 'a cworld_scheme res" where
  "sendInLoop os p data w =
     bindR (get_conn p w) (\<lambda>c. bindR (assertInLoopThread (tc_loop c) w) (\<lambda>w.
       if tc_state c = kDisconnected then Inr w
       else bindR (get_chan (tc_channel c) w) (\<lambda>ch.
         let (nwrote, remaining, faultError, w1) = try_write os p c ch data w in
         if \<not> faultError \<and> remaining > 0 then
           bindR (mem_read data nwrote remaining) (\<lambda>rest.
           bindR (append_buf rest (tc_outputBuffer c)) (\<lambda>b.
           bindR (upd_conn p (\<lambda>c. c\<lparr>tc_outputBuffer := b\<rparr>) w1) (\<lambda>w2.
             if \<not> isWriting ch then enableWriting os (tc_channel c) w2 else Inr w2)))
         else Inr w1)))"

text \<open>\<open>send\<close> takes the bytes out of the caller's buffer and returns it.\<close>

definition send ::
  "'o os_scheme \<Rightarrow> ptr \<Rightarrow> buffer \<Rightarrow> 'a cworld_scheme \<Rightarrow> (buffer \<times> 'a cworld_scheme) res" where
  "send os p buf w =
     bindR (get_conn p w) (\<lambda>c.
       if tc_state c = kConnected then
         if isInLoopThread (tc_loop c) w then
           bindR (peek_mem buf (readableBytes buf)) (\<lambda>data.
           bindR (sendInLoop os p data w) (\<lambda>w1. Inr (retrieveAll buf, w1)))
         else
           bindR (retrieveAllAsString buf) (\<lambda>(str, buf1).
           bindR (runInLoop os (\<lambda>_. sendInLoop os p str) (tc_loop c) (F_sendInLoop p str) w)
             (\<lambda>w1. Inr (buf1, w1)))
       else Inr (buf, w))"

definition shutdownInLoop :: "'o os_scheme \<Rightarrow> ptr \<Rightarrow> 'a cworld_scheme \<Rightarrow> 'a cworld_scheme res" where
  "shutdownInLoop os p w =
     bindR (get_conn p w) (\<lambda>c. bindR (assertInLoopThread (tc_loop c) w) (\<lambda>w.
     bindR (get_chan (tc_channel c) w) (\<lambda>ch.
       if \<not> isWriting ch then Inr (shutdownWrite (tc_sockfd c) w) else Inr w)))"

definition shutdown :: "'o os_scheme \<Rightarrow> ptr \<Rightarrow> 'a cworld_scheme \<Rightarrow> 'a cworld_scheme res" where
  "shutdown os p w =
     bindR (get_conn p w) (\<lambda>c.
       if tc_state c = kConnected then
         bindR (setState p kDisconnecting w) (\<lambda>w1.
           runInLoop os (\<lambda>_. shutdownInLoop os p) (tc_loop c) (F_shutdownInLoop p) w1)
       else Inr w)"

definition forceClose :: "'o os_scheme \<Rightarrow> ptr \<Rightarrow> 'a cworld_scheme \<Rightarrow> 'a cworld_scheme res" where
  "forceClose os p w =
     bindR (get_conn p w) (\<lambda>c.
       if tc_state c = kConnected \<or> tc_state c = kDisconnecting then
         bindR (setState p kDisconnecting w) (\<lambda>w1.
           Inr (queueInLoop os (tc_loop c) (F_forceCloseInLoop p) w1))
       else Inr w)"

definition forceCloseWithDelay :: "ptr \<Rightarrow> 'a cworld_scheme \<Rightarrow> 'a cworld_scheme res" where
  "forceCloseWithDelay p w =
     bindR (get_conn p w) (\<lambda>c.
       if tc_state c = kConnected \<or> tc_state c = kDisconnecting
       then setState p kDisconnecting w else Inr w)"

definition handleError_conn :: "'o os_scheme \<Rightarrow> ptr \<Rightarrow> 'a cworld_scheme \<Rightarrow> 'a cworld_scheme res" where
  "handleError_conn os p w =
     bindR (get_conn p w) (\<lambda>c. bindR (get_chan (tc_channel c) w) (\<lambda>ch.
       Inr (log_call (SysGetSoError (ch_fd ch) (os_so_error os (w_trace w) (ch_fd ch))) w)))"

definition handleClose_conn ::
  "'a env \<Rightarrow> 'o os_scheme \<Rightarrow> ptr \<Rightarrow> 'a cworld_scheme \<Rightarrow> 'a cworld_scheme res" where
  "handleClose_conn env os p w =
     bindR (get_conn p w) (\<lambda>c. bindR (assertInLoopThread (tc_loop c) w) (\<lambda>w.
       assertR (tc_state c = kConnected \<or> tc_state c = kDisconnecting)
         (bindR (setState p kDisconnected w) (\<lambda>w1.
          bindR (disableAll os (tc_channel c) w1) (\<lambda>w2.
          bindR (call_cb env (tc_connectionCb c) p w2) (\<lambda>w3.
          bindR (get_conn p w3) (\<lambda>c3. call_cb env (tc_closeCb c3) p w3)))))))"

definition forceCloseInLoop ::
  "'a env \<Rightarrow> 'o os_scheme \<Rightarrow> ptr \<Rightarrow> 'a cworld_scheme \<Rightarrow> 'a cworld_scheme res" where
  "forceCloseInLoop env os p w =
     bindR (get_conn p w) (\<lambda>c. bindR (assertInLoopThread (tc_loop c) w) (\<lambda>w.
       if tc_state c = kConnected \<or> tc_state c = kDisconnecting
       then handleClose_conn env os p w else Inr w))"

definition startReadInLoop :: "'o os_scheme \<Rightarrow> ptr \<Rightarrow> 'a cworld_scheme \<Rightarrow> 'a cworld_scheme res" where
  "startReadInLoop os p w =
     bindR (get_conn p w) (\<lambda>c. bindR (assertInLoopThread (tc_loop c) w) (\<lambda>w.
     bindR (get_chan (tc_channel c) w) (\<lambda>ch.
       if \<not> tc_reading c \<or> \<not> isReading ch then
         bindR (enableReading os (tc_channel c) w) (upd_conn p (\<lambda>c. c\<lparr>tc_reading := True\<rparr>))
       else Inr w)))"

definition startRead :: "'o os_scheme \<Rightarrow> ptr \<Rightarrow> 'a cworld_scheme \<Rightarrow> 'a cworld_scheme res" where
  "startRead os p w =
     bindR (get_conn p w) (\<lambda>c.
       runInLoop os (\<lambda>_. startReadInLoop os p) (tc_loop c) (F_startReadInLoop p) w)"

definition stopReadInLoop :: "'o os_scheme \<Rightarrow> ptr \<Rightarrow> 'a cworld_scheme \<Rightarrow> 'a cworld_scheme res" where
  "stopReadInLoop os p w =
     bindR (get_conn p w) (\<lambda>c. bindR (assertInLoopThread (tc_loop c) w) (\<lambda>w.
     bindR (get_chan (tc_channel c) w) (\<lambda>ch.
       if tc_reading c \<or> isReading ch then
         bindR (disableReading os (tc_channel c) w) (upd_conn p (\<lambda>c. c\<lparr>tc_reading := False\<rparr>))
       else Inr w)))"

definition stopRead :: "'o os_scheme \<Rightarrow> ptr \<Rightarrow> 'a cworld_scheme \<Rightarrow> 'a cworld_scheme res" where
  "stopRead os p w =
     bindR (get_conn p w) (\<lambda>c.
       runInLoop os (\<lambda>_. stopReadInLoop os p) (tc_loop c) (F_stopReadInLoop p) w)"

definition connectEstablished ::
  "'a env \<Rightarrow> 'o os_scheme \<Rightarrow> ptr \<Rightarrow> 'a cworld_scheme \<Rightarrow> 'a cworld_scheme res" where
  "connectEstablished env os p w =
     bindR (get_conn p w) (\<lambda>c. bindR (assertInLoopThread (tc_loop c) w) (\<lambda>w.
       assertR (tc_state c = kConnecting)
         (bindR (setState p kConnected w) (\<lambda>w1.
          bindR (enableReading os (tc_channel c) w1) (\<lambda>w2. call_cb env (tc_connectionCb c) p w2)))))"

definition connectDestroyed ::
  "'a env \<Rightarrow> 'o os_scheme \<Rightarrow> ptr \<Rightarrow> 'a cworld_scheme \<Rightarrow> 'a cworld_scheme res" where
  "connectDestroyed env os p w =
     bindR (get_conn p w) (\<lambda>c. bindR (assertInLoopThread (tc_loop c) w) (\<lambda>w.
     bindR (if tc_state c = kConnected then
              bindR (setState p kDisconnected w) (\<lambda>w1.
              bindR (disableAll os (tc_channel c) w1) (\<lambda>w2. call_cb env (tc_connectionCb c) p w2))
            else Inr w)
       (\<lambda>w3. remove_channel os (tc_channel c) w3)))"

definition handleRead_conn ::
  "'a env \<Rightarrow> 'o os_scheme \<Rightarrow> ptr \<Rightarrow> 'a cworld_scheme \<Rightarrow> 'a cworld_scheme res" where
  "handleRead_conn env os p w =
     bindR (get_conn p w) (\<lambda>c. bindR (assertInLoopThread (tc_loop c) w) (\<lambda>w.
     bindR (get_chan (tc_channel c) w) (\<lambda>ch.
       let fd = ch_fd ch; vec = iov_lens (tc_inputBuffer c);
           w1 = log_call (SysReadv fd vec (os_readv os (w_trace w) fd vec)) w in
       bindR (readFd (os_readv os (w_trace w) fd) (tc_inputBuffer c)) (\<lambda>(n, savedErrno, b).
       bindR (upd_conn p (\<lambda>c. c\<lparr>tc_inputBuffer := b\<rparr>) w1) (\<lambda>w2.
         if n > 0 then call_cb env (tc_messageCb c) p w2
         else if n = 0 then handleClose_conn env os p w2
         else handleError_conn os p w2)))))"

definition handleWrite_conn :: "'o os_scheme \<Rightarrow> ptr \<Rightarrow> 'a cworld_scheme \<Rightarrow> 'a cworld_scheme res" where
  "handleWrite_conn os p w =
     bindR (get_conn p w) (\<lambda>c. bindR (assertInLoopThread (tc_loop c) w) (\<lambda>w.
     bindR (get_chan (tc_channel c) w) (\<lambda>ch.
       if isWriting ch then
         bindR (peek_mem (tc_outputBuffer c) (readableBytes (tc_outputBuffer c))) (\<lambda>data.
           let n = fst (os_write os (w_trace w) (ch_fd ch) data);
               w1 = log_call (SysWrite (ch_fd ch) data n) w in
           if n > 0 then
             bindR (retrieve (nat n) (tc_outputBuffer c)) (\<lambda>b.
             bindR (upd_conn p (\<lambda>c. c\<lparr>tc_outputBuffer := b\<rparr>) w1) (\<lambda>w2.
               if readableBytes b = 0 then
                 bindR (disableWriting os (tc_channel c) w2) (\<lambda>w3.
                   let w4 = queue_writeComplete os p c w3 in
                   if tc_state c = kDisconnecting then shutdownInLoop os p w4 else Inr w4)
               else Inr w2))
           else Inr w1)
       else Inr w)))"

definition defaultMessageCallback :: "ptr \<Rightarrow> 'a cworld_scheme \<Rightarrow> 'a cworld_scheme res" where
  "defaultMessageCallback p w = upd_conn p (\<lambda>c. c\<lparr>tc_inputBuffer := retrieveAll (tc_inputBuffer c)\<rparr>) w"

section \<open>Dispatch\<close>

text \<open>The callbacks the constructor binds, and the functors that name a connection.\<close>

fun conn_run ::
  "'a env \<Rightarrow> 'o os_scheme \<Rightarrow> (callback \<Rightarrow> 'a cworld_scheme \<Rightarrow> 'a cworld_scheme res) \<Rightarrow> callback \<Rightarrow>
   'a cworld_scheme \<Rightarrow> 'a cworld_scheme res" where
  "conn_run env os other (ConnHandleRead p) w = handleRead_conn env os p w"
| "conn_run env os other (ConnHandleWrite p) w = handleWrite_conn os p w"
| "conn_run env os other (ConnHandleClose p) w = handleClose_conn env os p w"
| "conn_run env os other (ConnHandleError p) w = handleError_conn os p w"
| "conn_run env os other (LoopHandleRead l) w = handleRead_loop os l w"
| "conn_run env os other k w = other k w"

fun conn_runF ::
  "'a env \<Rightarrow> 'o os_scheme \<Rightarrow> (Functor \<Rightarrow> 'a cworld_scheme \<Rightarrow> 'a cworld_scheme res) \<Rightarrow> Functor \<Rightarrow>
   'a cworld_scheme \<Rightarrow> 'a cworld_scheme res" where
  "conn_runF env os other (F_sendInLoop p data) w = sendInLoop os p data w"
| "conn_runF env os other (F_shutdownInLoop p) w = shutdownInLoop os p w"
| "conn_runF env os other (F_forceCloseInLoop p) w = forceCloseInLoop env os p w"
| "conn_runF env os other (F_startReadInLoop p) w = startReadInLoop os p w"
| "conn_runF env os other (F_stopReadInLoop p) w = stopReadInLoop os p w"
| "conn_runF env os other (F_writeComplete k p) w = env k p w"
| "conn_runF env os other (F_connectEstablished p) w = connectEstablished env os p w"
| "conn_runF env os other (F_connectDestroyed p) w = connectDestroyed env os p w"
| "conn_runF env os other f w = other f w"

section \<open>Lemmas: the store of connections\<close>

lemma put_conn_simps [simp, world_simps]:
  "w_tid (put_conn p c w) = w_tid w" "w_chans (put_conn p c w) = w_chans w"
  "w_loops (put_conn p c w) = w_loops w" "w_trace (put_conn p c w) = w_trace w"
  "cw_conns (put_conn p c w) = (cw_conns w)(p \<mapsto> c)"
  by (simp_all add: put_conn_def)

lemma cw_conns_frame [simp, world_simps]:
  "cw_conns (log_call s w) = cw_conns w" "cw_conns (put_chan k ch w) = cw_conns w"
  "cw_conns (upd_loop l f w) = cw_conns w" "cw_conns (updated_world l k ch w) = cw_conns w"
  "cw_conns (removed_world l k ch w) = cw_conns w" "cw_conns (wakeup os l w) = cw_conns w"
  "cw_conns (queueInLoop os l fn w) = cw_conns w" "cw_conns (queue_writeComplete os p c w) = cw_conns w"
  by (simp_all add: log_call_def put_chan_def upd_loop_def updated_world_def removed_world_def wakeup_def
      Let_def queueInLoop_def queue_writeComplete_def split: option.splits)

lemma cworld_more_frame [simp, world_simps]:
  "cworld.more (log_call s w) = cworld.more w" "cworld.more (put_chan k ch w) = cworld.more w"
  "cworld.more (updated_world l k ch w) = cworld.more w" "cworld.more (queueInLoop os l fn w) = cworld.more w"
  "cworld.more (queue_writeComplete os p c w) = cworld.more w" "cworld.more (put_conn p c w) = cworld.more w"
  by (simp_all add: log_call_def put_chan_def upd_loop_def updated_world_def wakeup_def put_conn_def
      Let_def queueInLoop_def queue_writeComplete_def split: option.splits)

lemma queue_writeComplete_simps [simp]:
  "w_tid (queue_writeComplete os p c w) = w_tid w" "w_chans (queue_writeComplete os p c w) = w_chans w"
  "chan_map l (queue_writeComplete os p c w) = chan_map l w"
  "interest l (w_trace (queue_writeComplete os p c w)) = interest l (w_trace w)"
  by (simp_all add: queue_writeComplete_def split: option.splits)

lemma get_conn_Some [simp]: "cw_conns w p = Some c \<Longrightarrow> get_conn p w = Inr c"
  by (simp add: get_conn_def)

lemma get_conn_None [simp]: "cw_conns w p = None \<Longrightarrow> get_conn p w = Inl NullPointer"
  by (simp add: get_conn_def)

lemma upd_conn_Some [simp]: "cw_conns w p = Some c \<Longrightarrow> upd_conn p f w = Inr (put_conn p (f c) w)"
  by (simp add: upd_conn_def)

lemma setState_Some [simp]: "cw_conns w p = Some c \<Longrightarrow> setState p s w = Inr (put_conn p (c\<lparr>tc_state := s\<rparr>) w)"
  by (simp add: setState_def)

section \<open>The invariant\<close>

text \<open>
  A connection and its channel belong together; the kernel is asked to report writability exactly
  while there is output, and a connection that is not up has no events.
\<close>

definition state_ok :: "tcp_connection \<Rightarrow> channel \<Rightarrow> bool" where
  "state_ok c ch \<longleftrightarrow> (case tc_state c of
     kConnecting \<Rightarrow> ch_index ch = kNew \<and> ch_events ch = 0 \<and> content (tc_outputBuffer c) = []
   | kDisconnected \<Rightarrow> ch_events ch = 0
   | _ \<Rightarrow> ch_index ch \<noteq> kNew \<and> (isWriting ch \<longleftrightarrow> content (tc_outputBuffer c) \<noteq> []))"

definition plain_events :: "32 word \<Rightarrow> bool" where
  "plain_events e \<longleftrightarrow> e AND NOT (ReadEvent OR WriteEvent) = 0"

definition linked :: "ptr \<Rightarrow> tcp_connection \<Rightarrow> channel \<Rightarrow> bool" where
  "linked p c ch \<longleftrightarrow> ch_loop ch = tc_loop c \<and> ch_fd ch = tc_sockfd c \<and>
     ch_readCb ch = Some (ConnHandleRead p) \<and> ch_writeCb ch = Some (ConnHandleWrite p) \<and>
     ch_closeCb ch = Some (ConnHandleClose p) \<and> ch_errorCb ch = Some (ConnHandleError p) \<and>
     plain_events (ch_events ch)"

definition conn_ok :: "ptr \<Rightarrow> tcp_connection \<Rightarrow> 'a cworld_scheme \<Rightarrow> bool" where
  "conn_ok p c w \<longleftrightarrow> buffer_inv (tc_inputBuffer c) \<and> buffer_inv (tc_outputBuffer c) \<and>
     (\<exists>ch. w_chans w (tc_channel c) = Some ch \<and> linked p c ch \<and> state_ok c ch)"

definition conns_inv :: "'a cworld_scheme \<Rightarrow> bool" where
  "conns_inv w \<longleftrightarrow> reactor_inv w \<and> (\<forall>p c. cw_conns w p = Some c \<longrightarrow> conn_ok p c w)"

lemma conns_invE:
  assumes "conns_inv w" and "cw_conns w p = Some c"
  obtains ch where "reactor_inv w" "w_chans w (tc_channel c) = Some ch" "linked p c ch" "state_ok c ch"
    "buffer_inv (tc_inputBuffer c)" "buffer_inv (tc_outputBuffer c)"
  using assms by (auto simp: conns_inv_def conn_ok_def)

lemma conns_inv_cong:
  assumes "conns_inv w" "w_chans w' = w_chans w" "cw_conns w' = cw_conns w"
    and "\<And>l. chan_map l w' = chan_map l w" "\<And>l. interest l (w_trace w') = interest l (w_trace w)"
  shows "conns_inv w'"
  using assms reactor_inv_cong [of w w'] by (simp add: conns_inv_def conn_ok_def)

lemma conns_inv_log [simp]:
  "(\<And>l m. ctl_effect l s m = m) \<Longrightarrow> conns_inv w \<Longrightarrow> conns_inv (log_call s w)"
  by (erule conns_inv_cong) simp_all

lemma conns_inv_queue [simp]: "conns_inv w \<Longrightarrow> conns_inv (queueInLoop os l fn w)"
  by (erule conns_inv_cong) simp_all

lemma conns_inv_writeComplete [simp]: "conns_inv w \<Longrightarrow> conns_inv (queue_writeComplete os p c w)"
  by (erule conns_inv_cong) simp_all

lemma conns_inv_put_conn:
  assumes "conns_inv w" and "conn_ok p c w"
  shows "conns_inv (put_conn p c w)"
proof -
  have "reactor_inv (put_conn p c w)"
    using assms(1) reactor_inv_cong [of w "put_conn p c w"] by (simp add: conns_inv_def)
  with assms show ?thesis by (auto simp: conns_inv_def conn_ok_def)
qed

lemma conns_inv_input:
  assumes "conns_inv w" "cw_conns w p = Some c" "buffer_inv b"
  shows "conns_inv (put_conn p (c\<lparr>tc_inputBuffer := b\<rparr>) w)"
proof (rule conns_inv_put_conn [OF assms(1)])
  have "conn_ok p c w" using assms(1,2) by (simp add: conns_inv_def)
  then show "conn_ok p (c\<lparr>tc_inputBuffer := b\<rparr>) w"
    using assms(3) by (auto simp: conn_ok_def linked_def state_ok_def split: StateE.splits)
qed

text \<open>A connection changes together with the events of its channel.\<close>

lemma conns_inv_events:
  assumes os: "epoll_ctl_contract os" and inv: "conns_inv w" and p: "cw_conns w p = Some c"
    and ch: "w_chans w (tc_channel c) = Some ch"
    and same: "tc_channel c' = tc_channel c" "tc_loop c' = tc_loop c" "tc_sockfd c' = tc_sockfd c"
    and bufs: "buffer_inv (tc_inputBuffer c')" "buffer_inv (tc_outputBuffer c')"
    and mask: "plain_events (f (ch_events ch))"
    and state: "\<And>i. i \<noteq> kNew \<Longrightarrow>
      state_ok c' (ch\<lparr>ch_events := f (ch_events ch), ch_added := True, ch_index := i\<rparr>)"
  obtains w' where "set_events os f (tc_channel c) (put_conn p c' w) = Inr w'" "conns_inv w'"
    "w' = updated_world (tc_loop c) (tc_channel c)
       (ch\<lparr>ch_events := f (ch_events ch), ch_added := True\<rparr>) (put_conn p c' w)"
proof -
  let ?w = "put_conn p c' w" and ?ch = "ch\<lparr>ch_events := f (ch_events ch), ch_added := True\<rparr>"
  let ?w' = "updated_world (tc_loop c) (tc_channel c) ?ch ?w"
  from inv p have link: "linked p c ch" and rinv: "reactor_inv w"
    using ch conns_invE [OF inv p] by (metis option.inject)+
  then have l: "ch_loop ch = tc_loop c" by (simp add: linked_def)
  have inv1: "reactor_inv ?w"
    using rinv by (rule reactor_inv_cong) simp_all
  have ch1: "w_chans ?w (tc_channel c) = Some ch" using ch by simp
  from os inv1 ch1 obtain u where u: "set_events os f (tc_channel c) ?w = Inr u" "reactor_inv u"
    "u = updated_world (ch_loop ch) (tc_channel c) ?ch ?w"
    by (rule set_events_reactor)
  then have set: "set_events os f (tc_channel c) ?w = Inr ?w'" and inv': "reactor_inv ?w'"
    by (simp_all add: l)
  have ni: "next_index ?ch \<noteq> kNew" by (simp add: next_index_def index_defs)
  have ch': "w_chans ?w' (tc_channel c) = Some (?ch\<lparr>ch_index := next_index ?ch\<rparr>)" by simp
  have "conn_ok q d ?w'" if "cw_conns ?w' q = Some d" for q d
  proof (cases "q = p")
    case True
    with that have "d = c'" by simp
    moreover have "linked p c' (?ch\<lparr>ch_index := next_index ?ch\<rparr>)"
      using link same mask by (simp add: linked_def)
    ultimately show ?thesis
      using True bufs same state [OF ni] by (auto simp: conn_ok_def)
  next
    case False
    with that have "cw_conns w q = Some d" by simp
    with inv have "conn_ok q d w" by (simp add: conns_inv_def)
    then obtain dh where dh: "w_chans w (tc_channel d) = Some dh" "linked q d dh" "state_ok d dh"
      "buffer_inv (tc_inputBuffer d)" "buffer_inv (tc_outputBuffer d)" by (auto simp: conn_ok_def)
    with False link ch have "tc_channel d \<noteq> tc_channel c" by (auto simp: linked_def)
    with dh show ?thesis by (auto simp: conn_ok_def)
  qed
  with inv' set that show thesis by (simp add: conns_inv_def)
qed

section \<open>How operations change the world\<close>

text \<open>
  What no operation of a connection changes in it, in a channel and in a loop. The message callback
  may be replaced but not removed.
\<close>

definition conn_frame :: "tcp_connection \<Rightarrow> _" where
  "conn_frame c = (tc_loop c, tc_name c, tc_sockfd c, tc_channel c, tc_connectionCb c,
     tc_messageCb c \<noteq> None, tc_writeCompleteCb c, tc_closeCb c)"

definition chan_frame :: "channel \<Rightarrow> _" where
  "chan_frame ch = (ch_loop ch, ch_fd ch, ch_revents ch, ch_readCb ch, ch_writeCb ch,
     ch_closeCb ch, ch_errorCb ch)"

definition loop_frame :: "eventloop \<Rightarrow> _" where
  "loop_frame lp = (el_looping lp, el_eventHandling lp, el_calling lp, el_threadId lp, el_wakeupFd lp,
     el_active lp, el_current lp)"

definition evolves ::
  "(StateE \<Rightarrow> StateE \<Rightarrow> bool) \<Rightarrow> 'a cworld_scheme \<Rightarrow> 'a cworld_scheme \<Rightarrow> bool" where
  "evolves R w w' \<longleftrightarrow> w_tid w' = w_tid w \<and> (\<forall>l. loop_frame (w_loops w' l) = loop_frame (w_loops w l)) \<and>
     (\<forall>k. map_option chan_frame (w_chans w' k) = map_option chan_frame (w_chans w k)) \<and>
     (\<forall>p. cw_conns w' p = None \<longleftrightarrow> cw_conns w p = None) \<and>
     (\<forall>p c c'. cw_conns w p = Some c \<longrightarrow> cw_conns w' p = Some c' \<longrightarrow>
        conn_frame c' = conn_frame c \<and> R (tc_state c) (tc_state c'))"

text \<open>
  The order of the states: an operation may only move a connection forward; what users call moves
  it at most from connected to disconnecting.
\<close>

fun rank :: "StateE \<Rightarrow> nat" where
  "rank kConnecting = 0" | "rank kConnected = 1" | "rank kDisconnecting = 2" | "rank kDisconnected = 3"

definition forward :: "StateE \<Rightarrow> StateE \<Rightarrow> bool" where
  "forward s s' \<longleftrightarrow> rank s \<le> rank s'"

definition user_forward :: "StateE \<Rightarrow> StateE \<Rightarrow> bool" where
  "user_forward s s' \<longleftrightarrow> s' = s \<or> s = kConnected \<and> s' = kDisconnecting"

definition order_rel :: "(StateE \<Rightarrow> StateE \<Rightarrow> bool) \<Rightarrow> bool" where
  "order_rel R \<longleftrightarrow> (\<forall>s. R s s) \<and> (\<forall>a b c. R a b \<longrightarrow> R b c \<longrightarrow> R a c)"

lemma order_forward [simp]: "order_rel forward" "order_rel user_forward"
  by (auto simp: order_rel_def forward_def user_forward_def)

lemma rank_le [simp]: "rank s \<le> 3"
  by (cases s) simp_all

lemma user_forward_forward: "user_forward s s' \<Longrightarrow> forward s s'"
  by (auto simp: user_forward_def forward_def)

lemma evolves_refl [simp]: "order_rel R \<Longrightarrow> evolves R w w"
  by (auto simp: evolves_def order_rel_def)

lemma evolves_conn:
  assumes "evolves R w w'" "cw_conns w p = Some c"
  obtains c' where "cw_conns w' p = Some c'" "conn_frame c' = conn_frame c" "R (tc_state c) (tc_state c')"
proof -
  from assms obtain c' where "cw_conns w' p = Some c'"
    unfolding evolves_def by (metis not_None_eq)
  with assms that show thesis unfolding evolves_def by blast
qed

lemma evolves_trans:
  assumes "order_rel R" "evolves R u v" "evolves R v w"
  shows "evolves R u w"
proof -
  have "conn_frame c'' = conn_frame c \<and> R (tc_state c) (tc_state c'')"
    if c: "cw_conns u p = Some c" and c'': "cw_conns w p = Some c''" for p c c''
  proof -
    from assms(2) c obtain c' where c': "cw_conns v p = Some c'" "conn_frame c' = conn_frame c" "R (tc_state c) (tc_state c')"
      by (rule evolves_conn)
    have "conn_frame c'' = conn_frame c' \<and> R (tc_state c') (tc_state c'')"
      using assms(3) c'(1) c'' unfolding evolves_def by blast
    with c'(2,3) assms(1) show ?thesis unfolding order_rel_def by metis
  qed
  then show ?thesis using assms(2,3) by (simp add: evolves_def)
qed

lemma evolves_weaken: "evolves user_forward w w' \<Longrightarrow> evolves forward w w'"
  unfolding evolves_def using user_forward_forward by blast

text \<open>Updates that are steps of this kind.\<close>

lemma evolves_neutral:
  assumes "order_rel R" "w_tid w' = w_tid w" "w_chans w' = w_chans w" "cw_conns w' = cw_conns w"
    "\<And>l. loop_frame (w_loops w' l) = loop_frame (w_loops w l)"
  shows "evolves R w w'"
  using assms by (simp add: evolves_def order_rel_def)

lemma evolves_log [simp]: "order_rel R \<Longrightarrow> evolves R w (log_call s w)"
  by (rule evolves_neutral) simp_all

lemma evolves_queue [simp]: "order_rel R \<Longrightarrow> evolves R w (queueInLoop os l fn w)"
  by (rule evolves_neutral) (simp_all add: loop_frame_def)

lemma evolves_writeComplete [simp]: "order_rel R \<Longrightarrow> evolves R w (queue_writeComplete os p c w)"
  by (simp add: queue_writeComplete_def split: option.splits)

lemma evolves_put_conn:
  assumes "order_rel R" "cw_conns w p = Some c" "conn_frame c' = conn_frame c" "R (tc_state c) (tc_state c')"
  shows "evolves R w (put_conn p c' w)"
  using assms by (simp add: evolves_def order_rel_def)

lemma evolves_updated:
  assumes "order_rel R" "w_chans w k = Some ch" "chan_frame ch' = chan_frame ch"
  shows "evolves R w (updated_world l k ch' w)"
  using assms by (simp add: evolves_def order_rel_def chan_frame_def loop_frame_def updated_world_def)

section \<open>Outcomes\<close>

text \<open>
  An operation is safe when it ends in a good world it evolved to, or stops because a buffer would
  exceed the largest size of a vector: it fails no assertion and uses no invalid pointer.
\<close>

definition safe ::
  "(StateE \<Rightarrow> StateE \<Rightarrow> bool) \<Rightarrow> 'a cworld_scheme \<Rightarrow> 'a cworld_scheme res \<Rightarrow> bool" where
  "safe R w r \<longleftrightarrow> r = Inl LengthError \<or> (\<exists>w'. r = Inr w' \<and> conns_inv w' \<and> evolves R w w')"

lemma safe_Inr: "conns_inv w' \<Longrightarrow> evolves R w w' \<Longrightarrow> safe R w (Inr w')"
  by (simp add: safe_def)

lemma safe_bindR:
  assumes "order_rel R" "safe R w m" "\<And>w'. conns_inv w' \<Longrightarrow> evolves R w w' \<Longrightarrow> safe R w' (f w')"
  shows "safe R w (bindR m f)"
  using assms evolves_trans by (fastforce simp: safe_def)

lemma safe_after:
  assumes "order_rel R" "evolves R w u" "safe R u r"
  shows "safe R w r"
  using assms evolves_trans by (fastforce simp: safe_def)

lemma safe_weaken: "safe user_forward w r \<Longrightarrow> safe forward w r"
  by (auto simp: safe_def dest: evolves_weaken)

section \<open>The byte stream\<close>

text \<open>What the kernel took over for a descriptor, according to the recorded calls of \<open>write\<close>.\<close>

fun wr_effect :: "fd \<Rightarrow> syscall \<Rightarrow> byte list" where
  "wr_effect fd (SysWrite fd' d n) = (if fd' = fd \<and> 0 < n then take (nat n) d else [])"
| "wr_effect fd _ = []"

definition written :: "fd \<Rightarrow> syscall list \<Rightarrow> byte list" where
  "written fd tr = concat (map (wr_effect fd) tr)"

text \<open>The stream of a connection: what was written, followed by what waits in the output buffer.\<close>

definition stream :: "ptr \<Rightarrow> 'a cworld_scheme \<Rightarrow> byte list" where
  "stream p w = (case cw_conns w p of None \<Rightarrow> []
     | Some c \<Rightarrow> written (tc_sockfd c) (w_trace w) @ content (tc_outputBuffer c))"

lemma written_append [simp]: "written fd (tr @ [s]) = written fd tr @ wr_effect fd s"
  by (simp add: written_def)

lemma written_queueInLoop [simp]:
  "fd \<noteq> el_wakeupFd (w_loops w l) \<Longrightarrow> written fd (w_trace (queueInLoop os l fn w)) = written fd (w_trace w)"
  by (simp add: queueInLoop_def Let_def wakeup_def)

lemma written_writeComplete [simp]:
  "fd \<noteq> el_wakeupFd (w_loops w (tc_loop c)) \<Longrightarrow>
   written fd (w_trace (queue_writeComplete os p c w)) = written fd (w_trace w)"
  by (simp add: queue_writeComplete_def split: option.splits)

text \<open>
  The contract of \<open>write\<close>: it takes over at most what it is given. \<open>peer_alive\<close> says that it does not
  fail because the connection is broken.
\<close>

definition write_contract :: "'o os_scheme \<Rightarrow> bool" where
  "write_contract os \<longleftrightarrow> (\<forall>tr fd bs. fst (os_write os tr fd bs) \<le> int (length bs))"

definition peer_alive :: "'o os_scheme \<Rightarrow> bool" where
  "peer_alive os \<longleftrightarrow> (\<forall>tr fd bs. fst (os_write os tr fd bs) < 0 \<longrightarrow>
     snd (os_write os tr fd bs) \<noteq> EPIPE \<and> snd (os_write os tr fd bs) \<noteq> ECONNRESET)"

section \<open>sendInLoop\<close>

lemma isWriting_enable: "ch_events ch = e OR WriteEvent \<Longrightarrow> isWriting ch"
  by (simp add: isWriting_bit bit_or_iff)

lemma isWriting_disable: "ch_events ch = e AND NOT WriteEvent \<Longrightarrow> \<not> isWriting ch"
  by (simp add: isWriting_bit bit_and_iff bit_not_iff)

lemma plain_events_simps [simp]:
  "plain_events e \<Longrightarrow> plain_events (e OR WriteEvent)" "plain_events e \<Longrightarrow> plain_events (e OR ReadEvent)"
  "plain_events e \<Longrightarrow> plain_events (e AND x)" "plain_events NoneEvent"
  by (auto simp: plain_events_def bit_eq_iff bit_simps NoneEvent_def)

text \<open>Appending to an idle connection's output and asking for writability.\<close>

definition up :: "tcp_connection \<Rightarrow> bool" where
  "up c \<longleftrightarrow> tc_state c = kConnected \<or> tc_state c = kDisconnecting"

lemma state_ok_up: "up c \<Longrightarrow> state_ok c ch \<longleftrightarrow> ch_index ch \<noteq> kNew \<and> (isWriting ch \<longleftrightarrow> content (tc_outputBuffer c) \<noteq> [])"
  by (auto simp: up_def state_ok_def)

definition append_output ::
  "'o os_scheme \<Rightarrow> ptr \<Rightarrow> tcp_connection \<Rightarrow> channel \<Rightarrow> byte list \<Rightarrow> 'a cworld_scheme \<Rightarrow> 'a cworld_scheme res" where
  "append_output os p c ch rest w =
     bindR (append_buf rest (tc_outputBuffer c)) (\<lambda>b.
     bindR (upd_conn p (\<lambda>c. c\<lparr>tc_outputBuffer := b\<rparr>) w) (\<lambda>w2.
       if \<not> isWriting ch then enableWriting os (tc_channel c) w2 else Inr w2))"

lemma append_output_effect:
  assumes os: "epoll_ctl_contract os" and inv: "conns_inv w" and p: "cw_conns w p = Some c" and up: "up c"
    and ch: "w_chans w (tc_channel c) = Some ch" and rest: "rest \<noteq> []" "length rest \<le> max_size"
  shows "append_output os p c ch rest w = Inl LengthError \<or>
    (\<exists>w'. append_output os p c ch rest w = Inr w' \<and> conns_inv w' \<and> evolves user_forward w w' \<and>
       stream p w' = stream p w @ rest \<and>
       (\<exists>b. cw_conns w' = (cw_conns w)(p \<mapsto> c\<lparr>tc_outputBuffer := b\<rparr>)) \<and> cworld.more w' = cworld.more w)"
proof -
  from conns_invE [OF inv p] ch have l: "linked p c ch" and st: "state_ok c ch"
    and bi: "buffer_inv (tc_inputBuffer c)" and bo: "buffer_inv (tc_outputBuffer c)"
    by (metis option.inject)+
  from append_buf_outcome [OF bo rest(2)] consider
      (err) "append_buf rest (tc_outputBuffer c) = Inl LengthError"
    | (ok) b where "append_buf rest (tc_outputBuffer c) = Inr b" "buffer_inv b"
        "content b = content (tc_outputBuffer c) @ rest" by blast
  then show ?thesis
  proof cases
    case err
    then show ?thesis by (simp add: append_output_def)
  next
    case ok
    let ?c = "c\<lparr>tc_outputBuffer := b\<rparr>"
    have frame: "evolves user_forward w (put_conn p ?c w)"
      by (rule evolves_put_conn [OF _ p]) (simp_all add: conn_frame_def user_forward_def)
    have str: "stream p (put_conn p ?c w) = stream p w @ rest"
      using p ok by (simp add: stream_def)
    show ?thesis
    proof (cases "isWriting ch")
      case True
      have "conn_ok p ?c w"
        using ch l st ok bi True up rest by (auto simp: conn_ok_def linked_def state_ok_def up_def)
      with conns_inv_put_conn [OF inv] have "conns_inv (put_conn p ?c w)" by blast
      with True ok p frame str show ?thesis by (auto simp: append_output_def)
    next
      case False
      have "state_ok ?c (ch\<lparr>ch_events := ch_events ch OR WriteEvent, ch_added := True, ch_index := i\<rparr>)"
        if "i \<noteq> kNew" for i
        using that up ok rest by (subst state_ok_up) (auto simp: up_def isWriting_bit bit_or_iff)
      moreover have "plain_events (ch_events ch OR WriteEvent)"
        using l by (simp add: linked_def)
      ultimately obtain w' where w': "set_events os (\<lambda>e. e OR WriteEvent) (tc_channel c) (put_conn p ?c w) = Inr w'"
        "conns_inv w'" "w' = updated_world (tc_loop c) (tc_channel c)
          (ch\<lparr>ch_events := ch_events ch OR WriteEvent, ch_added := True\<rparr>) (put_conn p ?c w)"
        using conns_inv_events [OF os inv p ch, of ?c "\<lambda>e. e OR WriteEvent"] ok bi by auto
      have "evolves user_forward (put_conn p ?c w) w'"
        unfolding w'(3) by (rule evolves_updated [where ch = ch]) (simp_all add: ch chan_frame_def)
      with frame have "evolves user_forward w w'"
        using evolves_trans order_forward(2) by blast
      moreover have "stream p w' = stream p w @ rest"
        using str by (simp add: w'(3) stream_def)
      moreover have "\<exists>b. cw_conns w' = (cw_conns w)(p \<mapsto> c\<lparr>tc_outputBuffer := b\<rparr>)" "cworld.more w' = cworld.more w"
        by (auto simp: w'(3))
      ultimately show ?thesis
        using w' False ok p by (simp add: append_output_def enableWriting_def)
    qed
  qed
qed

lemma try_write_effect:
  assumes wc: "write_contract os" and inv: "conns_inv w" and p: "cw_conns w p = Some c" and up: "up c"
    and ch: "w_chans w (tc_channel c) = Some ch" and small: "length data \<le> max_size"
  obtains k fault w1 where "try_write os p c ch data w = (k, length data - k, fault, w1)" "k \<le> length data"
    "conns_inv w1" "evolves user_forward w w1" "cw_conns w1 = cw_conns w" "w_chans w1 = w_chans w" "cworld.more w1 = cworld.more w"
    "peer_alive os \<Longrightarrow> \<not> fault"
    "tc_sockfd c \<noteq> el_wakeupFd (w_loops w (tc_loop c)) \<Longrightarrow> \<not> fault \<Longrightarrow> stream p w1 = stream p w @ take k data"
proof (cases "\<not> isWriting ch \<and> readableBytes (tc_outputBuffer c) = 0")
  case False
  then show ?thesis
    by (intro that [of 0 False w]) (auto simp: try_write_def Let_def inv)
next
  case True
  from conns_invE [OF inv p] ch have l: "linked p c ch" and bo: "buffer_inv (tc_outputBuffer c)"
    by (metis option.inject)+
  have empty: "content (tc_outputBuffer c) = []"
    using True length_content [OF bo] by simp
  obtain n e where ne: "os_write os (w_trace w) (ch_fd ch) data = (n, e)" by force
  have n: "n \<le> int (length data)" using wc ne unfolding write_contract_def by (metis fst_conv)
  let ?w = "log_call (SysWrite (ch_fd ch) data n) w"
  have invw: "conns_inv ?w" using inv by simp
  have str: "stream p ?w = stream p w @ (if 0 < n then take (nat n) data else [])"
    using p empty l by (simp add: stream_def linked_def)
  show ?thesis
  proof (cases "0 \<le> n")
    case False
    let ?fault = "e \<noteq> EWOULDBLOCK \<and> (e = EPIPE \<or> e = ECONNRESET)"
    have alive: "peer_alive os \<Longrightarrow> \<not> ?fault"
      using False ne unfolding peer_alive_def by (metis fst_conv snd_conv not_le)
    from False True ne have "try_write os p c ch data w = (0, length data - 0, ?fault, ?w)"
      by (simp add: try_write_def)
    then show ?thesis
      by (rule that) (use alive invw str False in simp_all)
  next
    case pos: True
    have rem: "szsub (length data) (nat n) = length data - nat n"
      using n small by (intro szsub_le) (auto simp: max_size_def)
    define w1 where "w1 = (if length data - nat n = 0 then queue_writeComplete os p c ?w else ?w)"
    have eq: "try_write os p c ch data w = (nat n, length data - nat n, False, w1)"
      using True pos ne by (simp add: try_write_def rem Let_def w1_def)
    have ev: "evolves user_forward w w1"
      by (simp add: w1_def evolves_trans [OF order_forward(2) evolves_log evolves_writeComplete])
    have str1: "stream p w1 = stream p w @ take (nat n) data" if "tc_sockfd c \<noteq> el_wakeupFd (w_loops w (tc_loop c))"
      using str that p pos by (cases "n = 0") (auto simp: w1_def stream_def)
    show ?thesis
      by (rule that [OF eq]) (use n invw ev str1 in \<open>auto simp: w1_def\<close>)
  qed
qed

lemma sendInLoop_effect:
  assumes os: "epoll_ctl_contract os" "write_contract os" and inv: "conns_inv w"
    and p: "cw_conns w p = Some c" and up: "up c" and small: "length data \<le> max_size"
  shows "sendInLoop os p data w = Inl LengthError \<or>
    (\<exists>w'. sendInLoop os p data w = Inr w' \<and> conns_inv w' \<and> evolves user_forward w w' \<and>
       (peer_alive os \<and> tc_sockfd c \<noteq> el_wakeupFd (w_loops w (tc_loop c)) \<longrightarrow>
          stream p w' = stream p w @ data) \<and>
       (\<exists>b. cw_conns w' = (cw_conns w)(p \<mapsto> c\<lparr>tc_outputBuffer := b\<rparr>)) \<and> cworld.more w' = cworld.more w)"
proof -
  from inv p obtain ch where ch: "w_chans w (tc_channel c) = Some ch" by (rule conns_invE)
  obtain k fault w1 where tw: "try_write os p c ch data w = (k, length data - k, fault, w1)" "k \<le> length data"
    and w1: "conns_inv w1" "evolves user_forward w w1" "cw_conns w1 = cw_conns w" "w_chans w1 = w_chans w"
      "cworld.more w1 = cworld.more w"
    and alive: "peer_alive os \<Longrightarrow> \<not> fault"
    and str: "tc_sockfd c \<noteq> el_wakeupFd (w_loops w (tc_loop c)) \<Longrightarrow> \<not> fault \<Longrightarrow> stream p w1 = stream p w @ take k data"
    using try_write_effect [OF os(2) inv p up ch small] by blast
  have eq: "sendInLoop os p data w = (if \<not> fault \<and> length data - k > 0
      then append_output os p c ch (drop k data) w1 else Inr w1)"
    using p ch up tw by (auto simp: sendInLoop_def append_output_def up_def)
  show ?thesis
  proof (cases "\<not> fault \<and> length data - k > 0")
    case False
    have "\<exists>b. cw_conns w1 = (cw_conns w)(p \<mapsto> c\<lparr>tc_outputBuffer := b\<rparr>)"
      using w1(3) p by (intro exI [of _ "tc_outputBuffer c"]) (simp add: map_upd_triv)
    moreover have "peer_alive os \<and> tc_sockfd c \<noteq> el_wakeupFd (w_loops w (tc_loop c)) \<longrightarrow> stream p w1 = stream p w @ data"
      using alive str tw(2) False by auto
    moreover have "sendInLoop os p data w = Inr w1" using eq False by (auto simp: if_not_P)
    ultimately show ?thesis using w1(1,2,5) by simp
  next
    case True
    have p1: "cw_conns w1 p = Some c" and ch1: "w_chans w1 (tc_channel c) = Some ch"
      using w1 p ch by simp_all
    have "append_output os p c ch (drop k data) w1 = Inl LengthError \<or>
      (\<exists>w'. append_output os p c ch (drop k data) w1 = Inr w' \<and> conns_inv w' \<and> evolves user_forward w1 w' \<and>
         stream p w' = stream p w1 @ drop k data \<and>
         (\<exists>b. cw_conns w' = (cw_conns w1)(p \<mapsto> c\<lparr>tc_outputBuffer := b\<rparr>)) \<and> cworld.more w' = cworld.more w1)"
      by (rule append_output_effect [OF os(1) w1(1) p1 up ch1]) (use True small in auto)
    with True eq w1(2,3,5) str show ?thesis
      using evolves_trans [OF order_forward(2) w1(2)] by auto
  qed
qed

section \<open>What users call\<close>

text \<open>The descriptor of the connection is not the wake-up descriptor of its loop.\<close>

definition own_fd :: "ptr \<Rightarrow> 'a cworld_scheme \<Rightarrow> bool" where
  "own_fd p w \<longleftrightarrow> (\<forall>c. cw_conns w p = Some c \<longrightarrow> tc_sockfd c \<noteq> el_wakeupFd (w_loops w (tc_loop c)))"

lemma own_fd_evolves: "evolves R w w' \<Longrightarrow> own_fd p w \<Longrightarrow> own_fd p w'"
  unfolding own_fd_def
proof (intro allI impI)
  fix c' assume ev: "evolves R w w'" and own: "\<forall>c. cw_conns w p = Some c \<longrightarrow> tc_sockfd c \<noteq> el_wakeupFd (w_loops w (tc_loop c))"
    and c': "cw_conns w' p = Some c'"
  then obtain c where "cw_conns w p = Some c" "conn_frame c' = conn_frame c"
    unfolding evolves_def by (metis option.exhaust option.distinct(1))
  moreover have "loop_frame (w_loops w' (tc_loop c)) = loop_frame (w_loops w (tc_loop c))"
    using ev by (simp add: evolves_def)
  ultimately show "tc_sockfd c' \<noteq> el_wakeupFd (w_loops w' (tc_loop c'))"
    using own by (auto simp: conn_frame_def loop_frame_def)
qed

text \<open>
  An operation that is safe, moves no connection further than users may and adds \<open>d\<close> to the stream of
  connection \<open>p\<close>.
\<close>

definition effect ::
  "'o os_scheme \<Rightarrow> ptr \<Rightarrow> byte list \<Rightarrow> 'a cworld_scheme \<Rightarrow> 'a cworld_scheme res \<Rightarrow> bool" where
  "effect os p d w r \<longleftrightarrow> r = Inl LengthError \<or>
     (\<exists>w'. r = Inr w' \<and> conns_inv w' \<and> evolves user_forward w w' \<and>
        (peer_alive os \<and> own_fd p w \<longrightarrow> stream p w' = stream p w @ d))"

lemma effect_Inr:
  "conns_inv w' \<Longrightarrow> evolves user_forward w w' \<Longrightarrow> (own_fd p w \<Longrightarrow> stream p w' = stream p w @ d) \<Longrightarrow>
   effect os p d w (Inr w')"
  by (simp add: effect_def)

lemma effect_bindR:
  assumes "effect os p d w m"
    and "\<And>w'. conns_inv w' \<Longrightarrow> evolves user_forward w w' \<Longrightarrow> effect os p d' w' (f w')"
  shows "effect os p (d @ d') w (bindR m f)"
proof -
  from assms(1) consider "m = Inl LengthError" | (ok) w' where "m = Inr w'" "conns_inv w'" "evolves user_forward w w'"
      "peer_alive os \<and> own_fd p w \<longrightarrow> stream p w' = stream p w @ d"
    by (auto simp: effect_def)
  then show ?thesis
  proof cases
    case ok
    with assms(2) [OF ok(2,3)] evolves_trans [OF order_forward(2) ok(3)] own_fd_evolves [OF ok(3), of p] show ?thesis
      by (auto simp: effect_def)
  qed (simp add: effect_def)
qed

lemma effect_safe: "effect os p d w r \<Longrightarrow> safe user_forward w r"
  by (auto simp: effect_def safe_def)

lemma put_conn_same [simp]: "cw_conns w p = Some c \<Longrightarrow> put_conn p c w = w"
  by (simp add: put_conn_def map_upd_triv)

lemma effect_queue:
  assumes "conns_inv w" "\<And>c. cw_conns w p = Some c \<Longrightarrow> l = tc_loop c"
  shows "effect os p [] w (Inr (queueInLoop os l fn w))"
  using assms by (intro effect_Inr) (auto simp: stream_def own_fd_def split: option.splits)

lemma effect_setState:
  assumes inv: "conns_inv w" and p: "cw_conns w p = Some c" and up: "up c"
  shows "effect os p [] w (setState p kDisconnecting w)"
proof -
  have "conn_ok p c w" using inv p by (simp add: conns_inv_def)
  then have "conn_ok p (c\<lparr>tc_state := kDisconnecting\<rparr>) w"
    using up by (auto simp: conn_ok_def linked_def state_ok_def up_def)
  then have "conns_inv (put_conn p (c\<lparr>tc_state := kDisconnecting\<rparr>) w)"
    by (rule conns_inv_put_conn [OF inv])
  moreover have "evolves user_forward w (put_conn p (c\<lparr>tc_state := kDisconnecting\<rparr>) w)"
    by (rule evolves_put_conn [OF _ p]) (use up in \<open>auto simp: conn_frame_def user_forward_def up_def\<close>)
  moreover have "stream p (put_conn p (c\<lparr>tc_state := kDisconnecting\<rparr>) w) = stream p w"
    using p by (simp add: stream_def)
  ultimately show ?thesis using p by (simp add: effect_def)
qed

lemma effect_shutdownInLoop:
  assumes inv: "conns_inv w" and p: "cw_conns w p = Some c"
  shows "effect os p [] w (shutdownInLoop os p w)"
proof -
  from inv p obtain ch where ch: "w_chans w (tc_channel c) = Some ch" by (rule conns_invE)
  have "effect os p [] w (Inr (log_call (SysShutdownWr fd) w))" for fd
    using inv by (intro effect_Inr) (auto simp: stream_def split: option.splits)
  moreover have "effect os p [] w (Inr w)" using inv by (intro effect_Inr) auto
  ultimately show ?thesis
    using p ch by (simp add: shutdownInLoop_def shutdownWrite_def)
qed

lemma effect_set_events:
  assumes os: "epoll_ctl_contract os" and inv: "conns_inv w" and p: "cw_conns w p = Some c" and up: "up c"
    and ch: "w_chans w (tc_channel c) = Some ch" and mask: "plain_events (f (ch_events ch))"
    and keep: "bit (f (ch_events ch)) 2 = bit (ch_events ch) 2"
  shows "effect os p [] w (set_events os f (tc_channel c) w)"
proof -
  from conns_invE [OF inv p] ch have st: "state_ok c ch"
    and bi: "buffer_inv (tc_inputBuffer c)" and bo: "buffer_inv (tc_outputBuffer c)"
    by (metis option.inject)+
  have "state_ok c (ch\<lparr>ch_events := f (ch_events ch), ch_added := True, ch_index := i\<rparr>)" if "i \<noteq> kNew" for i
    using that up st keep by (simp add: state_ok_up isWriting_bit)
  with mask obtain w' where w': "set_events os f (tc_channel c) w = Inr w'" "conns_inv w'"
    "w' = updated_world (tc_loop c) (tc_channel c) (ch\<lparr>ch_events := f (ch_events ch), ch_added := True\<rparr>) w"
    using conns_inv_events [OF os inv p ch, of c f] bi bo p by auto
  have "evolves user_forward w w'"
    unfolding w'(3) by (rule evolves_updated [where ch = ch]) (simp_all add: ch chan_frame_def)
  moreover have "stream p w' = stream p w"
    using p by (simp add: w'(3) stream_def)
  ultimately show ?thesis using w' by (simp add: effect_def)
qed

lemma effect_set_reading:
  assumes inv: "conns_inv w" and p: "cw_conns w p = Some c"
  shows "effect os p [] w (upd_conn p (\<lambda>c. c\<lparr>tc_reading := b\<rparr>) w)"
proof -
  have "conn_ok p c w" using inv p by (simp add: conns_inv_def)
  then have "conn_ok p (c\<lparr>tc_reading := b\<rparr>) w"
    by (auto simp: conn_ok_def linked_def state_ok_def split: StateE.splits)
  then have "conns_inv (put_conn p (c\<lparr>tc_reading := b\<rparr>) w)"
    by (rule conns_inv_put_conn [OF inv])
  moreover have "evolves user_forward w (put_conn p (c\<lparr>tc_reading := b\<rparr>) w)"
    by (rule evolves_put_conn [OF _ p]) (auto simp: conn_frame_def user_forward_def)
  ultimately show ?thesis using p by (simp add: effect_def stream_def)
qed

lemma conn_still_there:
  assumes "evolves R w w'" "cw_conns w p = Some c"
  shows "\<exists>c'. cw_conns w' p = Some c'"
  using assms by (rule evolves_conn) blast

lemma effect_startReadInLoop:
  assumes os: "epoll_ctl_contract os" and inv: "conns_inv w" and p: "cw_conns w p = Some c" and up: "up c"
  shows "effect os p [] w (startReadInLoop os p w)" "effect os p [] w (stopReadInLoop os p w)"
proof -
  from inv p obtain ch where ch: "w_chans w (tc_channel c) = Some ch" and l: "linked p c ch" by (rule conns_invE)
  have none: "effect os p [] w (Inr w)" using inv by (intro effect_Inr) auto
  have "effect os p [] w (set_events os f (tc_channel c) w)"
    if "f = (\<lambda>e. e OR ReadEvent) \<or> f = (\<lambda>e. e AND NOT ReadEvent)" for f
    using that l by (intro effect_set_events [OF os inv p up ch]) (auto simp: linked_def bit_simps)
  then have "effect os p ([] @ []) w (bindR (set_events os f (tc_channel c) w) (upd_conn p (\<lambda>c. c\<lparr>tc_reading := b\<rparr>)))"
    if "f = (\<lambda>e. e OR ReadEvent) \<or> f = (\<lambda>e. e AND NOT ReadEvent)" for f b
    using that by (intro effect_bindR) (auto dest: conn_still_there [OF _ p] intro: effect_set_reading)
  with none p ch show "effect os p [] w (startReadInLoop os p w)" "effect os p [] w (stopReadInLoop os p w)"
    by (simp_all add: startReadInLoop_def stopReadInLoop_def enableReading_def disableReading_def)
qed

text \<open>The calls of a user, a callback included: on a connection, or to queue a functor in its loop.\<close>

datatype user_op = USend buffer | UShutdown | UForceClose | UForceCloseWithDelay | UStartRead | UStopRead
  | URetrieve nat | UQueue Functor | USetMessageCallback nat

fun user_step :: "'o os_scheme \<Rightarrow> ptr \<Rightarrow> user_op \<Rightarrow> 'a cworld_scheme \<Rightarrow> 'a cworld_scheme res" where
  "user_step os p (USend buf) w = bindR (send os p buf w) (\<lambda>(b, w'). Inr w')"
| "user_step os p UShutdown w = shutdown os p w"
| "user_step os p UForceClose w = forceClose os p w"
| "user_step os p UForceCloseWithDelay w = forceCloseWithDelay p w"
| "user_step os p UStartRead w = startRead os p w"
| "user_step os p UStopRead w = stopRead os p w"
| "user_step os p (URetrieve n) w =
     bindR (get_conn p w) (\<lambda>c. bindR (retrieve n (tc_inputBuffer c)) (\<lambda>b.
       upd_conn p (\<lambda>c. c\<lparr>tc_inputBuffer := b\<rparr>) w))"
| "user_step os p (UQueue fn) w = bindR (get_conn p w) (\<lambda>c. Inr (queueInLoop os (tc_loop c) fn w))"
| "user_step os p (USetMessageCallback k) w = upd_conn p (setMessageCallback_conn (Some k)) w"

text \<open>
  The rules of use: buffers are well formed, no more input is consumed than there is, and reading is
  switched on or off only while the connection is up.
\<close>

fun user_ok :: "user_op \<Rightarrow> tcp_connection \<Rightarrow> bool" where
  "user_ok (USend buf) c = buffer_inv buf"
| "user_ok (URetrieve n) c = (n \<le> readableBytes (tc_inputBuffer c))"
| "user_ok UStartRead c = up c"
| "user_ok UStopRead c = up c"
| "user_ok (USetMessageCallback k) c = (tc_messageCb c \<noteq> None)"
| "user_ok _ c = True"

text \<open>The bytes an operation adds to the stream when called in the loop thread.\<close>

fun user_sent :: "user_op \<Rightarrow> tcp_connection \<Rightarrow> byte list" where
  "user_sent (USend buf) c = (if tc_state c = kConnected then content buf else [])"
| "user_sent _ c = []"

lemma peek_all: "buffer_inv b \<Longrightarrow> peek_mem b (readableBytes b) = Inr (content b)"
  by (simp add: peek_mem_def content_def readableBytes_eq buffer_inv_def)

lemma content_small: "buffer_inv b \<Longrightarrow> length (content b) \<le> max_size"
  by (auto simp: content_def buffer_inv_def)

lemma retrieveAllAsString_ok:
  assumes "buffer_inv b"
  shows "\<exists>b'. retrieveAllAsString b = Inr (content b, b')"
proof -
  obtain b' where "retrieve (readableBytes b) b = Inr b'"
    using retrieve_ok [OF assms, of "readableBytes b"] by blast
  with peek_all [OF assms] show ?thesis
    by (simp add: retrieveAllAsString_def retrieveAsString_def)
qed

lemma effect_send:
  assumes os: "epoll_ctl_contract os" "write_contract os" and inv: "conns_inv w"
    and p: "cw_conns w p = Some c" and buf: "buffer_inv buf"
  shows "effect os p (if isInLoopThread (tc_loop c) w then user_sent (USend buf) c else []) w
    (user_step os p (USend buf) w)"
proof (cases "tc_state c = kConnected")
  case False
  with p inv show ?thesis by (simp add: send_def) (auto intro!: effect_Inr)
next
  case True
  show ?thesis
  proof (cases "isInLoopThread (tc_loop c) w")
    case in_loop: True
    have "up c" using True by (simp add: up_def)
    from sendInLoop_effect [OF os inv p this content_small [OF buf]]
    have "effect os p (content buf) w (sendInLoop os p (content buf) w)"
      using p by (auto simp: effect_def own_fd_def)
    moreover have "user_step os p (USend buf) w = sendInLoop os p (content buf) w"
      using True in_loop p peek_all [OF buf] by (cases "sendInLoop os p (content buf) w") (simp_all add: send_def)
    ultimately show ?thesis using in_loop True by simp
  next
    case False
    then obtain b' where "retrieveAllAsString buf = Inr (content buf, b')"
      using retrieveAllAsString_ok [OF buf] by blast
    with True False p have "user_step os p (USend buf) w =
        Inr (queueInLoop os (tc_loop c) (F_sendInLoop p (content buf)) w)"
      by (simp add: send_def runInLoop_def)
    then show ?thesis using False effect_queue [where os = os and l = "tc_loop c" and p = p, OF inv] p by simp
  qed
qed

lemma effect_shutdown:
  assumes inv: "conns_inv w" and p: "cw_conns w p = Some c"
  shows "effect os p [] w (shutdown os p w)"
proof (cases "tc_state c = kConnected")
  case False
  with p inv show ?thesis by (simp add: shutdown_def) (auto intro!: effect_Inr)
next
  case True
  have "effect os p [] w' (runInLoop os (\<lambda>_. shutdownInLoop os p) (tc_loop c) (F_shutdownInLoop p) w')"
    if w': "conns_inv w'" "evolves user_forward w w'" for w'
  proof -
    from w'(2) p obtain c' where c': "cw_conns w' p = Some c'" "conn_frame c' = conn_frame c"
      by (rule evolves_conn)
    then show ?thesis
      using effect_shutdownInLoop [where os = os, OF w'(1) c'(1)]
        effect_queue [where os = os and l = "tc_loop c" and p = p, OF w'(1)]
      by (simp add: runInLoop_def conn_frame_def)
  qed
  with effect_bindR [OF effect_setState [where os = os, OF inv p]] True p show ?thesis
    by (fastforce simp: shutdown_def up_def)
qed

lemma effect_forceClose:
  assumes inv: "conns_inv w" and p: "cw_conns w p = Some c"
  shows "effect os p [] w (forceClose os p w)" "effect os p [] w (forceCloseWithDelay p w)"
proof -
  have none: "effect os p [] w (Inr w)" using inv by (auto intro!: effect_Inr)
  have "effect os p [] w' (Inr (queueInLoop os (tc_loop c) (F_forceCloseInLoop p) w'))"
    if w': "conns_inv w'" "evolves user_forward w w'" for w'
  proof -
    from w'(2) p obtain c' where "cw_conns w' p = Some c'" "conn_frame c' = conn_frame c"
      by (rule evolves_conn)
    then show ?thesis using effect_queue [where os = os and l = "tc_loop c" and p = p, OF w'(1)] by (simp add: conn_frame_def)
  qed
  with effect_bindR [OF effect_setState [where os = os, OF inv p]] p none show "effect os p [] w (forceClose os p w)"
    by (fastforce simp: forceClose_def up_def)
  show "effect os p [] w (forceCloseWithDelay p w)"
    using effect_setState [where os = os, OF inv p] p none by (simp add: forceCloseWithDelay_def up_def)
qed

lemma effect_retrieve:
  assumes inv: "conns_inv w" and p: "cw_conns w p = Some c" and n: "n \<le> readableBytes (tc_inputBuffer c)"
  shows "effect os p [] w (user_step os p (URetrieve n) w)"
proof -
  from inv p have bi: "buffer_inv (tc_inputBuffer c)" by (rule conns_invE)
  from retrieve_ok [OF bi n] obtain b where b: "retrieve n (tc_inputBuffer c) = Inr b" "buffer_inv b" .
  let ?c = "c\<lparr>tc_inputBuffer := b\<rparr>"
  have "conn_ok p c w" using inv p by (simp add: conns_inv_def)
  then have "conn_ok p ?c w"
    using b by (auto simp: conn_ok_def linked_def state_ok_def split: StateE.splits)
  then have "conns_inv (put_conn p ?c w)"
    by (rule conns_inv_put_conn [OF inv])
  moreover have "evolves user_forward w (put_conn p ?c w)"
    by (rule evolves_put_conn [OF _ p]) (auto simp: conn_frame_def user_forward_def)
  ultimately show ?thesis using p b by (simp add: effect_def stream_def)
qed

lemma effect_setMessageCallback:
  assumes inv: "conns_inv w" and p: "cw_conns w p = Some c" and set: "tc_messageCb c \<noteq> None"
  shows "effect os p [] w (upd_conn p (setMessageCallback_conn (Some k)) w)"
proof -
  let ?c = "setMessageCallback_conn (Some k) c"
  have "conn_ok p c w" using inv p by (simp add: conns_inv_def)
  then have "conn_ok p ?c w"
    by (auto simp: conn_ok_def linked_def state_ok_def setMessageCallback_conn_def split: StateE.splits)
  then have "conns_inv (put_conn p ?c w)"
    by (rule conns_inv_put_conn [OF inv])
  moreover have "evolves user_forward w (put_conn p ?c w)"
    by (rule evolves_put_conn [OF _ p]) (use set in \<open>auto simp: conn_frame_def user_forward_def setMessageCallback_conn_def\<close>)
  ultimately show ?thesis using p by (simp add: effect_def stream_def setMessageCallback_conn_def)
qed

lemma effect_user_step:
  assumes os: "epoll_ctl_contract os" "write_contract os" and inv: "conns_inv w"
    and p: "cw_conns w p = Some c" and ok: "user_ok x c"
  shows "effect os p (if isInLoopThread (tc_loop c) w then user_sent x c else []) w (user_step os p x w)"
proof (cases x)
  case (USend buf)
  with ok have "buffer_inv buf" by simp
  from effect_send [OF os inv p this] show ?thesis unfolding USend .
next
  case UStartRead
  with ok effect_startReadInLoop [OF os(1) inv p] effect_queue [where os = os and l = "tc_loop c" and p = p, OF inv] p show ?thesis
    by (simp add: startRead_def runInLoop_def)
next
  case UStopRead
  with ok effect_startReadInLoop [OF os(1) inv p] effect_queue [where os = os and l = "tc_loop c" and p = p, OF inv] p show ?thesis
    by (simp add: stopRead_def runInLoop_def)
next
  case (UQueue fn)
  with effect_queue [where os = os and l = "tc_loop c" and p = p, OF inv] p show ?thesis by simp
next
  case (USetMessageCallback k)
  with effect_setMessageCallback [where os = os, OF inv p] ok show ?thesis by simp
next
  case (URetrieve n)
  with effect_retrieve [where os = os, OF inv p] ok show ?thesis by simp
qed (use effect_shutdown [where os = os, OF inv p] effect_forceClose [where os = os, OF inv p] in simp_all)

section \<open>Events\<close>

lemma effect_then:
  assumes "effect os p d w (Inr w1)" "effect os p d' w1 r"
  shows "effect os p (d @ d') w r"
proof -
  from assms(1) have w1: "conns_inv w1" "evolves user_forward w w1"
    "peer_alive os \<and> own_fd p w \<longrightarrow> stream p w1 = stream p w @ d"
    by (auto simp: effect_def)
  from assms(2) own_fd_evolves [OF w1(2), of p] evolves_trans [OF order_forward(2) w1(2)] w1(3) show ?thesis
    unfolding effect_def by (metis append.assoc)
qed

lemma effect_after_flush:
  assumes inv: "conns_inv w" and p: "cw_conns w p = Some c'" "conn_frame c' = conn_frame c"
  shows "effect os p [] w (if closing then shutdownInLoop os p (queue_writeComplete os p c w)
     else Inr (queue_writeComplete os p c w))"
proof -
  let ?q = "queue_writeComplete os p c w"
  have q: "effect os p [] w (Inr ?q)"
    using inv p by (intro effect_Inr) (auto simp: stream_def own_fd_def conn_frame_def)
  have "effect os p [] ?q (shutdownInLoop os p ?q)"
    using inv p by (intro effect_shutdownInLoop) simp_all
  with effect_then [OF q this] q show ?thesis by simp
qed

text \<open>The output buffer has been emptied: stop asking for writability.\<close>

lemma disableWriting_world:
  assumes os: "epoll_ctl_contract os" and inv: "conns_inv w" and p: "cw_conns w p = Some c" and up: "up c"
    and b: "buffer_inv b" "content b = []" and ch: "w_chans w (tc_channel c) = Some ch"
  obtains w3 where "disableWriting os (tc_channel c) (put_conn p (c\<lparr>tc_outputBuffer := b\<rparr>) w) = Inr w3"
    "conns_inv w3" "w3 = updated_world (tc_loop c) (tc_channel c)
      (ch\<lparr>ch_events := ch_events ch AND NOT WriteEvent, ch_added := True\<rparr>)
      (put_conn p (c\<lparr>tc_outputBuffer := b\<rparr>) w)"
proof -
  let ?c = "c\<lparr>tc_outputBuffer := b\<rparr>"
  from conns_invE [OF inv p] ch have l: "linked p c ch" and bi: "buffer_inv (tc_inputBuffer c)"
    by (metis option.inject)+
  let ?ch = "ch\<lparr>ch_events := ch_events ch AND NOT WriteEvent, ch_added := True\<rparr>"
  have "state_ok ?c (?ch\<lparr>ch_index := i\<rparr>)" if "i \<noteq> kNew" for i
    using that up b by (subst state_ok_up) (auto simp: up_def isWriting_bit bit_simps)
  then show thesis
    using conns_inv_events [OF os inv p ch, of ?c "\<lambda>e. e AND NOT WriteEvent"] l b bi that
    by (auto simp: linked_def disableWriting_def)
qed

lemma effect_disableWriting:
  assumes os: "epoll_ctl_contract os" and inv: "conns_inv w" and p: "cw_conns w p = Some c" and up: "up c"
    and b: "buffer_inv b" "content b = []" and w0: "evolves user_forward w0 w" "stream p (put_conn p (c\<lparr>tc_outputBuffer := b\<rparr>) w) = stream p w0"
  shows "effect os p [] w0 (disableWriting os (tc_channel c) (put_conn p (c\<lparr>tc_outputBuffer := b\<rparr>) w))"
proof -
  let ?c = "c\<lparr>tc_outputBuffer := b\<rparr>"
  from inv p obtain ch where ch: "w_chans w (tc_channel c) = Some ch" by (rule conns_invE)
  let ?ch = "ch\<lparr>ch_events := ch_events ch AND NOT WriteEvent, ch_added := True\<rparr>"
  obtain w3 where w3: "disableWriting os (tc_channel c) (put_conn p ?c w) = Inr w3"
    "conns_inv w3" "w3 = updated_world (tc_loop c) (tc_channel c) ?ch (put_conn p ?c w)"
    using disableWriting_world [OF os inv p up b ch] by blast
  have "evolves user_forward (put_conn p ?c w) w3"
    unfolding w3(3) by (rule evolves_updated [where ch = ch]) (simp_all add: ch chan_frame_def)
  moreover have "evolves user_forward w (put_conn p ?c w)"
    by (rule evolves_put_conn [OF _ p]) (simp_all add: conn_frame_def user_forward_def)
  ultimately have "evolves user_forward w0 w3"
    using evolves_trans order_forward(2) w0(1) by blast
  moreover have "stream p w3 = stream p w0" using w0(2) by (simp add: w3(3) stream_def)
  ultimately show ?thesis using w3 by (simp add: effect_def)
qed

text \<open>The three outcomes of \<open>handleWrite\<close> while there is output.\<close>

lemma handleWrite_cases:
  assumes os: "write_contract os" and inv: "conns_inv w" and p: "cw_conns w p = Some c"
    and ch: "w_chans w (tc_channel c) = Some ch" and wr: "isWriting ch"
  obtains (failed) n where "n \<le> 0"
      "handleWrite_conn os p w = Inr (log_call (SysWrite (tc_sockfd c) (content (tc_outputBuffer c)) n) w)"
    | (progress) n b where "0 < n" "n \<le> int (length (content (tc_outputBuffer c)))" "buffer_inv b"
      "content b = drop (nat n) (content (tc_outputBuffer c))"
      "handleWrite_conn os p w =
        (let w1 = log_call (SysWrite (tc_sockfd c) (content (tc_outputBuffer c)) n) w;
             w2 = put_conn p (c\<lparr>tc_outputBuffer := b\<rparr>) w1 in
         if content b = [] then
           bindR (disableWriting os (tc_channel c) w2) (\<lambda>w3.
             if tc_state c = kDisconnecting then shutdownInLoop os p (queue_writeComplete os p c w3)
             else Inr (queue_writeComplete os p c w3))
         else Inr w2)"
proof -
  from conns_invE [OF inv p] ch have l: "linked p c ch" and bo: "buffer_inv (tc_outputBuffer c)"
    by (metis option.inject)+
  then have fd: "ch_fd ch = tc_sockfd c" by (simp add: linked_def)
  let ?d = "content (tc_outputBuffer c)"
  obtain n e where ne: "os_write os (w_trace w) (tc_sockfd c) ?d = (n, e)" by force
  have n: "n \<le> int (length ?d)" using os ne unfolding write_contract_def by (metis fst_conv)
  show thesis
  proof (cases "0 < n")
    case False
    with p ch wr ne fd peek_all [OF bo] show thesis
      by (intro failed [of n]) (simp_all add: handleWrite_conn_def Let_def)
  next
    case True
    have "nat n \<le> readableBytes (tc_outputBuffer c)"
      using n length_content [OF bo] by simp
    from retrieve_ok [OF bo this] obtain b where b: "retrieve (nat n) (tc_outputBuffer c) = Inr b"
      "buffer_inv b" "content b = drop (nat n) ?d" .
    have "readableBytes b = 0 \<longleftrightarrow> content b = []" using length_content [OF b(2)] by auto
    with True n b p ch wr ne fd peek_all [OF bo] show thesis
      by (intro progress [of n b]) (simp_all add: handleWrite_conn_def Let_def)
  qed
qed

lemma effect_handleWrite_conn:
  assumes os: "epoll_ctl_contract os" "write_contract os" and inv: "conns_inv w" and p: "cw_conns w p = Some c"
  shows "effect os p [] w (handleWrite_conn os p w)"
proof -
  from inv p obtain ch where ch: "w_chans w (tc_channel c) = Some ch" and l: "linked p c ch"
    and st: "state_ok c ch" and bi: "buffer_inv (tc_inputBuffer c)"
    by (rule conns_invE)
  show ?thesis
  proof (cases "isWriting ch")
    case False
    with p ch inv show ?thesis by (simp add: handleWrite_conn_def) (auto intro!: effect_Inr)
  next
    case True
    then have up: "up c"
      using st by (cases "tc_state c") (auto simp: state_ok_def up_def isWriting_bit)
    let ?d = "content (tc_outputBuffer c)"
    from os(2) inv p ch True show ?thesis
    proof (cases rule: handleWrite_cases)
      case (failed n)
      with inv show ?thesis by (auto intro!: effect_Inr simp: stream_def split: option.splits)
    next
      case (progress n b)
      let ?w1 = "log_call (SysWrite (tc_sockfd c) ?d n) w" and ?c = "c\<lparr>tc_outputBuffer := b\<rparr>"
      let ?w2 = "put_conn p ?c ?w1"
      have inv1: "conns_inv ?w1" using inv by simp
      have ev1: "evolves user_forward w ?w2"
        by (rule evolves_trans [OF _ evolves_log [of _ _ "SysWrite (tc_sockfd c) ?d n"] evolves_put_conn])
          (use p in \<open>auto simp: conn_frame_def user_forward_def\<close>)
      have str1: "stream p ?w2 = stream p w"
        using p progress by (simp add: stream_def)
      show ?thesis
      proof (cases "content b = []")
        case False
        have "conn_ok p ?c ?w1"
          using ch l st progress(3) bi True up False by (auto simp: conn_ok_def linked_def state_ok_def up_def)
        then have "conns_inv ?w2" by (rule conns_inv_put_conn [OF inv1])
        with ev1 str1 False progress(5) show ?thesis by (auto simp: effect_def Let_def)
      next
        case flushed: True
        have e3: "effect os p [] w (disableWriting os (tc_channel c) ?w2)"
          by (rule effect_disableWriting [OF os(1) inv1 _ up progress(3) flushed]) (use p str1 in simp_all)
        have "effect os p [] w' (if tc_state c = kDisconnecting then shutdownInLoop os p (queue_writeComplete os p c w')
               else Inr (queue_writeComplete os p c w'))" if w': "conns_inv w'" "evolves user_forward w w'" for w'
        proof -
          from w'(2) p obtain c' where "cw_conns w' p = Some c'" "conn_frame c' = conn_frame c" by (rule evolves_conn)
          then show ?thesis by (rule effect_after_flush [OF w'(1)])
        qed
        from effect_bindR [OF e3, of "[]", OF this] flushed progress(5) show ?thesis by (simp add: Let_def)
      qed
    qed
  qed
qed

text \<open>
  What a connection expects of the callbacks: called for a live connection they are safe and do
  nothing a user may not do. Every callback that runs a script of user calls within the rules of use
  is of this kind.
\<close>

definition polite :: "'a env \<Rightarrow> bool" where
  "polite env \<longleftrightarrow> (\<forall>k p w. conns_inv w \<longrightarrow> cw_conns w p \<noteq> None \<longrightarrow> safe user_forward w (env k p w))"

definition user_call :: "'o os_scheme \<Rightarrow> ptr \<times> user_op \<Rightarrow> 'a cworld_scheme \<Rightarrow> 'a cworld_scheme res" where
  "user_call os = (\<lambda>(p, x) w. case cw_conns w p of
     Some c \<Rightarrow> if user_ok x c then user_step os p x w else Inr w
   | None \<Rightarrow> Inr w)"

lemma safe_foldR:
  assumes "order_rel R" "conns_inv w" "\<And>x u. conns_inv u \<Longrightarrow> safe R u (f x u)"
  shows "safe R w (foldR f xs w)"
  using assms(2)
proof (induction xs arbitrary: w)
  case Nil
  with assms(1) show ?case by (simp add: safe_def)
next
  case (Cons x xs)
  then show ?case
    using assms(3) [OF Cons.prems, of x] by (auto intro!: safe_bindR [OF assms(1)])
qed

lemma user_scripts_polite:
  assumes "epoll_ctl_contract os" "write_contract os"
  shows "polite (\<lambda>k p w. foldR (user_call os) (script k p w) w)"
  unfolding polite_def
proof (intro allI impI)
  fix k p and w :: "'b cworld_scheme"
  assume "conns_inv w"
  then show "safe user_forward w (foldR (user_call os) (script k p w) w)"
  proof (rule safe_foldR [OF order_forward(2)])
    fix x :: "ptr \<times> user_op" and u :: "'b cworld_scheme"
    assume u: "conns_inv u"
    obtain q y where x: "x = (q, y)" by force
    show "safe user_forward u (user_call os x u)"
      using u effect_safe [OF effect_user_step [OF assms u]]
      by (auto simp: x user_call_def safe_def split: option.splits)
  qed
qed

definition callbacks_set :: "tcp_connection \<Rightarrow> bool" where
  "callbacks_set c \<longleftrightarrow> tc_connectionCb c \<noteq> None \<and> tc_messageCb c \<noteq> None \<and> tc_closeCb c \<noteq> None"

text \<open>Safe, and connection \<open>p\<close> ends up disconnected.\<close>

definition closes :: "ptr \<Rightarrow> 'a cworld_scheme \<Rightarrow> 'a cworld_scheme res \<Rightarrow> bool" where
  "closes p w r \<longleftrightarrow> r = Inl LengthError \<or>
     (\<exists>w' c'. r = Inr w' \<and> conns_inv w' \<and> evolves forward w w' \<and> cw_conns w' p = Some c' \<and> tc_state c' = kDisconnected)"

lemma closes_safe: "closes p w r \<Longrightarrow> safe forward w r"
  by (auto simp: closes_def safe_def)

lemma closes_bindR:
  assumes "closes p w m" "\<And>w'. conns_inv w' \<Longrightarrow> evolves forward w w' \<Longrightarrow> safe forward w' (f w')"
  shows "closes p w (bindR m f)"
proof -
  from assms(1) consider "m = Inl LengthError" | (ok) w' c' where "m = Inr w'" "conns_inv w'" "evolves forward w w'"
      "cw_conns w' p = Some c'" "tc_state c' = kDisconnected"
    by (auto simp: closes_def)
  then show ?thesis
  proof cases
    case ok
    from assms(2) [OF ok(2,3)] consider "f w' = Inl LengthError" | (ok2) w2 where "f w' = Inr w2" "conns_inv w2" "evolves forward w' w2"
      by (auto simp: safe_def)
    then show ?thesis
    proof cases
      case ok2
      from ok2(3) ok(4) obtain c2 where c2: "cw_conns w2 p = Some c2" "forward (tc_state c') (tc_state c2)"
        by (rule evolves_conn)
      then have "tc_state c2 = kDisconnected"
        using ok(5) by (cases "tc_state c2") (auto simp: forward_def)
      with ok ok2 c2 show ?thesis
        using evolves_trans [OF order_forward(1) ok(3) ok2(3)] by (auto simp: closes_def)
    qed (use ok in \<open>simp add: closes_def\<close>)
  qed (simp add: closes_def)
qed

lemma disableAll_closed:
  assumes os: "epoll_ctl_contract os" and inv: "conns_inv w" and p: "cw_conns w p = Some c"
  obtains u where "disableAll os (tc_channel c) (put_conn p (c\<lparr>tc_state := kDisconnected\<rparr>) w) = Inr u"
    "conns_inv u" "evolves forward w u" "cw_conns u p = Some (c\<lparr>tc_state := kDisconnected\<rparr>)"
    "cworld.more u = cworld.more w"
proof -
  let ?c = "c\<lparr>tc_state := kDisconnected\<rparr>"
  from inv p obtain ch where ch: "w_chans w (tc_channel c) = Some ch"
    and bufs: "buffer_inv (tc_inputBuffer c)" "buffer_inv (tc_outputBuffer c)" by (rule conns_invE)
  let ?ch = "ch\<lparr>ch_events := NoneEvent, ch_added := True\<rparr>"
  have "state_ok ?c (?ch\<lparr>ch_index := i\<rparr>)" for i
    by (simp add: state_ok_def NoneEvent_def)
  then obtain w3 where w3: "set_events os (\<lambda>e. NoneEvent) (tc_channel c) (put_conn p ?c w) = Inr w3"
    "conns_inv w3" "w3 = updated_world (tc_loop c) (tc_channel c) ?ch (put_conn p ?c w)"
    using conns_inv_events [OF os inv p ch, of ?c "\<lambda>e. NoneEvent"] bufs by auto
  have "evolves forward (put_conn p ?c w) w3"
    unfolding w3(3) by (rule evolves_updated [where ch = ch]) (simp_all add: ch chan_frame_def)
  moreover have "evolves forward w (put_conn p ?c w)"
    by (rule evolves_put_conn [OF _ p]) (simp_all add: conn_frame_def forward_def)
  ultimately have "evolves forward w w3"
    using evolves_trans order_forward(1) by blast
  moreover have "cw_conns w3 p = Some ?c" "cworld.more w3 = cworld.more w"
    by (simp_all add: w3(3) updated_world_def put_conn_def)
  ultimately show thesis using that [of w3] w3 by (simp add: disableAll_def)
qed

lemma closes_disableAll:
  assumes os: "epoll_ctl_contract os" and inv: "conns_inv w" and p: "cw_conns w p = Some c"
  shows "closes p w (disableAll os (tc_channel c) (put_conn p (c\<lparr>tc_state := kDisconnected\<rparr>) w))"
proof -
  from os inv p obtain u where "disableAll os (tc_channel c) (put_conn p (c\<lparr>tc_state := kDisconnected\<rparr>) w) = Inr u"
    "conns_inv u" "evolves forward w u" "cw_conns u p = Some (c\<lparr>tc_state := kDisconnected\<rparr>)"
    by (rule disableAll_closed)
  then show ?thesis by (simp add: closes_def)
qed

lemma safe_call_cb:
  assumes "polite env" "conns_inv w" "cw_conns w p = Some c" "cb \<noteq> None"
  shows "safe forward w (call_cb env cb p w)"
proof -
  from assms(4) obtain k where "cb = Some k" by blast
  moreover have "safe user_forward w (env k p w)" for k
    using assms(1-3) unfolding polite_def by blast
  ultimately show ?thesis by (simp add: call_cb_def safe_weaken)
qed

lemma handleClose_steps:
  assumes "cw_conns w p = Some c" "up c"
  shows "handleClose_conn env os p w = bindR (disableAll os (tc_channel c) (put_conn p (c\<lparr>tc_state := kDisconnected\<rparr>) w))
    (\<lambda>u. bindR (call_cb env (tc_connectionCb c) p u) (\<lambda>w3. bindR (get_conn p w3) (\<lambda>c3. call_cb env (tc_closeCb c3) p w3)))"
  using assms by (auto simp: handleClose_conn_def up_def)

lemma closes_handleClose_conn:
  assumes os: "epoll_ctl_contract os" and env: "polite env" and inv: "conns_inv w"
    and p: "cw_conns w p = Some c" and up: "up c" and cbs: "callbacks_set c"
  shows "closes p w (handleClose_conn env os p w)"
proof -
  have cb: "safe forward u (bindR (call_cb env (tc_connectionCb c) p u) (\<lambda>w3. bindR (get_conn p w3) (\<lambda>c3. call_cb env (tc_closeCb c3) p w3)))"
    if u: "conns_inv u" "evolves forward w u" for u
  proof (rule safe_bindR [OF order_forward(1)])
    from u(2) p obtain cu where cu: "cw_conns u p = Some cu" "conn_frame cu = conn_frame c" by (rule evolves_conn)
    then show "safe forward u (call_cb env (tc_connectionCb c) p u)"
      using cbs by (intro safe_call_cb [OF env u(1)]) (auto simp: callbacks_set_def)
    fix v assume v: "conns_inv v" "evolves forward u v"
    from v(2) cu(1) obtain cv where cv: "cw_conns v p = Some cv" "conn_frame cv = conn_frame cu" by (rule evolves_conn)
    have "tc_closeCb cv \<noteq> None" using cv(2) cu(2) cbs by (simp add: conn_frame_def callbacks_set_def)
    then show "safe forward v (bindR (get_conn p v) (\<lambda>c3. call_cb env (tc_closeCb c3) p v))"
      using safe_call_cb [OF env v(1) cv(1)] cv(1) by simp
  qed
  from closes_bindR [OF closes_disableAll [OF os inv p] cb] show ?thesis by (simp add: handleClose_steps [OF p up])
qed

text \<open>The contract of \<open>readv\<close>: it stores at most what the entries hold.\<close>

definition readv_contract :: "'o os_scheme \<Rightarrow> bool" where
  "readv_contract os \<longleftrightarrow> (\<forall>tr fd vec d. os_readv os tr fd vec = Inr d \<longrightarrow> length d \<le> sum_list vec)"

lemma safe_handleError_conn:
  assumes "conns_inv w" "cw_conns w p = Some c" "order_rel R"
  shows "safe R w (handleError_conn os p w)"
proof -
  from assms(1,2) obtain ch where "w_chans w (tc_channel c) = Some ch" by (rule conns_invE)
  with assms show ?thesis by (simp add: handleError_conn_def safe_def)
qed

lemma safe_handleRead_conn:
  assumes os: "epoll_ctl_contract os" "readv_contract os" and env: "polite env" and inv: "conns_inv w"
    and p: "cw_conns w p = Some c" and up: "up c" and cbs: "callbacks_set c"
  shows "safe forward w (handleRead_conn env os p w)"
proof -
  from inv p obtain ch where ch: "w_chans w (tc_channel c) = Some ch"
    and bi: "buffer_inv (tc_inputBuffer c)" by (rule conns_invE)
  let ?readv = "os_readv os (w_trace w) (ch_fd ch)"
  let ?w1 = "log_call (SysReadv (ch_fd ch) (iov_lens (tc_inputBuffer c)) (?readv (iov_lens (tc_inputBuffer c)))) w"
  have "?readv v = Inr d \<Longrightarrow> length d \<le> sum_list v" for v d
    using os(2) unfolding readv_contract_def by blast
  from readFd_outcome [where readv = ?readv, OF bi this] consider
      (err) "readFd ?readv (tc_inputBuffer c) = Inl LengthError"
    | (ok) n e b where "readFd ?readv (tc_inputBuffer c) = Inr (n, e, b)" "buffer_inv b" by blast
  then show ?thesis
  proof cases
    case err
    with p ch show ?thesis by (simp add: handleRead_conn_def Let_def safe_def)
  next
    case ok
    let ?c = "c\<lparr>tc_inputBuffer := b\<rparr>"
    let ?w2 = "put_conn p ?c ?w1"
    have inv1: "conns_inv ?w1" using inv by simp
    have p1: "cw_conns ?w1 p = Some c" using p by simp
    have "conn_ok p c ?w1" using inv1 p1 by (simp add: conns_inv_def)
    then have "conn_ok p ?c ?w1"
      using ok by (auto simp: conn_ok_def linked_def state_ok_def split: StateE.splits)
    then have inv2: "conns_inv ?w2" by (rule conns_inv_put_conn [OF inv1])
    have ev: "evolves forward w ?w2"
      by (rule evolves_trans [OF _ evolves_log [where R = forward] evolves_put_conn [OF _ p1]])
        (auto simp: conn_frame_def forward_def)
    have p2: "cw_conns ?w2 p = Some ?c" by simp
    have c2: "up ?c" "callbacks_set ?c" "tc_messageCb c \<noteq> None"
      using up cbs by (simp_all add: up_def callbacks_set_def)
    have "safe forward ?w2 (if n > 0 then call_cb env (tc_messageCb c) p ?w2
         else if n = 0 then handleClose_conn env os p ?w2 else handleError_conn os p ?w2)"
      using safe_call_cb [OF env inv2 p2 c2(3)] closes_safe [OF closes_handleClose_conn [OF os(1) env inv2 p2 c2(1,2)]]
        safe_handleError_conn [where os = os, OF inv2 p2 order_forward(1)] by simp
    then have "safe forward w (if n > 0 then call_cb env (tc_messageCb c) p ?w2
         else if n = 0 then handleClose_conn env os p ?w2 else handleError_conn os p ?w2)"
      by (rule safe_after [OF order_forward(1) ev])
    with p ch ok show ?thesis by (simp add: handleRead_conn_def Let_def)
  qed
qed

section \<open>A whole event\<close>

lemma evolves_channel:
  assumes "evolves R w w'" "w_chans w k = Some ch"
  obtains ch' where "w_chans w' k = Some ch'" "chan_frame ch' = chan_frame ch"
proof -
  have "map_option chan_frame (w_chans w' k) = Some (chan_frame ch)"
    using assms by (simp add: evolves_def)
  with that show thesis by auto
qed

lemma conns_inv_handling:
  assumes "conns_inv w" "w_chans w k = Some ch"
  shows "conns_inv (put_chan k (ch\<lparr>ch_handling := b\<rparr>) w)" "evolves forward w (put_chan k (ch\<lparr>ch_handling := b\<rparr>) w)"
proof -
  let ?w = "put_chan k (ch\<lparr>ch_handling := b\<rparr>) w"
  have "reactor_inv ?w"
    by (rule reactor_inv_same_keys [OF _ assms(2), where ch' = "ch\<lparr>ch_handling := b\<rparr>"])
      (use assms(1) in \<open>simp_all add: conns_inv_def\<close>)
  moreover have "conn_ok p c ?w" if "cw_conns ?w p = Some c" for p c
  proof -
    from that assms(1) have "conn_ok p c w" by (simp add: conns_inv_def)
    with assms(2) show ?thesis
      by (cases "tc_channel c = k") (auto simp: conn_ok_def linked_def state_ok_def isWriting_def split: StateE.splits)
  qed
  ultimately show "conns_inv ?w" by (simp add: conns_inv_def)
  show "evolves forward w ?w"
    using assms(2) by (simp add: evolves_def chan_frame_def forward_def)
qed

text \<open>One clause of \<open>handleEvent\<close> on the channel of a connection.\<close>

definition channel_of :: "ptr \<Rightarrow> tcp_connection \<Rightarrow> channel \<Rightarrow> 'a cworld_scheme \<Rightarrow> bool" where
  "channel_of p c ch u \<longleftrightarrow> conns_inv u \<and>
     (\<exists>ch' cu. w_chans u (tc_channel c) = Some ch' \<and> chan_frame ch' = chan_frame ch \<and> linked p c ch' \<and>
        cw_conns u p = Some cu \<and> conn_frame cu = conn_frame c)"

lemma channel_of_evolves:
  assumes inv: "conns_inv w" and p: "cw_conns w p = Some c" and ch: "w_chans w (tc_channel c) = Some ch"
    and u: "conns_inv u" "evolves R w u"
  shows "channel_of p c ch u"
proof -
  from u(2) p obtain cu where cu: "cw_conns u p = Some cu" "conn_frame cu = conn_frame c" by (rule evolves_conn)
  from u(2) ch obtain ch' where ch': "w_chans u (tc_channel c) = Some ch'" "chan_frame ch' = chan_frame ch"
    by (rule evolves_channel)
  from u(1) cu(1) obtain dh where "w_chans u (tc_channel cu) = Some dh" "linked p cu dh" by (rule conns_invE)
  with cu(2) ch'(1) have "linked p c ch'" by (auto simp: conn_frame_def linked_def)
  with u cu ch' show ?thesis by (auto simp: channel_of_def)
qed

lemma safe_fire:
  assumes "channel_of p c ch u"
    and "\<And>ch'. linked p c ch' \<Longrightarrow> cb ch' = Some kb"
    and "test (ch_revents ch) \<Longrightarrow> safe forward u (run kb u)"
  shows "safe forward u (fire run test cb (tc_channel c) u)"
proof -
  from assms(1) obtain ch' where ch': "w_chans u (tc_channel c) = Some ch'" "ch_revents ch' = ch_revents ch" "linked p c ch'"
    and u: "conns_inv u"
    by (auto simp: channel_of_def chan_frame_def)
  have "safe forward u (Inr u)" using u by (simp add: safe_def)
  with ch' assms(3) assms(2) [OF ch'(3)] show ?thesis by (simp add: fire_def)
qed

lemma fire_skip:
  assumes "channel_of p c ch u" "\<not> test (ch_revents ch)"
  shows "fire run test cb (tc_channel c) u = Inr u"
  using assms by (auto simp: channel_of_def fire_def chan_frame_def)

text \<open>The last three steps of \<open>handleEvent\<close> are safe in any state of the connection.\<close>

lemma safe_event_tail:
  assumes os: "epoll_ctl_contract os" "write_contract os" and inv: "conns_inv w" and p: "cw_conns w p = Some c"
    and ch: "w_chans w (tc_channel c) = Some ch" and u: "conns_inv u" "evolves forward w u"
  shows "safe forward u (bindR (fire (conn_run env os other) writable ch_writeCb (tc_channel c) u) (\<lambda>v.
    bindR (fire (conn_run env os other) erroneous ch_errorCb (tc_channel c) v)
      (upd_chan (tc_channel c) (\<lambda>ch. ch\<lparr>ch_handling := False\<rparr>))))"
proof (rule safe_bindR [OF order_forward(1)])
  note of = channel_of_evolves [where R = forward, OF inv p ch]
  from of [OF u] obtain cu where cu: "cw_conns u p = Some cu" by (auto simp: channel_of_def)
  show "safe forward u (fire (conn_run env os other) writable ch_writeCb (tc_channel c) u)"
    using safe_weaken [OF effect_safe [OF effect_handleWrite_conn [OF os u(1) cu]]]
    by (intro safe_fire [OF of [OF u], where kb = "ConnHandleWrite p"]) (auto simp: linked_def)
  fix v assume v: "conns_inv v" "evolves forward u v"
  have ev: "evolves forward w v" using evolves_trans [OF order_forward(1) u(2) v(2)] .
  from of [OF v(1) ev] obtain cv where cv: "cw_conns v p = Some cv" by (auto simp: channel_of_def)
  show "safe forward v (bindR (fire (conn_run env os other) erroneous ch_errorCb (tc_channel c) v)
      (upd_chan (tc_channel c) (\<lambda>ch. ch\<lparr>ch_handling := False\<rparr>)))"
  proof (rule safe_bindR [OF order_forward(1)])
    show "safe forward v (fire (conn_run env os other) erroneous ch_errorCb (tc_channel c) v)"
      using safe_handleError_conn [where os = os, OF v(1) cv order_forward(1)]
      by (intro safe_fire [OF of [OF v(1) ev], where kb = "ConnHandleError p"]) (auto simp: linked_def)
    fix x assume x: "conns_inv x" "evolves forward v x"
    from of [OF x(1) evolves_trans [OF order_forward(1) ev x(2)]]
    obtain cx where cx: "w_chans x (tc_channel c) = Some cx" by (auto simp: channel_of_def)
    show "safe forward x (upd_chan (tc_channel c) (\<lambda>ch. ch\<lparr>ch_handling := False\<rparr>) x)"
      using conns_inv_handling [OF x(1) cx] cx by (simp add: safe_def)
  qed
qed

lemma safe_handleEvent:
  assumes os: "epoll_ctl_contract os" "readv_contract os" "write_contract os" and env: "polite env"
    and inv: "conns_inv w" and p: "cw_conns w p = Some c" and up: "up c" and cbs: "callbacks_set c"
    and ch: "w_chans w (tc_channel c) = Some ch"
    and r: "ch_revents ch AND NOT (ch_events ch OR POLLERR OR POLLHUP) = 0"
  shows "safe forward w (handleEvent (conn_run env os other) (tc_channel c) w)"
proof -
  let ?k = "tc_channel c" and ?run = "conn_run env os other"
  let ?tail = "\<lambda>u. bindR (fire ?run writable ch_writeCb ?k u) (\<lambda>v.
    bindR (fire ?run erroneous ch_errorCb ?k v) (upd_chan ?k (\<lambda>ch. ch\<lparr>ch_handling := False\<rparr>)))"
  let ?w0 = "put_chan ?k (ch\<lparr>ch_handling := True\<rparr>) w"
  have l: "linked p c ch" using conns_invE [OF inv p] ch by (metis option.inject)
  have excl: "\<not> (hup_only (ch_revents ch) \<and> readable (ch_revents ch))"
    using close_or_read [OF _ r] l by (simp add: linked_def plain_events_def)
  note inv0 = conns_inv_handling(1) [OF inv ch, of True] and ev0 = conns_inv_handling(2) [OF inv ch, of True]
  note of = channel_of_evolves [where R = forward, OF inv p ch]
  have p0: "cw_conns ?w0 p = Some c" using p by simp
  have tail: "safe forward u (?tail u)" if "conns_inv u" "evolves forward w u" for u
    by (rule safe_event_tail [OF os(1,3) inv p ch that])
  have "safe forward ?w0 (bindR (fire ?run hup_only ch_closeCb ?k ?w0) (\<lambda>u. bindR (fire ?run readable ch_readCb ?k u) ?tail))"
  proof (cases "readable (ch_revents ch)")
    case True
    have skip: "fire ?run hup_only ch_closeCb ?k ?w0 = Inr ?w0"
      using excl True by (intro fire_skip [OF of [OF inv0 ev0]]) simp
    have "safe forward ?w0 (fire ?run readable ch_readCb ?k ?w0)"
      using safe_handleRead_conn [OF os(1,2) env inv0 p0 up cbs]
      by (intro safe_fire [OF of [OF inv0 ev0], where kb = "ConnHandleRead p"]) (auto simp: linked_def)
    then have "safe forward ?w0 (bindR (fire ?run readable ch_readCb ?k ?w0) ?tail)"
      by (rule safe_bindR [OF order_forward(1)]) (rule tail, assumption, rule evolves_trans [OF order_forward(1) ev0])
    with skip show ?thesis by simp
  next
    case False
    have "safe forward ?w0 (fire ?run hup_only ch_closeCb ?k ?w0)"
      using closes_safe [OF closes_handleClose_conn [OF os(1) env inv0 p0 up cbs]]
      by (intro safe_fire [OF of [OF inv0 ev0], where kb = "ConnHandleClose p"]) (auto simp: linked_def)
    then show ?thesis
    proof (rule safe_bindR [OF order_forward(1)])
      fix u assume u: "conns_inv u" "evolves forward ?w0 u"
      have ev: "evolves forward w u" using evolves_trans [OF order_forward(1) ev0 u(2)] .
      from fire_skip [where test = readable, OF of [OF u(1) ev] False] tail [OF u(1) ev]
      show "safe forward u (bindR (fire ?run readable ch_readCb ?k u) ?tail)" by simp
    qed
  qed
  from safe_after [OF order_forward(1) ev0 this] ch show ?thesis by (simp add: handleEvent_def)
qed

section \<open>Setting up a connection\<close>

text \<open>A descriptor that no channel of the loop uses.\<close>

definition fd_free :: "ptr \<Rightarrow> fd \<Rightarrow> 'a world_scheme \<Rightarrow> bool" where
  "fd_free l fd w \<longleftrightarrow> (\<forall>k ch. w_chans w k = Some ch \<longrightarrow> ch_loop ch = l \<longrightarrow> ch_fd ch \<noteq> fd)"

lemma conns_inv_new_conn:
  assumes inv: "conns_inv w" and fresh: "cw_conns w p = None" "w_chans w k = None" and fd: "fd_free (tc_loop c) (tc_sockfd c) w"
    and ch: "tc_channel c = k" "linked p c ch" "state_ok c ch" "ch_index ch = kNew"
    and bufs: "buffer_inv (tc_inputBuffer c)" "buffer_inv (tc_outputBuffer c)"
  shows "conns_inv (put_conn p c (put_chan k ch w))"
proof -
  let ?w = "put_chan k ch w"
  have l: "ch_loop ch = tc_loop c" "ch_fd ch = tc_sockfd c" using ch(2) by (simp_all add: linked_def)
  have rinv: "reactor_inv ?w"
    by (rule reactor_inv_new_channel [OF _ fresh(2) ch(4)]) (use inv fd l in \<open>auto simp: conns_inv_def fd_free_def\<close>)
  have "conn_ok q d ?w" if "cw_conns w q = Some d" for q d
  proof -
    from inv that obtain dh where "w_chans w (tc_channel d) = Some dh" "linked q d dh" "state_ok d dh"
      "buffer_inv (tc_inputBuffer d)" "buffer_inv (tc_outputBuffer d)" by (rule conns_invE)
    with fresh(2) show ?thesis by (auto simp: conn_ok_def)
  qed
  with rinv have "conns_inv ?w" by (simp add: conns_inv_def)
  then show ?thesis
    by (rule conns_inv_put_conn) (use ch bufs in \<open>auto simp: conn_ok_def\<close>)
qed

lemma mk_TcpConnection_ok:
  fixes w :: "'a cworld_scheme"
  assumes "conns_inv w" "cw_conns w p = None" "w_chans w k = None" "fd_free l fd w"
  obtains c ch where "\<And>u :: 'a cworld_scheme. mk_TcpConnection p k l name fd u = Inr (put_conn p c (put_chan k ch u))" "linked p c ch" "ch_index ch = kNew"
    "conns_inv (put_conn p c (put_chan k ch w))" "tc_loop c = l" "tc_name c = name" "tc_sockfd c = fd" "tc_channel c = k"
    "tc_state c = kConnecting" "tc_connectionCb c = None" "content (tc_outputBuffer c) = []"
proof -
  obtain b where b: "mk_Buffer kInitialSize = Inr b" "buffer_inv b" "content b = []"
    using mk_Buffer_ok [of kInitialSize] by (auto simp: kInitialSize_def max_size_def)
  define ch where "ch = setErrorCallback (ConnHandleError p) (setCloseCallback (ConnHandleClose p)
    (setWriteCallback (ConnHandleWrite p) (setReadCallback (ConnHandleRead p) (mk_Channel l fd))))"
  define c where "c = \<lparr>tc_loop = l, tc_name = name, tc_state = kConnecting, tc_reading = True, tc_sockfd = fd,
    tc_channel = k, tc_connectionCb = None, tc_messageCb = None, tc_writeCompleteCb = None,
    tc_closeCb = None, tc_inputBuffer = b, tc_outputBuffer = b\<rparr>"
  have ch: "linked p c ch" "state_ok c ch" "ch_index ch = kNew"
    using b by (simp_all add: ch_def c_def linked_def state_ok_def setErrorCallback_def setCloseCallback_def setWriteCallback_def
        setReadCallback_def mk_Channel_def plain_events_def kNew_def)
  have inv: "conns_inv (put_conn p c (put_chan k ch w))"
    by (rule conns_inv_new_conn [OF assms(1-3)]) (use assms(4) ch b in \<open>simp_all add: c_def\<close>)
  have mk: "mk_TcpConnection p k l name fd u = Inr (put_conn p c (put_chan k ch u))" for u :: "'a cworld_scheme"
    using b by (simp add: mk_TcpConnection_def ch_def c_def Let_def)
  from mk ch(1,3) inv show thesis by (rule that) (use b in \<open>simp_all add: c_def\<close>)
qed

text \<open>\<open>connectEstablished\<close> up to the callback.\<close>

lemma connectEstablished_calls:
  assumes "epoll_ctl_contract os" "cw_conns w p = Some c" "tc_state c = kConnecting" "registry_inv l w"
    "registrable l (tc_channel c) ch w"
  shows "connectEstablished env os p w = call_cb env (tc_connectionCb c) p
    (updated_world l (tc_channel c) (ch\<lparr>ch_events := ch_events ch OR ReadEvent, ch_added := True\<rparr>)
      (put_conn p (c\<lparr>tc_state := kConnected\<rparr>) w))"
proof -
  let ?w = "put_conn p (c\<lparr>tc_state := kConnected\<rparr>) w"
  have "registry_inv l ?w" by (rule registry_inv_cong [OF assms(4)]) simp_all
  moreover have "registrable l (tc_channel c) ch ?w" using assms(5) by (simp add: registrable_def)
  ultimately have "enableReading os (tc_channel c) ?w =
      Inr (updated_world l (tc_channel c) (ch\<lparr>ch_events := ch_events ch OR ReadEvent, ch_added := True\<rparr>) ?w)"
    using set_events_ok [OF assms(1)] unfolding enableReading_def by blast
  with assms(2,3) show ?thesis by (simp add: connectEstablished_def)
qed

lemma connectEstablished_up:
  assumes os: "epoll_ctl_contract os" and inv: "conns_inv w" and p: "cw_conns w p = Some c" and st: "tc_state c = kConnecting"
  obtains w1 where "connectEstablished env os p w = call_cb env (tc_connectionCb c) p w1" "conns_inv w1" "evolves forward w w1"
    "cw_conns w1 = (cw_conns w)(p \<mapsto> c\<lparr>tc_state := kConnected\<rparr>)"
    "interest (tc_loop c) (w_trace w1) (tc_sockfd c) = Some (ReadEvent, tc_channel c)"
    "cworld.more w1 = cworld.more w"
    "\<And>ch. w_chans w (tc_channel c) = Some ch \<Longrightarrow> w1 = updated_world (tc_loop c) (tc_channel c)
       (ch\<lparr>ch_events := ch_events ch OR ReadEvent, ch_added := True\<rparr>) (put_conn p (c\<lparr>tc_state := kConnected\<rparr>) w)"
proof -
  let ?c = "c\<lparr>tc_state := kConnected\<rparr>"
  from inv p obtain ch where ch: "w_chans w (tc_channel c) = Some ch" and l: "linked p c ch" and s: "state_ok c ch"
    and bufs: "buffer_inv (tc_inputBuffer c)" "buffer_inv (tc_outputBuffer c)" by (rule conns_invE)
  from s st have new: "ch_index ch = kNew" "ch_events ch = 0" "content (tc_outputBuffer c) = []" by (simp_all add: state_ok_def)
  let ?f = "\<lambda>e. e OR ReadEvent"
  have m: "plain_events (?f (ch_events ch))" using l by (auto simp: linked_def bit_simps)
  have "state_ok ?c (ch\<lparr>ch_events := ?f (ch_events ch), ch_added := True, ch_index := i\<rparr>)" if "i \<noteq> kNew" for i
    using that new by (simp add: state_ok_def isWriting_bit bit_simps)
  with m obtain w1 where w1: "set_events os ?f (tc_channel c) (put_conn p ?c w) = Inr w1" "conns_inv w1"
    "w1 = updated_world (tc_loop c) (tc_channel c) (ch\<lparr>ch_events := ?f (ch_events ch), ch_added := True\<rparr>) (put_conn p ?c w)"
    using conns_inv_events [OF os inv p ch, of ?c ?f] bufs by auto
  have "evolves forward (put_conn p ?c w) w1"
    unfolding w1(3) by (rule evolves_updated [where ch = ch]) (simp_all add: ch chan_frame_def)
  moreover have "evolves forward w (put_conn p ?c w)"
    by (rule evolves_put_conn [OF _ p]) (simp_all add: conn_frame_def forward_def st)
  ultimately have ev: "evolves forward w w1" using evolves_trans order_forward(1) by blast
  have "connectEstablished env os p w = call_cb env (tc_connectionCb c) p w1"
    using p st w1(1) by (simp add: connectEstablished_def enableReading_def)
  moreover have "interest (tc_loop c) (w_trace w1) (tc_sockfd c) = Some (ReadEvent, tc_channel c)"
    using new l by (simp add: w1(3) update_op_def index_defs linked_def)
  moreover have "cworld.more w1 = cworld.more w"
    by (simp add: w1(3) updated_world_def put_conn_def)
  ultimately show thesis using that [of w1] w1 ev ch by (simp add: w1(3))
qed

lemma safe_connectEstablished:
  assumes os: "epoll_ctl_contract os" and env: "polite env" and inv: "conns_inv w" and p: "cw_conns w p = Some c"
    and st: "tc_state c = kConnecting" and cb: "tc_connectionCb c \<noteq> None"
  shows "safe forward w (connectEstablished env os p w)"
proof -
  from os inv p st obtain w1 where w1: "connectEstablished env os p w = call_cb env (tc_connectionCb c) p w1" "conns_inv w1"
    "evolves forward w w1" "cw_conns w1 = (cw_conns w)(p \<mapsto> c\<lparr>tc_state := kConnected\<rparr>)"
    by (rule connectEstablished_up)
  have "safe forward w1 (call_cb env (tc_connectionCb c) p w1)"
    by (rule safe_call_cb [OF env w1(2) _ cb]) (simp add: w1(4))
  from safe_after [OF order_forward(1) w1(3) this] w1(1) show ?thesis by simp
qed

end
