(* ===== verification/RpcChannel.thy ===== *)
theory RpcChannel
  imports RpcCodec TcpConnection
begin

text \<open>
  \<open>rpc.proto\<close>, \<open>RpcChannel.h\<close>, \<open>RpcChannel.cc\<close> and the sending half of \<open>RpcCodec.cc\<close>. The serialisation
  of protobuf, the services and the closures are arguments; so is the transport, \<open>conn_send\<close>, which
  stands for \<open>TcpConnection::send\<close> and is instantiated with it by \<open>tcp_send\<close>. The state of a channel is
  paired with the world its calls run in.
\<close>

section \<open>rpc.proto\<close>

text \<open>Enumerations are open in proto3: an unknown value on the wire is kept.\<close>

datatype MessageType = REQUEST | RESPONSE | UnknownType int

datatype ErrorCode =
    NO_ERROR | WRONG_PROTO | NO_SERVICE | NO_METHOD | INVALID_REQUEST | INVALID_RESPONSE | TIMEOUT
  | UnknownError int

record RpcMessage =
  rm_type :: MessageType
  rm_id :: "64 word"
  rm_service :: string
  rm_method :: string
  rm_request :: "byte list"
  rm_response :: "byte list"
  rm_error :: ErrorCode

definition new_RpcMessage :: RpcMessage where
  "new_RpcMessage = \<lparr>rm_type = REQUEST, rm_id = 0, rm_service = '''', rm_method = '''', rm_request = [],
     rm_response = [], rm_error = NO_ERROR\<rparr>"

section \<open>ProtoRpcCodec::send\<close>

definition codec_send ::
  "(32 word \<Rightarrow> byte list \<Rightarrow> 32 word) \<Rightarrow> ('m \<Rightarrow> byte list) \<Rightarrow> (ptr \<Rightarrow> buffer \<Rightarrow> 'w \<Rightarrow> 'w res) \<Rightarrow>
   ptr option \<Rightarrow> 'm \<Rightarrow> 'w \<Rightarrow> 'w res" where
  "codec_send adler ser conn_send conn message w =
     bindR (encode_message adler ser message) (\<lambda>buf.
     bindR (derefR conn) (\<lambda>p. conn_send p buf w))"

definition tcp_send :: "'o os_scheme \<Rightarrow> ptr \<Rightarrow> buffer \<Rightarrow> 'a cworld_scheme \<Rightarrow> 'a cworld_scheme res" where
  "tcp_send os p buf w = bindR (send os p buf w) (\<lambda>(b, w'). Inr w')"

section \<open>State\<close>

record ('r, 'd) outstanding_call =
  oc_response :: "'r option"
  oc_done :: "'d option"

text \<open>A map of services may hold a null pointer, so its values are optional.\<close>

record ('r, 'd, 'v) rpc_channel =
  rc_conn :: "ptr option"
  rc_id :: "64 word"
  rc_outstandings :: "64 word \<rightharpoonup> ('r, 'd) outstanding_call"
  rc_services :: "(string \<rightharpoonup> 'v option) option"

text \<open>
  A service: whether a method exists, the request its bytes parse to, and the call, which is given
  what to do with the serialised response (\<open>done\<close>).
\<close>

record ('v, 'q, 's) service_ops =
  sv_has_method :: "'v \<Rightarrow> string \<Rightarrow> bool"
  sv_parse :: "'v \<Rightarrow> string \<Rightarrow> byte list \<Rightarrow> 'q option"
  sv_call :: "'v \<Rightarrow> string \<Rightarrow> 'q \<Rightarrow> (byte list \<Rightarrow> 's \<Rightarrow> 's res) \<Rightarrow> 's \<Rightarrow> 's res"

section \<open>RpcChannel.cc\<close>

text \<open>The constructors do not initialise \<open>id_\<close>: \<open>junk\<close> is what it holds.\<close>

definition mk_RpcChannel :: "64 word \<Rightarrow> ptr option \<Rightarrow> ('r, 'd, 'v) rpc_channel" where
  "mk_RpcChannel junk conn = \<lparr>rc_conn = conn, rc_id = junk, rc_outstandings = Map.empty, rc_services = None\<rparr>"

definition setConnection :: "ptr option \<Rightarrow> ('r, 'd, 'v) rpc_channel \<Rightarrow> ('r, 'd, 'v) rpc_channel" where
  "setConnection conn rc = rc\<lparr>rc_conn := conn\<rparr>"

definition setServices ::
  "(string \<rightharpoonup> 'v option) option \<Rightarrow> ('r, 'd, 'v) rpc_channel \<Rightarrow> ('r, 'd, 'v) rpc_channel" where
  "setServices services rc = rc\<lparr>rc_services := services\<rparr>"

text \<open>The destructor frees what is outstanding, without running it.\<close>

definition delete_RpcChannel :: "('r, 'd, 'v) rpc_channel \<Rightarrow> ('r, 'd, 'v) rpc_channel" where
  "delete_RpcChannel rc = rc\<lparr>rc_outstandings := Map.empty\<rparr>"

definition CallMethod ::
  "(ptr option \<Rightarrow> RpcMessage \<Rightarrow> 'w \<Rightarrow> 'w res) \<Rightarrow> string \<Rightarrow> string \<Rightarrow> byte list \<Rightarrow> 'r option \<Rightarrow> 'd option \<Rightarrow>
   ('r, 'd, 'v) rpc_channel \<times> 'w \<Rightarrow> (('r, 'd, 'v) rpc_channel \<times> 'w) res" where
  "CallMethod csend service method request response done = (\<lambda>(rc, w).
     let id = rc_id rc + 1;
         message = new_RpcMessage\<lparr>rm_type := REQUEST, rm_id := id, rm_service := service,
                     rm_method := method, rm_request := request\<rparr>;
         out = \<lparr>oc_response = response, oc_done = done\<rparr>;
         rc1 = rc\<lparr>rc_id := id, rc_outstandings := (rc_outstandings rc)(id \<mapsto> out)\<rparr> in
     bindR (csend (rc_conn rc1) message w) (\<lambda>w1. Inr (rc1, w1)))"

definition doneCallback ::
  "(ptr option \<Rightarrow> RpcMessage \<Rightarrow> 'w \<Rightarrow> 'w res) \<Rightarrow> 64 word \<Rightarrow> byte list \<Rightarrow>
   ('r, 'd, 'v) rpc_channel \<times> 'w \<Rightarrow> (('r, 'd, 'v) rpc_channel \<times> 'w) res" where
  "doneCallback csend call_id response = (\<lambda>(rc, w).
     let message = new_RpcMessage\<lparr>rm_type := RESPONSE, rm_id := call_id, rm_response := response\<rparr> in
     bindR (csend (rc_conn rc) message w) (\<lambda>w1. Inr (rc, w1)))"

text \<open>\<open>pfs\<close> is \<open>ParseFromString\<close> on a message object, \<open>run_done\<close> runs a closure bound to one.\<close>

definition handle_response_msg ::
  "('r \<Rightarrow> byte list \<Rightarrow> 'r) \<Rightarrow>
   ('d \<Rightarrow> 'r \<Rightarrow> ('r, 'd, 'v) rpc_channel \<times> 'w \<Rightarrow> (('r, 'd, 'v) rpc_channel \<times> 'w) res) \<Rightarrow>
   RpcMessage \<Rightarrow> ('r, 'd, 'v) rpc_channel \<times> 'w \<Rightarrow> (('r, 'd, 'v) rpc_channel \<times> 'w) res" where
  "handle_response_msg pfs run_done message = (\<lambda>(rc, w).
     let id = rm_id message;
         (out, rc1) = (case rc_outstandings rc id of
            Some o' \<Rightarrow> (o', rc\<lparr>rc_outstandings := (rc_outstandings rc)(id := None)\<rparr>)
          | None \<Rightarrow> (\<lparr>oc_response = None, oc_done = None\<rparr>, rc)) in
     case oc_response out of
       None \<Rightarrow> Inr (rc1, w)
     | Some r \<Rightarrow>
         let r1 = (if rm_response message \<noteq> [] then pfs r (rm_response message) else r) in
         (case oc_done out of None \<Rightarrow> Inr (rc1, w) | Some d \<Rightarrow> run_done d r1 (rc1, w)))"

definition handle_request_msg ::
  "(ptr option \<Rightarrow> RpcMessage \<Rightarrow> 'w \<Rightarrow> 'w res) \<Rightarrow> ('v, 'q, ('r, 'd, 'v) rpc_channel \<times> 'w) service_ops \<Rightarrow>
   RpcMessage \<Rightarrow> ('r, 'd, 'v) rpc_channel \<times> 'w \<Rightarrow> (('r, 'd, 'v) rpc_channel \<times> 'w) res" where
  "handle_request_msg csend ops message = (\<lambda>(rc, w).
     bindR
       (case rc_services rc of
          None \<Rightarrow> Inr (NO_SERVICE, (rc, w))
        | Some services \<Rightarrow>
            (case services (rm_service message) of
               None \<Rightarrow> Inr (NO_SERVICE, (rc, w))
             | Some service' \<Rightarrow>
                 assertR (service' \<noteq> None)
                   (bindR (derefR service') (\<lambda>service.
                      if sv_has_method ops service (rm_method message) then
                        (case sv_parse ops service (rm_method message) (rm_request message) of
                           Some request \<Rightarrow>
                             bindR (sv_call ops service (rm_method message) request
                                      (doneCallback csend (rm_id message)) (rc, w))
                               (\<lambda>s1. Inr (NO_ERROR, s1))
                         | None \<Rightarrow> Inr (INVALID_REQUEST, (rc, w)))
                      else Inr (NO_METHOD, (rc, w))))))
       (\<lambda>(error, (rc1, w1)).
          if error \<noteq> NO_ERROR then
            let response = new_RpcMessage\<lparr>rm_type := RESPONSE, rm_id := rm_id message, rm_error := error\<rparr> in
            bindR (csend (rc_conn rc1) response w1) (\<lambda>w2. Inr (rc1, w2))
          else Inr (rc1, w1)))"

definition onRpcMessage ::
  "(ptr option \<Rightarrow> RpcMessage \<Rightarrow> 'w \<Rightarrow> 'w res) \<Rightarrow> ('v, 'q, ('r, 'd, 'v) rpc_channel \<times> 'w) service_ops \<Rightarrow>
   ('r \<Rightarrow> byte list \<Rightarrow> 'r) \<Rightarrow>
   ('d \<Rightarrow> 'r \<Rightarrow> ('r, 'd, 'v) rpc_channel \<times> 'w \<Rightarrow> (('r, 'd, 'v) rpc_channel \<times> 'w) res) \<Rightarrow>
   ptr \<Rightarrow> RpcMessage \<Rightarrow> ('r, 'd, 'v) rpc_channel \<times> 'w \<Rightarrow> (('r, 'd, 'v) rpc_channel \<times> 'w) res" where
  "onRpcMessage csend ops pfs run_done conn message = (\<lambda>(rc, w).
     assertR (rc_conn rc = Some conn)
       (if rm_type message = RESPONSE then handle_response_msg pfs run_done message (rc, w)
        else if rm_type message = REQUEST then handle_request_msg csend ops message (rc, w)
        else Inr (rc, w)))"

definition onMessage_channel ::
  "(32 word \<Rightarrow> byte list \<Rightarrow> 32 word) \<Rightarrow> (byte list \<Rightarrow> RpcMessage option) \<Rightarrow>
   (ptr option \<Rightarrow> RpcMessage \<Rightarrow> 'w \<Rightarrow> 'w res) \<Rightarrow> ('v, 'q, ('r, 'd, 'v) rpc_channel \<times> 'w) service_ops \<Rightarrow>
   ('r \<Rightarrow> byte list \<Rightarrow> 'r) \<Rightarrow>
   ('d \<Rightarrow> 'r \<Rightarrow> ('r, 'd, 'v) rpc_channel \<times> 'w \<Rightarrow> (('r, 'd, 'v) rpc_channel \<times> 'w) res) \<Rightarrow>
   ptr \<Rightarrow> buffer \<Rightarrow> ('r, 'd, 'v) rpc_channel \<times> 'w \<Rightarrow> (buffer \<times> ('r, 'd, 'v) rpc_channel \<times> 'w) res" where
  "onMessage_channel adler pfa csend ops pfs run_done conn buf s =
     onMessage adler pfa (onRpcMessage csend ops pfs run_done conn) buf s"

section \<open>Responses\<close>

text \<open>
  A closure that records that it ran, and with what. In the world of a client this is all that is
  observed.
\<close>

definition log_done ::
  "'d \<Rightarrow> 'r \<Rightarrow> ('r, 'd, 'v) rpc_channel \<times> 'w \<times> ('d \<times> 'r) list \<Rightarrow>
   (('r, 'd, 'v) rpc_channel \<times> 'w \<times> ('d \<times> 'r) list) res" where
  "log_done d r = (\<lambda>(rc, w, log). Inr (rc, w, log @ [(d, r)]))"

text \<open>The first message of a list for every identifier in a set.\<close>

fun firsts :: "64 word set \<Rightarrow> RpcMessage list \<Rightarrow> RpcMessage list" where
  "firsts S [] = []"
| "firsts S (m # ms) = (if rm_id m \<in> S then m # firsts (S - {rm_id m}) ms else firsts S ms)"

lemma firsts_distinct: "distinct (map rm_id (firsts S ms)) \<and> rm_id ` set (firsts S ms) = S \<inter> rm_id ` set ms"
  by (induction ms arbitrary: S) auto

text \<open>Calls that have both a response object and a closure.\<close>

definition complete :: "(64 word \<rightharpoonup> ('r, 'd) outstanding_call) \<Rightarrow> bool" where
  "complete outs \<longleftrightarrow> (\<forall>i out. outs i = Some out \<longrightarrow> oc_response out \<noteq> None \<and> oc_done out \<noteq> None)"

definition answer :: "('r \<Rightarrow> byte list \<Rightarrow> 'r) \<Rightarrow> (64 word \<rightharpoonup> ('r, 'd) outstanding_call) \<Rightarrow> RpcMessage \<Rightarrow> 'd \<times> 'r" where
  "answer pfs outs m = (let out = the (outs (rm_id m)); r = the (oc_response out) in
     (the (oc_done out), if rm_response m \<noteq> [] then pfs r (rm_response m) else r))"

lemma handle_response_msg_hit:
  assumes "rc_outstandings rc (rm_id m) = Some out" "oc_response out = Some r" "oc_done out = Some d"
  shows "handle_response_msg pfs log_done m (rc, w, log) =
    Inr (rc\<lparr>rc_outstandings := (rc_outstandings rc)(rm_id m := None)\<rparr>, w,
         log @ [answer pfs (rc_outstandings rc) m])"
  using assms by (simp add: handle_response_msg_def Let_def log_done_def answer_def)

lemma handle_response_msg_miss:
  assumes "rc_outstandings rc (rm_id m) = None"
  shows "handle_response_msg pfs run_done m (rc, w) = Inr (rc, w)"
  using assms by (simp add: handle_response_msg_def Let_def)

lemma responses_run:
  assumes "complete (rc_outstandings rc)"
  shows "foldR (handle_response_msg pfs log_done) ms (rc, w, log) =
      Inr (rc\<lparr>rc_outstandings := rc_outstandings rc |` (- rm_id ` set ms)\<rparr>, w,
           log @ map (answer pfs (rc_outstandings rc)) (firsts (dom (rc_outstandings rc)) ms))"
  using assms
proof (induction ms arbitrary: rc log)
  case (Cons m ms)
  show ?case
  proof (cases "rc_outstandings rc (rm_id m)")
    case None
    then have "rm_id m \<notin> dom (rc_outstandings rc)" by auto
    moreover have "rc_outstandings rc |` (- rm_id ` set (m # ms)) = rc_outstandings rc |` (- rm_id ` set ms)"
      using None by (auto simp: restrict_map_def)
    ultimately show ?thesis
      using Cons None by (simp add: handle_response_msg_miss)
  next
    case (Some out)
    define outs where "outs = (rc_outstandings rc)(rm_id m := None)"
    let ?rc = "rc\<lparr>rc_outstandings := outs\<rparr>" and ?log = "log @ [answer pfs (rc_outstandings rc) m]"
    from Cons.prems Some obtain r d where rd: "oc_response out = Some r" "oc_done out = Some d"
      unfolding complete_def by blast
    have step: "handle_response_msg pfs log_done m (rc, w, log) = Inr (?rc, w, ?log)"
      unfolding outs_def by (rule handle_response_msg_hit [OF Some rd])
    have "complete (rc_outstandings ?rc)"
      using Cons.prems by (simp add: complete_def outs_def)
    from Cons.IH [OF this, of ?log]
    have rest: "foldR (handle_response_msg pfs log_done) ms (?rc, w, ?log) =
        Inr (rc\<lparr>rc_outstandings := outs |` (- rm_id ` set ms)\<rparr>, w, ?log @ map (answer pfs outs) (firsts (dom outs) ms))"
      by simp
    have dom: "dom outs = dom (rc_outstandings rc) - {rm_id m}" by (auto simp: outs_def)
    have same: "map (answer pfs outs) (firsts (dom outs) ms) = map (answer pfs (rc_outstandings rc)) (firsts (dom outs) ms)"
    proof (rule map_cong [OF refl])
      fix x assume "x \<in> set (firsts (dom outs) ms)"
      then have "rm_id x \<noteq> rm_id m" using firsts_distinct [of "dom outs" ms] dom by blast
      then show "answer pfs outs x = answer pfs (rc_outstandings rc) x" by (simp add: answer_def outs_def)
    qed
    have "outs |` (- rm_id ` set ms) = rc_outstandings rc |` (- rm_id ` set (m # ms))"
      by (auto simp: restrict_map_def outs_def)
    with step rest same dom Some show ?thesis by (simp add: domI)
  qed
qed (simp add: restrict_map_def)

text \<open>
  C11: every call is completed exactly once. Whatever responses arrive on a channel, in any order,
  repeated or with identifiers that are not outstanding, the closure of an outstanding call runs
  once, at the first response with the identifier of the call, with the message object that
  response was parsed into; calls without a response stay outstanding, and unknown or repeated
  responses are ignored.
\<close>

theorem responses_complete_calls_once:
  assumes "complete (rc_outstandings rc)"
  shows "foldR (handle_response_msg pfs log_done) ms (rc, w, log) =
      Inr (rc\<lparr>rc_outstandings := rc_outstandings rc |` (- rm_id ` set ms)\<rparr>, w,
           log @ map (answer pfs (rc_outstandings rc)) (firsts (dom (rc_outstandings rc)) ms)) \<and>
    distinct (map rm_id (firsts (dom (rc_outstandings rc)) ms)) \<and>
    rm_id ` set (firsts (dom (rc_outstandings rc)) ms) = dom (rc_outstandings rc) \<inter> rm_id ` set ms"
  using firsts_distinct [of "dom (rc_outstandings rc)" ms] by (simp add: responses_run [OF assms])

definition model_rc :: "(byte list, nat, nat) rpc_channel" where
  "model_rc = \<lparr>rc_conn = Some 3, rc_id = 2, rc_outstandings = [1 \<mapsto> \<lparr>oc_response = Some [], oc_done = Some 11\<rparr>,
     2 \<mapsto> \<lparr>oc_response = Some [], oc_done = Some 12\<rparr>], rc_services = None\<rparr>"

definition model_response :: "64 word \<Rightarrow> byte list \<Rightarrow> RpcMessage" where
  "model_response i d = new_RpcMessage\<lparr>rm_type := RESPONSE, rm_id := i, rm_response := d\<rparr>"

theorem responses_complete_calls_once_witness:
  "\<exists>rc. foldR (handle_response_msg (\<lambda>r d. d) log_done) [model_response 2 [5], model_response 2 [6], model_response 9 [7]]
       (model_rc, (), []) = Inr (rc, (), [(12, [5])])"
proof -
  have c: "complete (rc_outstandings model_rc)"
    by (simp add: complete_def model_rc_def)
  have d: "dom (rc_outstandings model_rc) = {1, 2}"
    by (auto simp: model_rc_def)
  show ?thesis
    using responses_complete_calls_once [OF c, of "\<lambda>r d. d"
        "[model_response 2 [5], model_response 2 [6], model_response 9 [7]]" "()" "[]"]
    by (simp add: d model_response_def new_RpcMessage_def answer_def model_rc_def)
qed

section \<open>Requests\<close>

text \<open>The stream of a connection that is up takes over the bytes of every buffer that is sent.\<close>

definition wire_send :: "ptr \<Rightarrow> buffer \<Rightarrow> byte list \<times> 'l \<Rightarrow> (byte list \<times> 'l) res" where
  "wire_send p buf = (\<lambda>(bytes, log). Inr (bytes @ content buf, log))"

lemma codec_send_wire:
  assumes "length (ser m) + 8 < 2 ^ 31"
  shows "codec_send adler ser wire_send (Some p) m (bytes, log) = Inr (bytes @ frame adler ser m, log)"
proof -
  from encode_message_ok [where ser = ser and m = m and adler = adler, OF assms]
  obtain b where "encode_message adler ser m = Inr b" "content b = frame adler ser m" by blast
  then show ?thesis by (simp add: codec_send_def wire_send_def)
qed

definition error_reply :: "ErrorCode \<Rightarrow> RpcMessage \<Rightarrow> RpcMessage" where
  "error_reply e m = new_RpcMessage\<lparr>rm_type := RESPONSE, rm_id := rm_id m, rm_error := e\<rparr>"

definition result_reply :: "byte list \<Rightarrow> RpcMessage \<Rightarrow> RpcMessage" where
  "result_reply r m = new_RpcMessage\<lparr>rm_type := RESPONSE, rm_id := rm_id m, rm_response := r\<rparr>"

text \<open>The reply to a request, by what is registered; \<open>serve\<close> is what the methods compute.\<close>

definition reply ::
  "(string \<rightharpoonup> 'v option) option \<Rightarrow> ('v, 'q, 's) service_ops \<Rightarrow> ('v \<Rightarrow> string \<Rightarrow> 'q \<Rightarrow> byte list) \<Rightarrow>
   RpcMessage \<Rightarrow> RpcMessage" where
  "reply services ops serve m =
     (case services of
        None \<Rightarrow> error_reply NO_SERVICE m
      | Some svs \<Rightarrow> (case svs (rm_service m) of
          Some (Some v) \<Rightarrow>
            if sv_has_method ops v (rm_method m) then
              (case sv_parse ops v (rm_method m) (rm_request m) of
                 Some q \<Rightarrow> result_reply (serve v (rm_method m) q) m
               | None \<Rightarrow> error_reply INVALID_REQUEST m)
            else error_reply NO_METHOD m
        | _ \<Rightarrow> error_reply NO_SERVICE m))"

text \<open>Services answer at once, and no null pointer is registered.\<close>

definition prompt :: "('v, 'q, 's) service_ops \<Rightarrow> ('v \<Rightarrow> string \<Rightarrow> 'q \<Rightarrow> byte list) \<Rightarrow> bool" where
  "prompt ops serve \<longleftrightarrow> (\<forall>v m q k s. sv_call ops v m q k s = k (serve v m q) s)"

definition no_null :: "(string \<rightharpoonup> 'v option) option \<Rightarrow> bool" where
  "no_null services \<longleftrightarrow> (\<forall>svs n. services = Some svs \<longrightarrow> svs n \<noteq> Some None)"

lemma rm_id_reply [simp]: "rm_id (reply services ops serve m) = rm_id m" "rm_type (reply services ops serve m) = RESPONSE"
  by (simp_all add: reply_def error_reply_def result_reply_def new_RpcMessage_def split: option.splits)

lemma handle_request_reply:
  assumes "prompt ops serve" "no_null (rc_services rc)"
  shows "handle_request_msg csend ops m (rc, w) =
    bindR (csend (rc_conn rc) (reply (rc_services rc) ops serve m) w) (\<lambda>w'. Inr (rc, w'))"
proof (cases "rc_services rc")
  case None
  then show ?thesis by (simp add: handle_request_msg_def reply_def error_reply_def)
next
  case (Some svs)
  show ?thesis
  proof (cases "svs (rm_service m)")
    case None
    with Some show ?thesis by (simp add: handle_request_msg_def reply_def error_reply_def)
  next
    case svc: (Some v')
    with assms(2) Some obtain v where "v' = Some v" unfolding no_null_def by (cases v') auto
    with Some svc assms(1) show ?thesis
      by (cases "sv_parse ops v (rm_method m) (rm_request m)")
        (simp_all add: handle_request_msg_def reply_def error_reply_def result_reply_def prompt_def
          doneCallback_def bindR_assoc Let_def)
  qed
qed

lemma requests_run:
  assumes "prompt ops serve" "no_null (rc_services rc)" "rc_conn rc = Some conn"
    and "\<forall>m \<in> set ms. rm_type m = REQUEST \<and> length (ser (reply (rc_services rc) ops serve m)) + 8 < 2 ^ 31"
  shows "foldR (onRpcMessage (codec_send adler ser wire_send) ops pfs run_done conn) ms (rc, bytes, log) =
    Inr (rc, bytes @ concat (map (\<lambda>m. frame adler ser (reply (rc_services rc) ops serve m)) ms), log)"
  using assms(4)
proof (induction ms arbitrary: bytes)
  case (Cons m ms)
  then have "onRpcMessage (codec_send adler ser wire_send) ops pfs run_done conn m (rc, bytes, log) =
      Inr (rc, bytes @ frame adler ser (reply (rc_services rc) ops serve m), log)"
    using assms(1-3) handle_request_reply [where csend = "codec_send adler ser wire_send", OF assms(1,2)]
    by (simp add: onRpcMessage_def codec_send_wire)
  with Cons show ?case by simp
qed simp

text \<open>
  C12: every request gets exactly one reply. A channel whose services answer each call once turns
  any sequence of requests into the sequence of their replies, in order and with the same
  identifiers: the result when service and method are registered and the request parses, and
  otherwise an error that says which of the three failed; no assertion fails.
\<close>

theorem requests_are_answered_once:
  assumes "prompt ops serve" "no_null (rc_services rc)" "rc_conn rc = Some conn"
    and "\<forall>m \<in> set ms. rm_type m = REQUEST \<and> length (ser (reply (rc_services rc) ops serve m)) + 8 < 2 ^ 31"
  shows "foldR (onRpcMessage (codec_send adler ser wire_send) ops pfs run_done conn) ms (rc, bytes, log) =
      Inr (rc, bytes @ concat (map (frame adler ser) (map (reply (rc_services rc) ops serve) ms)), log) \<and>
    map rm_id (map (reply (rc_services rc) ops serve) ms) = map rm_id ms"
  using requests_run [OF assms] by (simp add: comp_def)

text \<open>A service that echoes requests of at most three bytes.\<close>

definition echo_ops :: "(nat, byte list, 's) service_ops" where
  "echo_ops = \<lparr>sv_has_method = (\<lambda>v m. m = ''echo''),
     sv_parse = (\<lambda>v m d. if length d \<le> 3 then Some d else None),
     sv_call = (\<lambda>v m q k s. k q s)\<rparr>"

definition echo_rc :: "(byte list, nat, nat) rpc_channel" where
  "echo_rc = \<lparr>rc_conn = Some 4, rc_id = 0, rc_outstandings = Map.empty, rc_services = Some [''Echo'' \<mapsto> Some 1]\<rparr>"

definition model_request :: "64 word \<Rightarrow> string \<Rightarrow> byte list \<Rightarrow> RpcMessage" where
  "model_request i meth d = new_RpcMessage\<lparr>rm_id := i, rm_service := ''Echo'', rm_method := meth, rm_request := d\<rparr>"

lemma echo_facts: "prompt echo_ops (\<lambda>v m q. q)" "no_null (rc_services echo_rc)" "rc_conn echo_rc = Some 4"
  by (auto simp: prompt_def echo_ops_def no_null_def echo_rc_def)

theorem requests_are_answered_once_witness:
  "foldR (onRpcMessage (codec_send adler32_ref rm_response wire_send) echo_ops (\<lambda>r d. d) log_done 4)
     [model_request 1 ''echo'' [7], model_request 2 ''other'' []] (echo_rc, [], []) =
   Inr (echo_rc, frame adler32_ref rm_response (result_reply [7] (model_request 1 ''echo'' [7])) @
      frame adler32_ref rm_response (error_reply NO_METHOD (model_request 2 ''other'' [])), [])"
proof -
  have r: "reply (rc_services echo_rc) echo_ops (\<lambda>v m q. q) (model_request 1 ''echo'' [7]) =
      result_reply [7] (model_request 1 ''echo'' [7])"
    "reply (rc_services echo_rc) echo_ops (\<lambda>v m q. q) (model_request 2 ''other'' []) =
      error_reply NO_METHOD (model_request 2 ''other'' [])"
    by (simp_all add: reply_def echo_rc_def echo_ops_def model_request_def)
  have t: "rm_type (model_request i meth d) = REQUEST" for i meth d
    by (simp add: model_request_def new_RpcMessage_def)
  have p: "\<forall>m \<in> set [model_request 1 ''echo'' [7], model_request 2 ''other'' []]. rm_type m = REQUEST \<and>
      length (rm_response (reply (rc_services echo_rc) echo_ops (\<lambda>v m q. q) m)) + 8 < 2 ^ 31"
    by (simp add: r t) (simp add: result_reply_def error_reply_def new_RpcMessage_def)
  show ?thesis
    using requests_are_answered_once [OF echo_facts p, of adler32_ref "\<lambda>r d. d" log_done "[]" "[]"]
    by (simp add: r del: foldR.simps)
qed

end
