(* ===== verification/RpcPair.thy ===== *)
theory RpcPair
  imports RpcChannel
begin

text \<open>
  A client channel and a server channel, joined by byte streams: runs of calls, the requests and replies
  they make, and what becomes of them when the bytes arrive in arbitrary pieces.
\<close>

section \<open>Calls\<close>

text \<open>A call of a stub: service, method, request, and the response object and closure it hands over.\<close>

type_synonym ('r, 'd) call = "string \<times> string \<times> byte list \<times> 'r \<times> 'd"

definition call_op ::
  "(ptr option \<Rightarrow> RpcMessage \<Rightarrow> 'w \<Rightarrow> 'w res) \<Rightarrow> ('r, 'd) call \<Rightarrow>
   ('r, 'd, 'v) rpc_channel \<times> 'w \<Rightarrow> (('r, 'd, 'v) rpc_channel \<times> 'w) res" where
  "call_op csend = (\<lambda>(sv, m, q, r, d). CallMethod csend sv m q (Some r) (Some d))"

text \<open>The identifiers, requests and table entries of a run of calls, and the entry a reply leads to.\<close>

definition call_ids :: "64 word \<Rightarrow> nat \<Rightarrow> 64 word list" where
  "call_ids i n = map (\<lambda>k. i + of_nat (Suc k)) [0..<n]"

definition call_request :: "64 word \<Rightarrow> ('r, 'd) call \<Rightarrow> RpcMessage" where
  "call_request i = (\<lambda>(sv, m, q, r, d). new_RpcMessage\<lparr>rm_type := REQUEST, rm_id := i, rm_service := sv,
     rm_method := m, rm_request := q\<rparr>)"

definition call_entry :: "('r, 'd) call \<Rightarrow> ('r, 'd) outstanding_call" where
  "call_entry = (\<lambda>(sv, m, q, r, d). \<lparr>oc_response = Some r, oc_done = Some d\<rparr>)"

definition call_requests :: "64 word \<Rightarrow> ('r, 'd) call list \<Rightarrow> RpcMessage list" where
  "call_requests i cs = map2 call_request (call_ids i (length cs)) cs"

definition call_result :: "('r \<Rightarrow> byte list \<Rightarrow> 'r) \<Rightarrow> ('r, 'd) call \<Rightarrow> RpcMessage \<Rightarrow> 'd \<times> 'r" where
  "call_result pfs = (\<lambda>(sv, m, q, r, d) rep. (d, if rm_response rep \<noteq> [] then pfs r (rm_response rep) else r))"

lemma length_call_ids [simp]: "length (call_ids i n) = n"
  by (simp add: call_ids_def)

lemma call_ids_Suc: "call_ids i (Suc n) = (i + 1) # call_ids (i + 1) n"
proof -
  have "[0..<Suc n] = 0 # map Suc [0..<n]" by (simp add: upt_conv_Cons map_Suc_upt del: upt_Suc)
  then show ?thesis by (simp add: call_ids_def comp_def algebra_simps del: upt_Suc)
qed

lemma call_ids_distinct:
  assumes "n < 2 ^ 64"
  shows "distinct (call_ids i n)"
  unfolding call_ids_def distinct_map
proof (intro conjI inj_onI)
  fix x y assume xy: "x \<in> set [0..<n]" "y \<in> set [0..<n]" "i + of_nat (Suc x) = i + of_nat (Suc y)"
  then have "unat (of_nat (Suc x) :: 64 word) = unat (of_nat (Suc y) :: 64 word)" by simp
  with xy(1,2) assms show "x = y" by (simp add: unat_of_nat take_bit_eq_mod del: of_nat_Suc)
qed simp

lemma calls_run:
  assumes "rc_conn rc = Some p" "length cs < 2 ^ 64"
    and "\<forall>m \<in> set (call_requests (rc_id rc) cs). length (ser m) + 8 < 2 ^ 31"
  shows "foldR (call_op (codec_send adler ser wire_send)) cs (rc, bytes, log) =
    Inr (rc\<lparr>rc_id := rc_id rc + of_nat (length cs),
            rc_outstandings := rc_outstandings rc ++ map_of (zip (call_ids (rc_id rc) (length cs)) (map call_entry cs))\<rparr>,
         bytes @ concat (map (frame adler ser) (call_requests (rc_id rc) cs)), log)"
  using assms
proof (induction cs arbitrary: rc bytes)
  case (Cons c cs)
  obtain sv m q r d where c: "c = (sv, m, q, r, d)" by (cases c) auto
  define i where "i = rc_id rc + 1"
  define outs where "outs = (rc_outstandings rc)(i \<mapsto> call_entry c)"
  let ?rc = "rc\<lparr>rc_id := i, rc_outstandings := outs\<rparr>"
  have reqs: "call_requests (rc_id rc) (c # cs) = call_request i c # call_requests i cs"
    by (simp add: call_requests_def call_ids_Suc i_def)
  have step: "call_op (codec_send adler ser wire_send) c (rc, bytes, log) =
      Inr (?rc, bytes @ frame adler ser (call_request i c), log)"
    using Cons.prems reqs codec_send_wire [where ser = ser and m = "call_request i c" and adler = adler and p = p
        and bytes = bytes and log = log]
    by (simp add: c call_op_def CallMethod_def call_request_def call_entry_def i_def outs_def Let_def)
  have rest: "foldR (call_op (codec_send adler ser wire_send)) cs (?rc, bytes @ frame adler ser (call_request i c), log) =
      Inr (rc\<lparr>rc_id := i + of_nat (length cs),
            rc_outstandings := outs ++ map_of (zip (call_ids i (length cs)) (map call_entry cs))\<rparr>,
         (bytes @ frame adler ser (call_request i c)) @ concat (map (frame adler ser) (call_requests i cs)), log)"
    using Cons.IH [of ?rc "bytes @ frame adler ser (call_request i c)"] Cons.prems reqs by simp
  have "i \<notin> dom (map_of (zip (call_ids i (length cs)) (map call_entry cs)))"
    using call_ids_distinct [OF Cons.prems(2), of "rc_id rc"]
    by (simp add: call_ids_Suc i_def dom_map_of_zip)
  then have outs: "outs ++ map_of (zip (call_ids i (length cs)) (map call_entry cs)) =
      rc_outstandings rc ++ map_of (zip (call_ids (rc_id rc) (length (c # cs))) (map call_entry (c # cs)))"
    by (simp add: outs_def call_ids_Suc i_def [symmetric] map_add_upd_left)
  from step rest outs reqs show ?case
    by (simp add: i_def algebra_simps)
qed (simp add: call_requests_def)

lemma firsts_all: "distinct (map rm_id ms) \<Longrightarrow> rm_id ` set ms \<subseteq> S \<Longrightarrow> firsts S ms = ms"
proof (induction ms arbitrary: S)
  case (Cons m ms)
  then have "rm_id ` set ms \<subseteq> S - {rm_id m}" by (auto simp: image_iff)
  with Cons show ?case by simp
qed simp

lemma onRpcMessage_responses:
  assumes "\<forall>m \<in> set ms. rm_type m = RESPONSE" "rc_conn rc = Some conn"
  shows "foldR (onRpcMessage csend ops pfs log_done conn) ms (rc, w, log) =
    foldR (handle_response_msg pfs log_done) ms (rc, w, log)"
  using assms
proof (induction ms arbitrary: rc w log)
  case (Cons m ms)
  have "\<exists>rc' w' log'. handle_response_msg pfs log_done m (rc, w, log) = Inr (rc', w', log') \<and> rc_conn rc' = rc_conn rc"
    by (simp add: handle_response_msg_def Let_def log_done_def split: option.splits)
  then obtain rc' w' log' where "handle_response_msg pfs log_done m (rc, w, log) = Inr (rc', w', log')"
    "rc_conn rc' = rc_conn rc" by blast
  with Cons show ?case by (simp add: onRpcMessage_def)
qed simp

lemma rm_id_call_requests: "map rm_id (call_requests i cs) = call_ids i (length cs)"
  by (rule nth_equalityI) (simp_all add: call_requests_def call_request_def split_beta)

lemma rm_type_call_requests: "m \<in> set (call_requests i cs) \<Longrightarrow> rm_type m = REQUEST"
  by (auto simp: call_requests_def call_request_def set_zip)

lemma sendable_short: "sendable ser pfa m \<Longrightarrow> length (ser m) + 8 < 2 ^ 31"
  by (simp add: sendable_def kMaxMessageLen_def)

text \<open>Frames that arrive in any segmentation on an empty buffer are handed over in order.\<close>

lemma feed_frames:
  assumes "is_adler32 adler" "\<forall>m \<in> set ms. sendable ser pfa m" "buffer_inv b" "content b = []"
    and "concat chunks = concat (map (frame adler ser) ms)" "has_room b (length (concat chunks))"
  shows "\<exists>b'. buffer_inv b' \<and> content b' = [] \<and>
    feed adler pfa cb chunks b w = bindR (foldR cb ms w) (\<lambda>w'. Inr (b', w'))"
proof -
  have "drain (decode_step adler pfa) (content b @ concat chunks) = (ms, [])"
    using assms(4,5) drain_frames [OF assms(2), of adler "[]"] by simp
  moreover have "drain (decode_step adler pfa) (content b) = ([], content b)"
    using assms(4) by (simp add: rpcdec.drain_None)
  ultimately show ?thesis using feed_drain [OF assms(1,3,6), of pfa cb w] by auto
qed

text \<open>The replies to a run of calls complete the calls, one closure after the other.\<close>

lemma replies_complete:
  assumes "length cs < 2 ^ 64" "length reps = length cs" "map rm_id reps = call_ids i (length cs)"
    and "\<forall>m \<in> set reps. rm_type m = RESPONSE" "rc_conn rc = Some conn"
    and "rc_outstandings rc = map_of (zip (call_ids i (length cs)) (map call_entry cs))"
  shows "foldR (onRpcMessage csend ops pfs log_done conn) reps (rc, w, []) =
    Inr (rc\<lparr>rc_outstandings := Map.empty\<rparr>, w, map2 (call_result pfs) cs reps)"
proof -
  let ?outs = "map_of (zip (call_ids i (length cs)) (map call_entry cs))"
  have dom: "dom ?outs = rm_id ` set reps"
    using assms(3) by (simp add: dom_map_of_zip flip: set_map)
  have "complete ?outs"
    by (auto simp: complete_def call_entry_def set_zip dest!: map_of_SomeD split: prod.splits)
  note run = responses_run [of rc pfs reps w "[]", unfolded assms(6), OF this]
  have "firsts (dom ?outs) reps = reps"
    using call_ids_distinct [OF assms(1)] assms(3) by (intro firsts_all) (simp_all add: dom)
  moreover have "?outs |` (- rm_id ` set reps) = Map.empty"
    using dom by (auto simp: restrict_map_def fun_eq_iff)
  moreover have "map (answer pfs ?outs) reps = map2 (call_result pfs) cs reps"
  proof (rule nth_equalityI)
    fix k assume "k < length (map (answer pfs ?outs) reps)"
    then have k: "k < length cs" using assms(2) by simp
    have "rm_id (reps ! k) = call_ids i (length cs) ! k"
      using k assms(2,3) by (metis nth_map)
    moreover have "?outs (call_ids i (length cs) ! k) = Some (map call_entry cs ! k)"
      using k call_ids_distinct [OF assms(1)] by (intro map_of_zip_nth) simp_all
    ultimately show "map (answer pfs ?outs) reps ! k = map2 (call_result pfs) cs reps ! k"
      using k assms(2) by (simp add: answer_def call_entry_def call_result_def split_beta Let_def)
  qed (simp add: assms(2))
  ultimately show ?thesis
    using run by (simp add: onRpcMessage_responses [OF assms(4,5)])
qed

lemma pair_runs:
  assumes "is_adler32 adler" "prompt ops serve" "no_null (rc_services srv)"
    and "rc_conn srv = Some sp" "rc_conn cl = Some cp" "rc_outstandings cl = Map.empty" "length cs < 2 ^ 64"
    and "reqs = call_requests (rc_id cl) cs" "reps = map (reply (rc_services srv) ops serve) reqs"
    and "\<forall>m \<in> set (reqs @ reps). sendable ser pfa m"
    and "buffer_inv sb" "content sb = []" "buffer_inv cb" "content cb = []"
    and "csend = codec_send adler ser wire_send" "ssend = codec_send adler ser wire_send"
    and "has_room sb (length (concat (map (frame adler ser) reqs)))"
    and "has_room cb (length (concat (map (frame adler ser) reps)))"
  shows "\<exists>cl1 out ret.
    foldR (call_op csend) cs (cl, [], []) = Inr (cl1, out, []) \<and>
    (\<forall>chunks. concat chunks = out \<longrightarrow>
      (\<exists>sb'. content sb' = [] \<and>
        feed adler pfa (onRpcMessage ssend ops spfs log_done sp) chunks sb (srv, [], []) = Inr (sb', srv, ret, []))) \<and>
    (\<forall>chunks. concat chunks = ret \<longrightarrow>
      (\<exists>cb'. content cb' = [] \<and>
        feed adler pfa (onRpcMessage csend cops pfs log_done cp) chunks cb (cl1, out, []) =
          Inr (cb', cl1\<lparr>rc_outstandings := Map.empty\<rparr>, out, map2 (call_result pfs) cs reps)))"
proof -
  let ?ids = "call_ids (rc_id cl) (length cs)"
  let ?out = "concat (map (frame adler ser) reqs)" and ?ret = "concat (map (frame adler ser) reps)"
  let ?cl1 = "cl\<lparr>rc_id := rc_id cl + of_nat (length cs), rc_outstandings := map_of (zip ?ids (map call_entry cs))\<rparr>"
  have sendq: "\<forall>m \<in> set reqs. sendable ser pfa m" and sendp: "\<forall>m \<in> set reps. sendable ser pfa m"
    using assms(10) by auto
  have calls: "foldR (call_op csend) cs (cl, [], []) = Inr (?cl1, ?out, [])"
    using calls_run [where rc = cl and cs = cs and ser = ser and adler = adler and bytes = "[]" and log = "[]" and p = cp]
      assms(5-8,15) sendq sendable_short by (metis append_Nil empty_map_add)
  have "\<forall>m \<in> set reqs. rm_type m = REQUEST \<and> length (ser (reply (rc_services srv) ops serve m)) + 8 < 2 ^ 31"
    using rm_type_call_requests assms(8,9) sendp sendable_short by (metis image_eqI list.set_map)
  from requests_run [where pfs = spfs and run_done = log_done and adler = adler and bytes = "[]" and log = "[]",
      OF assms(2-4) this]
  have served: "foldR (onRpcMessage ssend ops spfs log_done sp) reqs (srv, [], []) = Inr (srv, ?ret, [])"
    by (simp add: assms(9,16) comp_def)
  have len: "length reps = length cs" and ids: "map rm_id reps = ?ids" and resp: "\<forall>m \<in> set reps. rm_type m = RESPONSE"
    using assms(8,9) rm_id_call_requests [of "rc_id cl" cs] by (simp_all add: comp_def call_requests_def)
  have fin: "foldR (onRpcMessage csend cops pfs log_done cp) reps (?cl1, ?out, []) =
      Inr (?cl1\<lparr>rc_outstandings := Map.empty\<rparr>, ?out, map2 (call_result pfs) cs reps)"
    by (rule replies_complete [OF assms(7) len ids resp]) (simp_all add: assms(5))
  show ?thesis
  proof (rule exI [of _ ?cl1], rule exI [of _ ?out], rule exI [of _ ?ret], intro conjI allI impI)
    show "foldR (call_op csend) cs (cl, [], []) = Inr (?cl1, ?out, [])" by (rule calls)
  next
    fix chunks assume "concat chunks = ?out"
    with assms(17) feed_frames [OF assms(1) sendq assms(11,12), of chunks "onRpcMessage ssend ops spfs log_done sp" "(srv, [], [])"] served
    show "\<exists>sb'. content sb' = [] \<and>
        feed adler pfa (onRpcMessage ssend ops spfs log_done sp) chunks sb (srv, [], []) = Inr (sb', srv, ?ret, [])"
      by auto
  next
    fix chunks assume "concat chunks = ?ret"
    with assms(18) feed_frames [OF assms(1) sendp assms(13,14), of chunks "onRpcMessage csend cops pfs log_done cp" "(?cl1, ?out, [])"] fin
    show "\<exists>cb'. content cb' = [] \<and>
        feed adler pfa (onRpcMessage csend cops pfs log_done cp) chunks cb (?cl1, ?out, []) =
          Inr (cb', ?cl1\<lparr>rc_outstandings := Map.empty\<rparr>, ?out, map2 (call_result pfs) cs reps)"
      by auto
  qed
qed

end
