(* ===== verification/ThreadPool.thy ===== *)
theory ThreadPool
  imports EventLoop
begin

text \<open>
  \<open>network/EventLoopThreadPool.h\<close> and \<open>network/src/EventLoopThreadPool.cc\<close>. Creating an
  \<open>EventLoopThread\<close> and running its \<open>startLoop\<close> is the argument \<open>starter\<close>, which yields the thread
  object and the loop that runs in it; the handshake behind it is the subject of the theory
  \<open>LoopThread\<close>.
\<close>

section \<open>State and operations\<close>

record thread_pool =
  tp_baseLoop :: ptr
  tp_name :: string
  tp_started :: bool
  tp_numThreads :: int
  tp_next :: int
  tp_threads :: "ptr list"
  tp_loops :: "ptr list"

definition mk_EventLoopThreadPool :: "ptr \<Rightarrow> string \<Rightarrow> thread_pool" where
  "mk_EventLoopThreadPool baseLoop nameArg = \<lparr>tp_baseLoop = baseLoop, tp_name = nameArg, tp_started = False,
     tp_numThreads = 0, tp_next = 0, tp_threads = [], tp_loops = []\<rparr>"

definition setThreadNum_pool :: "int \<Rightarrow> thread_pool \<Rightarrow> thread_pool" where
  "setThreadNum_pool numThreads pl = pl\<lparr>tp_numThreads := numThreads\<rparr>"

text \<open>\<open>operator[]\<close> of a vector.\<close>

definition vec_at :: "'x list \<Rightarrow> nat \<Rightarrow> 'x res" where
  "vec_at xs i = (if i < length xs then Inr (xs ! i) else Inl OutOfBounds)"

definition spawn_thread ::
  "('a world_scheme \<Rightarrow> ((ptr \<times> ptr) \<times> 'a world_scheme) res) \<Rightarrow> thread_pool \<times> 'a world_scheme \<Rightarrow>
   (thread_pool \<times> 'a world_scheme) res" where
  "spawn_thread starter = (\<lambda>(pl, w). bindR (starter w) (\<lambda>((t, l), w1).
     Inr (pl\<lparr>tp_threads := tp_threads pl @ [t], tp_loops := tp_loops pl @ [l]\<rparr>, w1)))"

definition start_pool ::
  "('a world_scheme \<Rightarrow> ((ptr \<times> ptr) \<times> 'a world_scheme) res) \<Rightarrow>
   (ptr \<Rightarrow> 'a world_scheme \<Rightarrow> 'a world_scheme res) option \<Rightarrow> thread_pool \<Rightarrow> 'a world_scheme \<Rightarrow>
   (thread_pool \<times> 'a world_scheme) res" where
  "start_pool starter cb pl w =
     assertR (\<not> tp_started pl)
       (bindR (assertInLoopThread (tp_baseLoop pl) w) (\<lambda>w.
        bindR (iterR (spawn_thread starter) (nat (tp_numThreads pl)) (pl\<lparr>tp_started := True\<rparr>, w)) (\<lambda>(pl1, w1).
          if tp_numThreads pl1 = 0 then
            (case cb of None \<Rightarrow> Inr (pl1, w1)
             | Some f \<Rightarrow> bindR (f (tp_baseLoop pl1) w1) (\<lambda>w2. Inr (pl1, w2)))
          else Inr (pl1, w1))))"

definition getNextLoop :: "thread_pool \<Rightarrow> 'a world_scheme \<Rightarrow> (ptr \<times> thread_pool) res" where
  "getNextLoop pl w =
     bindR (assertInLoopThread (tp_baseLoop pl) w) (\<lambda>_.
       assertR (tp_started pl)
         (if tp_loops pl \<noteq> [] then
            bindR (vec_at (tp_loops pl) (int_to_size (tp_next pl))) (\<lambda>l.
              let n = tp_next pl + 1 in
              Inr (l, pl\<lparr>tp_next := (if int_to_size n \<ge> length (tp_loops pl) then 0 else n)\<rparr>))
          else Inr (tp_baseLoop pl, pl)))"

definition getLoopForHash :: "nat \<Rightarrow> thread_pool \<Rightarrow> 'a world_scheme \<Rightarrow> ptr res" where
  "getLoopForHash hashCode pl w =
     bindR (assertInLoopThread (tp_baseLoop pl) w) (\<lambda>_.
       if tp_loops pl \<noteq> [] then vec_at (tp_loops pl) (hashCode mod length (tp_loops pl))
       else Inr (tp_baseLoop pl))"

definition getAllLoops :: "thread_pool \<Rightarrow> 'a world_scheme \<Rightarrow> ptr list res" where
  "getAllLoops pl w =
     bindR (assertInLoopThread (tp_baseLoop pl) w) (\<lambda>_.
       assertR (tp_started pl) (Inr (if tp_loops pl = [] then [tp_baseLoop pl] else tp_loops pl)))"

section \<open>Invariant\<close>

definition pool_inv :: "thread_pool \<Rightarrow> bool" where
  "pool_inv pl \<longleftrightarrow> length (tp_loops pl) < 2 ^ 31 \<and> 0 \<le> tp_next pl \<and>
     (if tp_loops pl = [] then tp_next pl = 0 else tp_next pl < int (length (tp_loops pl))) \<and>
     length (tp_threads pl) = length (tp_loops pl) \<and>
     (if tp_started pl then length (tp_loops pl) = nat (tp_numThreads pl) else tp_loops pl = [])"

text \<open>The loops the pool hands out: those of its threads, or the base loop when there are none.\<close>

definition pool_loops :: "thread_pool \<Rightarrow> ptr list" where
  "pool_loops pl = (if tp_loops pl = [] then [tp_baseLoop pl] else tp_loops pl)"

lemma pool_loops_simps [simp]:
  "pool_loops pl \<noteq> []" "pool_loops (pl\<lparr>tp_next := i\<rparr>) = pool_loops pl"
  by (simp_all add: pool_loops_def)

lemma pool_inv_new: "pool_inv (mk_EventLoopThreadPool b n)"
  by (simp add: pool_inv_def mk_EventLoopThreadPool_def)

lemma pool_inv_setThreadNum: "pool_inv pl \<Longrightarrow> \<not> tp_started pl \<Longrightarrow> pool_inv (setThreadNum_pool k pl)"
  by (simp add: pool_inv_def setThreadNum_pool_def)

lemma pool_inv_next:
  assumes "pool_inv pl"
  shows "0 \<le> tp_next pl" "tp_next pl < int (length (pool_loops pl))" "length (pool_loops pl) < 2 ^ 31"
  using assms by (auto simp: pool_inv_def pool_loops_def split: if_splits)

lemma wrap_mod: "0 \<le> i \<Longrightarrow> i < m \<Longrightarrow> (i + 1) mod m = (if m \<le> i + 1 then 0 else i + 1)" for i m :: int
proof (cases "m \<le> i + 1")
  assume "0 \<le> i" "i < m" "m \<le> i + 1"
  then have "i + 1 = m" by simp
  then show ?thesis by simp
qed simp

lemma getNextLoop_ok:
  assumes "pool_inv pl" "tp_started pl"
  shows "getNextLoop pl w = Inr (pool_loops pl ! nat (tp_next pl),
      pl\<lparr>tp_next := (tp_next pl + 1) mod int (length (pool_loops pl))\<rparr>)"
    and "pool_inv (pl\<lparr>tp_next := (tp_next pl + 1) mod int (length (pool_loops pl))\<rparr>)"
proof -
  note nx = pool_inv_next [OF assms(1)]
  have sz: "int_to_size (tp_next pl) = nat (tp_next pl)" "int_to_size (tp_next pl + 1) = nat (tp_next pl + 1)"
    using nx by (simp_all add: int_to_size_small)
  show "getNextLoop pl w = Inr (pool_loops pl ! nat (tp_next pl),
      pl\<lparr>tp_next := (tp_next pl + 1) mod int (length (pool_loops pl))\<rparr>)"
  proof (cases "tp_loops pl = []")
    case True
    with assms nx show ?thesis by (simp add: getNextLoop_def pool_loops_def pool_inv_def)
  next
    case False
    then have "pool_loops pl = tp_loops pl" by (simp add: pool_loops_def)
    with False assms(2) nx sz wrap_mod [OF nx(1,2)] show ?thesis
      by (simp add: getNextLoop_def vec_at_def Let_def nat_less_iff le_nat_iff)
  qed
  show "pool_inv (pl\<lparr>tp_next := (tp_next pl + 1) mod int (length (pool_loops pl))\<rparr>)"
    using assms(1) by (auto simp: pool_inv_def pool_loops_def)
qed

section \<open>Round robin\<close>

text \<open>The results of \<open>n\<close> calls of \<open>getNextLoop\<close> in a row.\<close>

fun next_loops :: "nat \<Rightarrow> thread_pool \<Rightarrow> 'a world_scheme \<Rightarrow> (ptr list \<times> thread_pool) res" where
  "next_loops 0 pl w = Inr ([], pl)"
| "next_loops (Suc n) pl w =
     bindR (getNextLoop pl w) (\<lambda>(l, pl1). bindR (next_loops n pl1 w) (\<lambda>(ls, pl2). Inr (l # ls, pl2)))"

definition cyclic :: "'x list \<Rightarrow> nat \<Rightarrow> nat \<Rightarrow> 'x list" where
  "cyclic xs s n = map (\<lambda>k. xs ! ((s + k) mod length xs)) [0..<n]"

lemma cyclic_Suc: "s < length xs \<Longrightarrow> cyclic xs s (Suc n) = xs ! s # cyclic xs (Suc s mod length xs) n"
proof -
  assume "s < length xs"
  moreover have "[0..<Suc n] = 0 # map Suc [0..<n]" by (simp add: upt_conv_Cons map_Suc_upt del: upt_Suc)
  ultimately show ?thesis by (simp add: cyclic_def comp_def mod_add_left_eq del: upt_Suc)
qed

lemma cyclic_round: "cyclic xs s (length xs) = rotate s xs"
  by (rule nth_equalityI) (simp_all add: cyclic_def nth_rotate)

lemma cyclic_add: "cyclic xs s (m + n) = cyclic xs s m @ cyclic xs (s + m) n"
proof -
  have "[0..<m + n] = [0..<m] @ map (\<lambda>k. k + m) [0..<n]"
    using upt_add_eq_append [of 0 m n] by (simp only: map_add_upt add.commute le0 simp_thms)
  then show ?thesis by (simp add: cyclic_def comp_def add.assoc add.commute [of m])
qed

lemma cyclic_mod: "cyclic xs (s mod length xs) n = cyclic xs s n"
  by (simp add: cyclic_def mod_add_left_eq)

lemma count_distinct: "distinct xs \<Longrightarrow> count_list xs a = (if a \<in> set xs then 1 else 0)"
  by (induction xs) auto

lemma count_cyclic_rounds:
  assumes "distinct xs" "a \<in> set xs"
  shows "count_list (cyclic xs s (q * length xs)) a = q"
proof (induction q arbitrary: s)
  case (Suc q)
  have "count_list (rotate s xs) a = 1"
    using assms by (simp add: count_distinct)
  with Suc show ?case by (simp add: cyclic_add cyclic_round)
qed (simp add: cyclic_def)

lemma cyclic_take: "n \<le> length xs \<Longrightarrow> cyclic xs s n = take n (rotate s xs)"
  by (rule nth_equalityI) (simp_all add: cyclic_def nth_rotate)

text \<open>In a row of \<open>n\<close> calls every loop gets its share, rounded down or up.\<close>

lemma count_cyclic:
  assumes "distinct xs" "a \<in> set xs"
  shows "count_list (cyclic xs s n) a \<in> {n div length xs, Suc (n div length xs)}"
proof -
  let ?m = "length xs" and ?q = "n div length xs"
  have "distinct (take (n mod ?m) (rotate (s + ?q * ?m) xs))" using assms(1) by (simp add: distinct_take)
  then have "count_list (take (n mod ?m) (rotate (s + ?q * ?m) xs)) a \<le> 1"
    by (simp add: count_distinct)
  moreover have "cyclic xs s n = cyclic xs s (?q * ?m) @ take (n mod ?m) (rotate (s + ?q * ?m) xs)"
  proof -
    have "0 < ?m" using assms(2) by auto
    then have "cyclic xs (s + ?q * ?m) (n mod ?m) = take (n mod ?m) (rotate (s + ?q * ?m) xs)"
      by (intro cyclic_take) (simp add: less_imp_le)
    with cyclic_add [of xs s "?q * ?m" "n mod ?m"] show ?thesis by simp
  qed
  ultimately show ?thesis using count_cyclic_rounds [OF assms, of s ?q] by auto
qed

lemma next_loops_cyclic:
  assumes "pool_inv pl" "tp_started pl"
  shows "next_loops n pl w = Inr (cyclic (pool_loops pl) (nat (tp_next pl)) n,
    pl\<lparr>tp_next := (tp_next pl + int n) mod int (length (pool_loops pl))\<rparr>)"
  using assms
proof (induction n arbitrary: pl)
  case 0
  then have "tp_next pl mod int (length (pool_loops pl)) = tp_next pl"
    by (auto simp: pool_inv_def pool_loops_def)
  then show ?case by (simp add: cyclic_def)
next
  case (Suc n)
  let ?m = "int (length (pool_loops pl))"
  let ?pl = "pl\<lparr>tp_next := (tp_next pl + 1) mod ?m\<rparr>"
  have nx: "0 \<le> tp_next pl" "tp_next pl < ?m"
    using Suc.prems(1) by (auto simp: pool_inv_def pool_loops_def split: if_splits)
  have nat: "nat ((tp_next pl + 1) mod ?m) = Suc (nat (tp_next pl)) mod length (pool_loops pl)"
    using nx by (simp add: nat_mod_distrib Suc_nat_eq_nat_zadd1 ac_simps)
  have "(((tp_next pl + 1) mod ?m) + int n) mod ?m = (tp_next pl + int (Suc n)) mod ?m"
    by (simp add: mod_add_left_eq add.assoc)
  with Suc.IH [OF getNextLoop_ok(2) [OF Suc.prems]] Suc.prems(2) getNextLoop_ok(1) [OF Suc.prems, of w] nx nat
  show ?case by (simp add: cyclic_Suc nat_less_iff)
qed

text \<open>
  C29: new connections are spread evenly. Any number \<open>n\<close> of calls of \<open>getNextLoop\<close> on a started pool of \<open>m\<close>
  distinct loops (the base loop alone if there are no threads) that satisfies the pool's invariant succeeds and
  hands out the loops of the pool in cyclic order, from where the pool stands, so that each of them is
  handed out \<open>n div m\<close> times or once more. Every loop handed out is one of \<open>getAllLoops\<close>, and
  \<open>getLoopForHash\<close> picks the one at the hash code modulo \<open>m\<close>.
\<close>

theorem round_robin:
  assumes "pool_inv pl" "tp_started pl" "distinct (tp_loops pl)" "all = pool_loops pl" "m = length all"
  shows "(\<exists>ls. next_loops n pl w = Inr (ls, pl\<lparr>tp_next := (tp_next pl + int n) mod int m\<rparr>) \<and>
      ls = map (\<lambda>k. all ! ((nat (tp_next pl) + k) mod m)) [0..<n] \<and>
      (\<forall>a \<in> set all. count_list ls a \<in> {n div m, Suc (n div m)}) \<and>
      set ls \<subseteq> set all) \<and>
    getAllLoops pl w = Inr all \<and> getLoopForHash h pl w = Inr (all ! (h mod m))" (is "?rr \<and> ?ga \<and> ?gh")
proof -
  let ?ls = "cyclic all (nat (tp_next pl)) n"
  have "distinct all" using assms(3,4) by (simp add: pool_loops_def)
  from count_cyclic [OF this] have "\<forall>a \<in> set all. count_list ?ls a \<in> {n div m, Suc (n div m)}"
    unfolding assms(5) by blast
  moreover have "set ?ls \<subseteq> set all" by (auto simp: cyclic_def assms(4))
  ultimately have ?rr
    using next_loops_cyclic [OF assms(1,2), of n w] by (simp add: assms(4,5) cyclic_def)
  moreover have ?ga
    using assms(2,4) by (simp add: getAllLoops_def pool_loops_def)
  moreover have ?gh
    using assms(4,5) by (auto simp: getLoopForHash_def pool_loops_def vec_at_def)
  ultimately show ?thesis by blast
qed

definition model_pool :: thread_pool where
  "model_pool = \<lparr>tp_baseLoop = 0, tp_name = ''p'', tp_started = True, tp_numThreads = 3, tp_next = 1,
     tp_threads = [11, 12, 13], tp_loops = [1, 2, 3]\<rparr>"

theorem round_robin_witness:
  "\<exists>pl. next_loops 5 model_pool (model_world :: world) = Inr ([2, 3, 1, 2, 3], pl)"
proof -
  have "pool_inv model_pool" "tp_started model_pool" "distinct (tp_loops model_pool)"
    by (simp_all add: model_pool_def pool_inv_def)
  from round_robin [OF this refl refl, of 5 "model_world :: world" 0]
  show ?thesis by (auto simp: model_pool_def pool_loops_def upt_rec nth_Cons' simp del: next_loops.simps)
qed

section \<open>Starting the pool\<close>

text \<open>Threads can be created.\<close>

definition starts :: "('w \<Rightarrow> ((ptr \<times> ptr) \<times> 'w) res) \<Rightarrow> bool" where
  "starts starter \<longleftrightarrow> (\<forall>u. \<exists>t l u'. starter u = Inr ((t, l), u'))"

lemma spawn_threads_ok:
  assumes "starts starter"
  shows "\<exists>ts ls w'. iterR (spawn_thread starter) n (pl, w) =
      Inr (pl\<lparr>tp_threads := tp_threads pl @ ts, tp_loops := tp_loops pl @ ls\<rparr>, w') \<and> length ts = n \<and> length ls = n"
proof (induction n arbitrary: pl w)
  case 0
  have "pl\<lparr>tp_threads := tp_threads pl @ [], tp_loops := tp_loops pl @ []\<rparr> = pl" by simp
  then show ?case by (metis iterR.simps(1) list.size(3))
next
  case (Suc n)
  from assms obtain t l u where s: "starter w = Inr ((t, l), u)" unfolding starts_def by blast
  let ?pl = "pl\<lparr>tp_threads := tp_threads pl @ [t], tp_loops := tp_loops pl @ [l]\<rparr>"
  from Suc [of ?pl u] obtain ts ls w' where "iterR (spawn_thread starter) n (?pl, u) =
      Inr (?pl\<lparr>tp_threads := tp_threads ?pl @ ts, tp_loops := tp_loops ?pl @ ls\<rparr>, w')" "length ts = n" "length ls = n"
    by blast
  then have "iterR (spawn_thread starter) (Suc n) (pl, w) =
      Inr (pl\<lparr>tp_threads := tp_threads pl @ t # ts, tp_loops := tp_loops pl @ l # ls\<rparr>, w') \<and>
      length (t # ts) = Suc n \<and> length (l # ls) = Suc n"
    using s by (simp add: spawn_thread_def)
  then show ?case by blast
qed

lemma start_pool_ok:
  assumes "starts starter" and "pool_inv pl" "\<not> tp_started pl"
    and "0 \<le> tp_numThreads pl" "tp_numThreads pl < 2 ^ 31" and "cb = None \<or> 0 < tp_numThreads pl"
  shows "\<exists>pl' w'. start_pool starter cb pl w = Inr (pl', w') \<and> pool_inv pl' \<and> tp_started pl' \<and>
    tp_baseLoop pl' = tp_baseLoop pl \<and> length (tp_loops pl') = nat (tp_numThreads pl)"
proof -
  from spawn_threads_ok [OF assms(1), of "nat (tp_numThreads pl)" "pl\<lparr>tp_started := True\<rparr>" w]
  obtain ts ls w' where it: "iterR (spawn_thread starter) (nat (tp_numThreads pl)) (pl\<lparr>tp_started := True\<rparr>, w) =
      Inr (pl\<lparr>tp_started := True, tp_threads := tp_threads pl @ ts, tp_loops := tp_loops pl @ ls\<rparr>, w')"
    "length ts = nat (tp_numThreads pl)" "length ls = nat (tp_numThreads pl)" by auto
  let ?pl = "pl\<lparr>tp_started := True, tp_threads := tp_threads pl @ ts, tp_loops := tp_loops pl @ ls\<rparr>"
  have old: "tp_loops pl = []" "tp_threads pl = []" "tp_next pl = 0" using assms(2,3) by (auto simp: pool_inv_def)
  have "ls = [] \<longleftrightarrow> tp_numThreads pl = 0" using it(3) assms(4) by (cases ls) auto
  then have "pool_inv ?pl" using it old assms(4,5) by (auto simp: pool_inv_def)
  moreover have "start_pool starter cb pl w = Inr (?pl, w')"
    using assms(3,6) it(1) by (auto simp: start_pool_def)
  ultimately show ?thesis using it(3) old(1) by auto
qed

text \<open>
  \<open>start\<close> creates the configured number of threads, one loop each, and leaves a pool on which
  \<open>getNextLoop\<close> and \<open>getAllLoops\<close> work; before it both fail an assertion, and a second call of \<open>start\<close>
  fails one. The documentation of \<open>TcpServer::start\<close>, which only forwards the call, says that it is
  harmless to call it multiple times.
\<close>

theorem pool_start_once:
  assumes "starts starter" and "pl = setThreadNum_pool k (mk_EventLoopThreadPool b nm)"
    and "0 \<le> k" "k < 2 ^ 31" and "cb = None \<or> 0 < k"
  shows "getNextLoop pl w = Inl AssertFailure \<and> getAllLoops pl w = Inl AssertFailure \<and>
    (\<exists>pl' w'. start_pool starter cb pl w = Inr (pl', w') \<and> pool_inv pl' \<and> length (tp_loops pl') = nat k \<and>
       (\<forall>u. getNextLoop pl' u \<noteq> Inl AssertFailure) \<and>
       (\<forall>starter' cb' u. start_pool starter' cb' pl' u = Inl AssertFailure))"
proof -
  have new: "\<not> tp_started pl" "tp_numThreads pl = k" "pool_inv pl"
    using assms(2) pool_inv_setThreadNum [OF pool_inv_new, of b nm k]
    by (simp_all add: setThreadNum_pool_def mk_EventLoopThreadPool_def)
  from start_pool_ok [where cb = cb and w = w, OF assms(1) new(3,1)] assms(3-5) new(2)
  obtain pl' w' where "start_pool starter cb pl w = Inr (pl', w')" "pool_inv pl'" "tp_started pl'"
    "length (tp_loops pl') = nat k" by auto
  then show ?thesis
    using new(1)
    by (auto simp: getNextLoop_ok(1) [of pl'] getNextLoop_def [of pl] getAllLoops_def start_pool_def [of _ _ pl'])
qed

definition model_starter :: "world \<Rightarrow> ((ptr \<times> ptr) \<times> world) res" where
  "model_starter w = Inr ((7, 8), w)"

theorem pool_start_once_witness:
  "\<exists>pl' w'. start_pool model_starter None (setThreadNum_pool 2 (mk_EventLoopThreadPool 0 ''p'')) model_world = Inr (pl', w') \<and>
     length (tp_loops pl') = 2"
  using pool_start_once [of model_starter "setThreadNum_pool 2 (mk_EventLoopThreadPool 0 ''p'')" 2 0 "''p''" None model_world]
  by (auto simp: model_starter_def starts_def)

end
