(* ===== verification/InetAddress.thy ===== *)
theory InetAddress
  imports Buffer
begin

text \<open>
  \<open>network/InetAddress.h\<close>, \<open>network/src/InetAddress.cc\<close> and the address functions of
  \<open>network/src/SocketsOps.cc\<close>. The functions \<open>inet_ntop\<close>, \<open>inet_pton\<close> and \<open>gethostbyname_r\<close> of the
  C library are arguments.
\<close>

section \<open>Addresses\<close>

definition AF_INET :: "16 word" where "AF_INET = 2"
definition AF_INET6 :: "16 word" where "AF_INET6 = 10"
definition INET_ADDRSTRLEN :: nat where "INET_ADDRSTRLEN = 16"
definition INET6_ADDRSTRLEN :: nat where "INET6_ADDRSTRLEN = 46"
definition kInaddrAny :: "32 word" where "kInaddrAny = 0"
definition kInaddrLoopback :: "32 word" where "kInaddrLoopback = 0x7f000001"

text \<open>
  The union of \<open>sockaddr_in\<close> and \<open>sockaddr_in6\<close>, field by field of its 28 bytes: \<open>sin_family\<close> and
  \<open>sin6_family\<close>, \<open>sin_port\<close> and \<open>sin6_port\<close> coincide, \<open>sin_addr\<close> lies where \<open>sin6_flowinfo\<close> lies,
  and the eight bytes of padding of \<open>sockaddr_in\<close> are the first half of \<open>sin6_addr\<close>.
\<close>

record inet_address =
  ia_family :: "16 word"
  ia_port :: "16 word"
  ia_addr4 :: "32 word"
  ia_addr6 :: "byte list"
  ia_scope :: "32 word"

text \<open>\<open>inet_ntop\<close> and \<open>inet_pton\<close> for both families; an address is as it lies in memory.\<close>

record inet_lib =
  ntop4 :: "32 word \<Rightarrow> string"
  ntop6 :: "byte list \<Rightarrow> string"
  pton4 :: "string \<Rightarrow> 32 word option"
  pton6 :: "string \<Rightarrow> byte list option"

definition in6addr_any :: "byte list" where "in6addr_any = replicate 16 0"
definition in6addr_loopback :: "byte list" where "in6addr_loopback = replicate 15 0 @ [1]"

text \<open>
  \<open>memset\<close> of the IPv6 view clears the object, that of the IPv4 view its first 16 bytes; \<open>junk\<close> is
  what the object held before.
\<close>

definition zero6 :: inet_address where
  "zero6 = \<lparr>ia_family = 0, ia_port = 0, ia_addr4 = 0, ia_addr6 = replicate 16 0, ia_scope = 0\<rparr>"

definition zero4 :: "inet_address \<Rightarrow> inet_address" where
  "zero4 junk = \<lparr>ia_family = 0, ia_port = 0, ia_addr4 = 0, ia_addr6 = replicate 8 0 @ drop 8 (ia_addr6 junk),
     ia_scope = ia_scope junk\<rparr>"

definition mk_InetAddress_port :: "inet_address \<Rightarrow> 16 word \<Rightarrow> bool \<Rightarrow> bool \<Rightarrow> inet_address" where
  "mk_InetAddress_port junk portArg loopbackOnly ipv6 =
     (if ipv6 then
        zero6\<lparr>ia_family := AF_INET6, ia_addr6 := (if loopbackOnly then in6addr_loopback else in6addr_any),
          ia_port := hostToNetwork16 portArg\<rparr>
      else
        (zero4 junk)\<lparr>ia_family := AF_INET,
          ia_addr4 := hostToNetwork32 (if loopbackOnly then kInaddrLoopback else kInaddrAny),
          ia_port := hostToNetwork16 portArg\<rparr>)"

definition fromIpPort4 :: "inet_lib \<Rightarrow> string \<Rightarrow> 16 word \<Rightarrow> inet_address \<Rightarrow> inet_address" where
  "fromIpPort4 lib ip port addr =
     (let a = addr\<lparr>ia_family := AF_INET, ia_port := hostToNetwork16 port\<rparr> in
      case pton4 lib ip of Some x \<Rightarrow> a\<lparr>ia_addr4 := x\<rparr> | None \<Rightarrow> a)"

definition fromIpPort6 :: "inet_lib \<Rightarrow> string \<Rightarrow> 16 word \<Rightarrow> inet_address \<Rightarrow> inet_address" where
  "fromIpPort6 lib ip port addr =
     (let a = addr\<lparr>ia_family := AF_INET6, ia_port := hostToNetwork16 port\<rparr> in
      case pton6 lib ip of Some x \<Rightarrow> a\<lparr>ia_addr6 := x\<rparr> | None \<Rightarrow> a)"

definition mk_InetAddress_ip :: "inet_lib \<Rightarrow> inet_address \<Rightarrow> string \<Rightarrow> 16 word \<Rightarrow> bool \<Rightarrow> inet_address" where
  "mk_InetAddress_ip lib junk ip portArg ipv6 =
     (if ipv6 \<or> CHR '':'' \<in> set ip then fromIpPort6 lib ip portArg zero6
      else fromIpPort4 lib ip portArg (zero4 junk))"

definition setSockAddrInet6 :: "inet_address \<Rightarrow> inet_address \<Rightarrow> inet_address" where
  "setSockAddrInet6 addr6 a = addr6"

definition portNetEndian :: "inet_address \<Rightarrow> 16 word" where
  "portNetEndian a = ia_port a"

definition port :: "inet_address \<Rightarrow> 16 word" where
  "port a = networkToHost16 (portNetEndian a)"

definition ipv4NetEndian :: "inet_address \<Rightarrow> 32 word res" where
  "ipv4NetEndian a = assertR (ia_family a = AF_INET) (Inr (ia_addr4 a))"

definition setScopeId :: "32 word \<Rightarrow> inet_address \<Rightarrow> inet_address" where
  "setScopeId scope_id a = (if ia_family a = AF_INET6 then a\<lparr>ia_scope := scope_id\<rparr> else a)"

text \<open>
  \<open>gethostbyname_r\<close> gives the address type, the length and the first address, or nothing.
\<close>

definition resolve ::
  "(string \<Rightarrow> (16 word \<times> nat \<times> 32 word) option) \<Rightarrow> string \<Rightarrow> inet_address \<Rightarrow> (bool \<times> inet_address) res" where
  "resolve gethostbyname hostname out =
     (case gethostbyname hostname of
        Some (addrtype, len, addr) \<Rightarrow>
          assertR (addrtype = AF_INET \<and> len = 4) (Inr (True, out\<lparr>ia_addr4 := addr\<rparr>))
      | None \<Rightarrow> Inr (False, out))"

section \<open>Printing\<close>

text \<open>
  The conversion \<open>%u\<close>, the conversion \<open>%d\<close> of a 32-bit \<open>int\<close>, and \<open>snprintf\<close> into \<open>n\<close> characters.
\<close>

fun decimal :: "nat \<Rightarrow> string" where
  "decimal n = (if n < 10 then [char_of (48 + n)] else decimal (n div 10) @ [char_of (48 + n mod 10)])"

declare decimal.simps [simp del]

definition signed_decimal :: "32 word \<Rightarrow> string" where
  "signed_decimal i = (if sint i < 0 then ''-'' @ decimal (nat (- sint i)) else decimal (nat (sint i)))"

definition snprintf :: "nat \<Rightarrow> string \<Rightarrow> string" where
  "snprintf n str = take (n - 1) str"

text \<open>\<open>sockets::toIp\<close> and \<open>sockets::toIpPort\<close> on a cleared buffer of \<open>sz\<close> characters.\<close>

definition toIp_buf :: "inet_lib \<Rightarrow> nat \<Rightarrow> inet_address \<Rightarrow> string res" where
  "toIp_buf lib sz addr =
     (if ia_family addr = AF_INET then assertR (sz \<ge> INET_ADDRSTRLEN) (Inr (ntop4 lib (ia_addr4 addr)))
      else if ia_family addr = AF_INET6 then assertR (sz \<ge> INET6_ADDRSTRLEN) (Inr (ntop6 lib (ia_addr6 addr)))
      else Inr [])"

definition toIpPort_buf :: "inet_lib \<Rightarrow> nat \<Rightarrow> inet_address \<Rightarrow> string res" where
  "toIpPort_buf lib sz addr =
     (if ia_family addr = AF_INET6 then
        bindR (toIp_buf lib (sz - 1) addr) (\<lambda>ip.
          let buf = CHR ''['' # ip; port = networkToHost16 (ia_port addr) in
          assertR (sz > length buf) (Inr (buf @ snprintf (sz - length buf) ('']:'' @ decimal (unat port)))))
      else
        bindR (toIp_buf lib sz addr) (\<lambda>buf.
          let port = networkToHost16 (ia_port addr) in
          assertR (sz > length buf) (Inr (buf @ snprintf (sz - length buf) ('':'' @ decimal (unat port))))))"

definition toIp :: "inet_lib \<Rightarrow> inet_address \<Rightarrow> string res" where
  "toIp lib a = toIp_buf lib 64 a"

definition toIpPort :: "inet_lib \<Rightarrow> inet_address \<Rightarrow> string res" where
  "toIpPort lib a = toIpPort_buf lib 64 a"

section \<open>Self connection\<close>

text \<open>
  \<open>sockets::isSelfConnect\<close>, on what \<open>getsockname\<close> and \<open>getpeername\<close> report (a cleared address when they
  fail).
\<close>

definition isSelfConnect :: "inet_address \<Rightarrow> inet_address \<Rightarrow> bool" where
  "isSelfConnect localaddr peeraddr =
     (if ia_family localaddr = AF_INET then
        ia_port localaddr = ia_port peeraddr \<and> ia_addr4 localaddr = ia_addr4 peeraddr
      else if ia_family localaddr = AF_INET6 then
        ia_port localaddr = ia_port peeraddr \<and> ia_addr6 localaddr = ia_addr6 peeraddr
      else False)"

section \<open>Lemmas: printing\<close>

definition undecimal :: "string \<Rightarrow> nat" where
  "undecimal str = foldl (\<lambda>a c. 10 * a + (of_char c - 48)) 0 str"

lemma undecimal_decimal: "undecimal (decimal n) = n"
proof (induction n rule: decimal.induct)
  case (1 n)
  show ?case
  proof (cases "n < 10")
    case True
    then show ?thesis by (simp add: decimal.simps undecimal_def)
  next
    case False
    with 1 show ?thesis by (simp add: decimal.simps [of n] undecimal_def)
  qed
qed

lemma decimal_inject [simp]: "decimal m = decimal n \<longleftrightarrow> m = n"
  using undecimal_decimal by metis

lemma decimal_digits: "c \<in> set (decimal n) \<Longrightarrow> 48 \<le> (of_char c :: nat) \<and> (of_char c :: nat) < 58"
proof (induction n rule: decimal.induct)
  case (1 n)
  then show ?case by (cases "n < 10") (auto simp: decimal.simps [of n])
qed

lemma decimal_no [simp]: "CHR '':'' \<notin> set (decimal n)" "CHR ''#'' \<notin> set (decimal n)" "CHR '']'' \<notin> set (decimal n)"
  using decimal_digits [of _ n] by fastforce+

lemma length_decimal: "n < 10 ^ Suc k \<Longrightarrow> length (decimal n) \<le> Suc k"
proof (induction k arbitrary: n)
  case 0
  then show ?case by (simp add: decimal.simps)
next
  case (Suc k)
  then have "n div 10 < 10 ^ Suc k" by (simp add: less_mult_imp_div_less)
  from Suc.IH [OF this] show ?case by (cases "n < 10") (simp_all add: decimal.simps [of n])
qed

lemma length_decimal_port: "length (decimal (unat (p :: 16 word))) \<le> 5"
proof -
  have "unat p < 10 ^ Suc 4" using unsigned_less [of p, where 'a = nat] by simp
  from length_decimal [OF this] show ?thesis by simp
qed

lemma snprintf_all: "length str < n \<Longrightarrow> snprintf n str = str"
  by (simp add: snprintf_def)

lemma split_at:
  assumes "xs @ c # ys = xs' @ c # ys'" "c \<notin> set ys" "c \<notin> set ys'"
  shows "xs = xs' \<and> ys = ys'"
proof -
  have "rev ys @ c # rev xs = rev ys' @ c # rev xs'"
    using arg_cong [OF assms(1), of rev] by simp
  moreover have "takeWhile ((\<noteq>) c) (rev ys @ c # rev xs) = rev ys" if "c \<notin> set ys" for xs ys
    using that by (subst takeWhile_append2) auto
  ultimately have "rev ys = rev ys'" using assms(2,3) by metis
  with assms(1) show ?thesis by simp
qed

section \<open>Addresses and their strings\<close>

text \<open>
  What the code relies on, for the address at hand: the strings are as long as POSIX says, an IPv4
  address is printed without colon and bracket, an IPv6 address with a colon and without brackets,
  and reading a printed address gives it back.
\<close>

definition inet_ok :: "inet_lib \<Rightarrow> inet_address \<Rightarrow> bool" where
  "inet_ok lib a \<longleftrightarrow>
     (ia_family a = AF_INET \<and> length (ntop4 lib (ia_addr4 a)) < INET_ADDRSTRLEN \<and> CHR '':'' \<notin> set (ntop4 lib (ia_addr4 a)) \<and>
        CHR ''['' \<notin> set (ntop4 lib (ia_addr4 a)) \<and> pton4 lib (ntop4 lib (ia_addr4 a)) = Some (ia_addr4 a)) \<or>
     (ia_family a = AF_INET6 \<and> length (ntop6 lib (ia_addr6 a)) < INET6_ADDRSTRLEN \<and> CHR '':'' \<in> set (ntop6 lib (ia_addr6 a)) \<and>
        pton6 lib (ntop6 lib (ia_addr6 a)) = Some (ia_addr6 a))"

lemma families [simp]: "AF_INET \<noteq> AF_INET6" "AF_INET6 \<noteq> AF_INET"
  by (simp_all add: AF_INET_def AF_INET6_def)

lemma toIp_ok:
  assumes "inet_ok lib a"
  shows "toIp lib a = Inr (if ia_family a = AF_INET then ntop4 lib (ia_addr4 a) else ntop6 lib (ia_addr6 a))"
  using assms by (auto simp: inet_ok_def toIp_def toIp_buf_def INET_ADDRSTRLEN_def INET6_ADDRSTRLEN_def)

lemma toIpPort_ok:
  assumes "inet_ok lib a"
  shows "toIpPort lib a = Inr (if ia_family a = AF_INET then ntop4 lib (ia_addr4 a) @ '':'' @ decimal (unat (port a))
      else ''['' @ ntop6 lib (ia_addr6 a) @ '']:'' @ decimal (unat (port a)))"
proof -
  have p: "length (decimal (unat (networkToHost16 (ia_port a)))) \<le> 5" by (rule length_decimal_port)
  consider (v4) "ia_family a = AF_INET" "length (ntop4 lib (ia_addr4 a)) < 16"
    | (v6) "ia_family a = AF_INET6" "length (ntop6 lib (ia_addr6 a)) < 46"
    using assms by (auto simp: inet_ok_def INET_ADDRSTRLEN_def INET6_ADDRSTRLEN_def)
  then show ?thesis
  proof cases
    case v4
    then have "snprintf (64 - length (ntop4 lib (ia_addr4 a))) ('':'' @ decimal (unat (networkToHost16 (ia_port a)))) =
        '':'' @ decimal (unat (networkToHost16 (ia_port a)))"
      using p by (intro snprintf_all) simp
    with v4 show ?thesis
      by (simp add: toIpPort_def toIpPort_buf_def toIp_buf_def INET_ADDRSTRLEN_def Let_def port_def portNetEndian_def)
  next
    case v6
    then have "snprintf (63 - length (ntop6 lib (ia_addr6 a))) ('']:'' @ decimal (unat (networkToHost16 (ia_port a)))) =
        '']:'' @ decimal (unat (networkToHost16 (ia_port a)))"
      using p by (intro snprintf_all) simp
    with v6 show ?thesis
      by (simp add: toIpPort_def toIpPort_buf_def toIp_buf_def INET6_ADDRSTRLEN_def Let_def port_def portNetEndian_def)
  qed
qed

lemma bswap_inject16 [simp]: "networkToHost16 a = networkToHost16 b \<longleftrightarrow> a = b"
  using bswap_bswap [where 'a = 16] by (auto simp: networkToHost16_def) metis

lemma host_network16 [simp]: "networkToHost16 (hostToNetwork16 p) = p" "hostToNetwork16 (networkToHost16 q) = q"
  using bswap_bswap [where 'a = 16] by (simp_all add: networkToHost16_def hostToNetwork16_def)

text \<open>
  The endpoint an address stands for: family, port and address. The scope of a link-local IPv6
  address is not printed and not part of it.
\<close>

definition endpoint :: "inet_address \<Rightarrow> 16 word \<times> 16 word \<times> 32 word \<times> byte list" where
  "endpoint a = (ia_family a, ia_port a, if ia_family a = AF_INET then ia_addr4 a else 0,
     if ia_family a = AF_INET then [] else ia_addr6 a)"

text \<open>
  C38: an address can be printed and read back. For an IPv4 or IPv6 address, \<open>toIp\<close> fails no
  assertion, and the \<open>InetAddress\<close> constructed from the string and \<open>port()\<close>, whatever its memory held
  before, is the same endpoint (family, port and address); \<open>toIpPort\<close> fits into its buffer of 64
  characters, and equal strings mean equal endpoints.
\<close>

theorem address_roundtrip:
  assumes "inet_ok lib a" "inet_ok lib b"
  shows "(\<exists>ip. toIp lib a = Inr ip \<and> endpoint (mk_InetAddress_ip lib junk ip (port a) False) = endpoint a) \<and>
    (\<exists>str. toIpPort lib a = Inr str \<and> length str < 64) \<and>
    (toIpPort lib a = toIpPort lib b \<longrightarrow> endpoint a = endpoint b)"
proof (intro conjI impI)
  show "\<exists>ip. toIp lib a = Inr ip \<and> endpoint (mk_InetAddress_ip lib junk ip (port a) False) = endpoint a"
    using assms(1) toIp_ok [OF assms(1)]
    by (auto simp: inet_ok_def mk_InetAddress_ip_def fromIpPort4_def fromIpPort6_def endpoint_def port_def portNetEndian_def)
  show "\<exists>str. toIpPort lib a = Inr str \<and> length str < 64"
    using assms(1) toIpPort_ok [OF assms(1)] length_decimal_port [of "port a"]
    by (auto simp: inet_ok_def INET_ADDRSTRLEN_def INET6_ADDRSTRLEN_def)
  assume eq: "toIpPort lib a = toIpPort lib b"
  let ?d = "\<lambda>x. decimal (unat (port x))"
  consider (v4) "ia_family a = AF_INET" "ia_family b = AF_INET" | (v6) "ia_family a = AF_INET6" "ia_family b = AF_INET6"
    | (mix) "ia_family a = AF_INET \<longleftrightarrow> ia_family b \<noteq> AF_INET"
    using assms by (auto simp: inet_ok_def)
  then show "endpoint a = endpoint b"
  proof cases
    case v4
    with eq have "ntop4 lib (ia_addr4 a) @ CHR '':'' # ?d a = ntop4 lib (ia_addr4 b) @ CHR '':'' # ?d b"
      by (simp add: toIpPort_ok assms)
    from split_at [OF this] have "ntop4 lib (ia_addr4 a) = ntop4 lib (ia_addr4 b)" "port a = port b" by (simp_all add: word_unat_eq_iff)
    with v4 assms show ?thesis by (auto simp: inet_ok_def endpoint_def port_def portNetEndian_def)
  next
    case v6
    with eq have "(ntop6 lib (ia_addr6 a) @ '']'') @ CHR '':'' # ?d a = (ntop6 lib (ia_addr6 b) @ '']'') @ CHR '':'' # ?d b"
      by (simp add: toIpPort_ok assms)
    from split_at [OF this] have "ntop6 lib (ia_addr6 a) = ntop6 lib (ia_addr6 b)" "port a = port b" by (simp_all add: word_unat_eq_iff)
    with v6 assms show ?thesis by (auto simp: inet_ok_def endpoint_def port_def portNetEndian_def)
  next
    case mix
    have no: False if "CHR ''['' \<notin> set x" "x @ '':'' @ d = ''['' @ y" for x y d :: string
      using that by (cases x) auto
    from mix eq assms show ?thesis by (auto simp: toIpPort_ok inet_ok_def dest: no no [OF _ sym])
  qed
qed

definition model_lib :: inet_lib where
  "model_lib = \<lparr>ntop4 = (\<lambda>a. ''127.0.0.1''), ntop6 = (\<lambda>a. ''::1''), pton4 = (\<lambda>str. Some (hostToNetwork32 kInaddrLoopback)),
     pton6 = (\<lambda>str. Some in6addr_loopback)\<rparr>"

lemma model_lib_ok: "inet_ok model_lib (mk_InetAddress_port junk p True v6)"
  by (simp add: inet_ok_def model_lib_def mk_InetAddress_port_def INET_ADDRSTRLEN_def INET6_ADDRSTRLEN_def)

theorem address_roundtrip_witness:
  "endpoint (mk_InetAddress_ip model_lib zero6 ''127.0.0.1'' 2000 False) = endpoint (mk_InetAddress_port zero6 2000 True False)"
proof -
  have "toIp model_lib (mk_InetAddress_port zero6 2000 True False) = Inr ''127.0.0.1''"
    unfolding toIp_ok [OF model_lib_ok] by (simp add: mk_InetAddress_port_def model_lib_def)
  moreover have "port (mk_InetAddress_port zero6 2000 True False) = 2000"
    by (simp add: port_def portNetEndian_def mk_InetAddress_port_def)
  ultimately show ?thesis
    using address_roundtrip [OF model_lib_ok model_lib_ok, of zero6 2000 False zero6 zero6 2000 False] by simp
qed

end
