(* ===== verification/Sockets.thy ===== *)
theory Sockets
  imports EventLoop InetAddress
begin

text \<open>
  The functions of \<open>network/src/SocketsOps.cc\<close> and \<open>network/src/Socket.cc\<close> that create, bind, connect
  and accept sockets. They extend the kernel by the system calls they make. Flags and
  options of descriptors are in \<open>SocketOptions\<close>; nothing here depends on them.
\<close>

section \<open>The kernel\<close>

text \<open>
  \<open>os_accept\<close> gives \<open>errno\<close> or the new descriptor and the address of the peer; \<open>os_connect\<close> gives 0 or
  \<open>errno\<close>; \<open>os_getsockname\<close> and \<open>os_getpeername\<close> give nothing when the call fails.
\<close>

record net_os = os +
  os_socket :: "syscall list \<Rightarrow> fd"
  os_bind :: "syscall list \<Rightarrow> fd \<Rightarrow> int"
  os_listen :: "syscall list \<Rightarrow> fd \<Rightarrow> int"
  os_accept :: "syscall list \<Rightarrow> fd \<Rightarrow> int + fd \<times> inet_address"
  os_connect :: "syscall list \<Rightarrow> fd \<Rightarrow> int"
  os_open_null :: "syscall list \<Rightarrow> fd"
  os_getsockname :: "syscall list \<Rightarrow> fd \<Rightarrow> inet_address option"
  os_getpeername :: "syscall list \<Rightarrow> fd \<Rightarrow> inet_address option"

definition EMFILE :: int where "EMFILE = 24"

definition createNonblockingOrDie :: "'o net_os_scheme \<Rightarrow> 'a world_scheme \<Rightarrow> (fd \<times> 'a world_scheme) res" where
  "createNonblockingOrDie os w =
     (let sockfd = os_socket os (w_trace w) in
      if sockfd < 0 then Inl FatalLog else Inr (sockfd, log_call (SysSocket sockfd) w))"

definition close_fd :: "fd \<Rightarrow> 'a world_scheme \<Rightarrow> 'a world_scheme" where
  "close_fd sockfd w = log_call (SysClose sockfd) w"

definition bindAddress :: "'o net_os_scheme \<Rightarrow> fd \<Rightarrow> 'a world_scheme \<Rightarrow> 'a world_scheme res" where
  "bindAddress os sockfd w =
     (if os_bind os (w_trace w) sockfd < 0 then Inl FatalLog else Inr (log_call (SysBind sockfd) w))"

definition listen_socket :: "'o net_os_scheme \<Rightarrow> fd \<Rightarrow> 'a world_scheme \<Rightarrow> 'a world_scheme res" where
  "listen_socket os sockfd w =
     (if os_listen os (w_trace w) sockfd < 0 then Inl FatalLog else Inr (log_call (SysListen sockfd) w))"

definition accept_socket ::
  "'o net_os_scheme \<Rightarrow> fd \<Rightarrow> 'a world_scheme \<Rightarrow> (int + fd \<times> inet_address) \<times> 'a world_scheme" where
  "accept_socket os sockfd w =
     (let r = os_accept os (w_trace w) sockfd in
      (r, log_call (SysAccept sockfd (map_sum id fst r)) w))"

definition open_null :: "'o net_os_scheme \<Rightarrow> 'a world_scheme \<Rightarrow> fd \<times> 'a world_scheme" where
  "open_null os w = (let f = os_open_null os (w_trace w) in (f, log_call (SysOpenDevNull f) w))"

text \<open>\<open>sockets::bindOrDie\<close> and \<open>listenOrDie\<close> are the same code once more.\<close>

definition bindOrDie :: "'o net_os_scheme \<Rightarrow> fd \<Rightarrow> 'a world_scheme \<Rightarrow> 'a world_scheme res" where
  "bindOrDie os sockfd w =
     (if os_bind os (w_trace w) sockfd < 0 then Inl FatalLog else Inr (log_call (SysBind sockfd) w))"

definition listenOrDie :: "'o net_os_scheme \<Rightarrow> fd \<Rightarrow> 'a world_scheme \<Rightarrow> 'a world_scheme res" where
  "listenOrDie os sockfd w =
     (if os_listen os (w_trace w) sockfd < 0 then Inl FatalLog else Inr (log_call (SysListen sockfd) w))"

text \<open>\<open>sockets::accept\<close> stops the program on all errors but six.\<close>

definition expected_accept_errors :: "int list" where
  "expected_accept_errors = [11, 103, 4, 71, 1, EMFILE]"

definition accept_or_die ::
  "'o net_os_scheme \<Rightarrow> fd \<Rightarrow> 'a world_scheme \<Rightarrow> ((int + fd \<times> inet_address) \<times> 'a world_scheme) res" where
  "accept_or_die os sockfd w =
     (let r = os_accept os (w_trace w) sockfd; w1 = log_call (SysAccept sockfd (map_sum id fst r)) w in
      case r of
        Inl savedErrno \<Rightarrow> if savedErrno \<in> set expected_accept_errors then Inr (r, w1) else Inl FatalLog
      | Inr _ \<Rightarrow> Inr (r, w1))"

definition connect_socket :: "'o net_os_scheme \<Rightarrow> fd \<Rightarrow> 'a world_scheme \<Rightarrow> int \<times> 'a world_scheme" where
  "connect_socket os sockfd w = (let e = os_connect os (w_trace w) sockfd in (e, log_call (SysConnect sockfd e) w))"

text \<open>\<open>os_so_error\<close> is the pending error of the socket, or \<open>errno\<close> when \<open>getsockopt\<close> fails.\<close>

definition getSocketError :: "'o os_scheme \<Rightarrow> fd \<Rightarrow> 'a world_scheme \<Rightarrow> int \<times> 'a world_scheme" where
  "getSocketError os sockfd w =
     (let e = os_so_error os (w_trace w) sockfd in (e, log_call (SysGetSoError sockfd e) w))"

text \<open>The address stays zero when the call fails.\<close>

definition getLocalAddr :: "'o net_os_scheme \<Rightarrow> fd \<Rightarrow> 'a world_scheme \<Rightarrow> inet_address" where
  "getLocalAddr os sockfd w = (case os_getsockname os (w_trace w) sockfd of None \<Rightarrow> zero6 | Some a \<Rightarrow> a)"

definition getPeerAddr :: "'o net_os_scheme \<Rightarrow> fd \<Rightarrow> 'a world_scheme \<Rightarrow> inet_address" where
  "getPeerAddr os sockfd w = (case os_getpeername os (w_trace w) sockfd of None \<Rightarrow> zero6 | Some a \<Rightarrow> a)"

section \<open>Open descriptors\<close>

text \<open>The descriptors opened and not yet closed, according to the history of system calls.\<close>

fun fd_effect :: "syscall \<Rightarrow> fd set \<Rightarrow> fd set" where
  "fd_effect (SysSocket fd) F = insert fd F"
| "fd_effect (SysAccept lfd (Inr fd)) F = insert fd F"
| "fd_effect (SysOpenDevNull fd) F = insert fd F"
| "fd_effect (SysClose fd) F = F - {fd}"
| "fd_effect _ F = F"

definition open_fds :: "syscall list \<Rightarrow> fd set" where
  "open_fds tr = foldl (\<lambda>F s. fd_effect s F) {} tr"

lemma open_fds_append [simp]: "open_fds (tr @ [s]) = fd_effect s (open_fds tr)"
  by (simp add: open_fds_def)

text \<open>
  Every \<open>close\<close> in the history is of a descriptor that was open then, so that none was closed twice
  or without having been opened; \<open>close (-1)\<close> has no effect.
\<close>

definition closes_open :: "syscall list \<Rightarrow> bool" where
  "closes_open tr \<longleftrightarrow> (\<forall>i < length tr. \<forall>fd. tr ! i = SysClose fd \<longrightarrow> fd < 0 \<or> fd \<in> open_fds (take i tr))"

lemma closes_open_Nil [simp]: "closes_open []"
  by (simp add: closes_open_def)

lemma closes_open_append [simp]:
  "closes_open (tr @ [s]) \<longleftrightarrow> closes_open tr \<and> (\<forall>fd. s = SysClose fd \<longrightarrow> fd < 0 \<or> fd \<in> open_fds tr)"
  by (auto simp: closes_open_def nth_append less_Suc_eq)

lemma closes_open_frame [simp]:
  "closes_open (w_trace (updated_world l k ch w)) = closes_open (w_trace w)"
  "closes_open (w_trace (removed_world l k ch w)) = closes_open (w_trace w)"
  "closes_open (w_trace (queueInLoop os l fn w)) = closes_open (w_trace w)"
  by (simp_all add: removed_world_def queueInLoop_def wakeup_def Let_def)

lemma open_fds_frame [simp]:
  "open_fds (w_trace (updated_world l k ch w)) = open_fds (w_trace w)"
  "open_fds (w_trace (removed_world l k ch w)) = open_fds (w_trace w)"
  "open_fds (w_trace (queueInLoop os l fn w)) = open_fds (w_trace w)"
  by (simp_all add: removed_world_def queueInLoop_def wakeup_def Let_def)

lemma close_fd_simps [simp]:
  "w_tid (close_fd sockfd w) = w_tid w" "w_chans (close_fd sockfd w) = w_chans w"
  "w_loops (close_fd sockfd w) = w_loops w" "w_trace (close_fd sockfd w) = w_trace w @ [SysClose sockfd]"
  by (simp_all add: close_fd_def)

end
