(* ===== verification/TcpServer.thy ===== *)
theory TcpServer
  imports TcpConnection ThreadPool Sockets "HOL-Library.List_Lexorder" "HOL-Library.Char_ord"
begin

text \<open>
  \<open>network/Acceptor.h\<close>, \<open>Acceptor.cc\<close>, \<open>TcpServer.h\<close> and \<open>TcpServer.cc\<close>.

  Addresses of new objects are arguments. The callbacks of a connection are numbers: 0 is
  \<open>defaultConnectionCallback\<close>, 4 is \<open>defaultMessageCallback\<close>, \<open>4 * s + 2\<close> is
  \<open>TcpServer::removeConnection\<close> bound to server \<open>s\<close>, and the others are the user's. The callback run in
  every thread of the pool is an argument of \<open>start_server\<close>. The counter \<open>nextConnId_\<close> is a 32-bit
  word read as signed, whose increment wraps around; what is proved of names asks for a counter below
  its maximum and for a name that fits its buffer.
\<close>

section \<open>State\<close>

record acceptor =
  ac_loop :: ptr
  ac_sockfd :: fd
  ac_channel :: ptr
  ac_newConnectionCb :: "ptr option"
  ac_listening :: bool
  ac_idleFd :: fd

record tcp_server =
  ts_loop :: ptr
  ts_ipPort :: string
  ts_name :: string
  ts_acceptor :: ptr
  ts_pool :: thread_pool
  ts_connectionCb :: "nat option"
  ts_messageCb :: "nat option"
  ts_writeCompleteCb :: "nat option"
  ts_started :: bool
  ts_nextConnId :: "32 word"
  ts_connections :: "string \<rightharpoonup> ptr"

record sworld = cworld +
  sw_acceptors :: "ptr \<rightharpoonup> acceptor"
  sw_servers :: "ptr \<rightharpoonup> tcp_server"

definition put_acceptor :: "ptr \<Rightarrow> acceptor \<Rightarrow> 'a sworld_scheme \<Rightarrow> 'a sworld_scheme" where
  "put_acceptor a ac w = w\<lparr>sw_acceptors := (sw_acceptors w)(a \<mapsto> ac)\<rparr>"

definition put_server :: "ptr \<Rightarrow> tcp_server \<Rightarrow> 'a sworld_scheme \<Rightarrow> 'a sworld_scheme" where
  "put_server s sv w = w\<lparr>sw_servers := (sw_servers w)(s \<mapsto> sv)\<rparr>"

section \<open>Acceptor.cc\<close>

definition mk_Acceptor ::
  "'o net_os_scheme \<Rightarrow> ptr \<Rightarrow> ptr \<Rightarrow> ptr \<Rightarrow> 'a sworld_scheme \<Rightarrow> 'a sworld_scheme res" where
  "mk_Acceptor os a ch l w =
     bindR (createNonblockingOrDie os w) (\<lambda>(sockfd, w1).
       let w2 = put_chan ch (mk_Channel l sockfd) w1; (idleFd, w3) = open_null os w2 in
       assertR (idleFd \<ge> 0)
         (bindR (bindAddress os sockfd w3) (\<lambda>w4.
          bindR (upd_chan ch (setReadCallback (AcceptorHandleRead a)) w4) (\<lambda>w5.
            Inr (put_acceptor a \<lparr>ac_loop = l, ac_sockfd = sockfd, ac_channel = ch, ac_newConnectionCb = None,
                   ac_listening = False, ac_idleFd = idleFd\<rparr> w5)))))"

definition setNewConnectionCallback_acceptor :: "ptr \<Rightarrow> acceptor \<Rightarrow> acceptor" where
  "setNewConnectionCallback_acceptor s ac = ac\<lparr>ac_newConnectionCb := Some s\<rparr>"

text \<open>The destructor, with those of the channel and the socket.\<close>

definition delete_Acceptor :: "'o net_os_scheme \<Rightarrow> ptr \<Rightarrow> 'a sworld_scheme \<Rightarrow> 'a sworld_scheme res" where
  "delete_Acceptor os a w =
     bindR (derefR (sw_acceptors w a)) (\<lambda>ac.
     bindR (disableAll os (ac_channel ac) w) (\<lambda>w1.
     bindR (remove_channel os (ac_channel ac) w1) (\<lambda>w2.
     bindR (delete_Channel (ac_channel ac) (log_call (SysClose (ac_idleFd ac)) w2)) (\<lambda>w3.
       Inr (close_fd (ac_sockfd ac) (w3\<lparr>sw_acceptors := (sw_acceptors w3)(a := None)\<rparr>))))))"

definition listen :: "'o net_os_scheme \<Rightarrow> ptr \<Rightarrow> 'a sworld_scheme \<Rightarrow> 'a sworld_scheme res" where
  "listen os a w =
     bindR (derefR (sw_acceptors w a)) (\<lambda>ac. bindR (assertInLoopThread (ac_loop ac) w) (\<lambda>w.
     bindR (listen_socket os (ac_sockfd ac) (put_acceptor a (ac\<lparr>ac_listening := True\<rparr>) w)) (\<lambda>w1.
       enableReading os (ac_channel ac) w1)))"

text \<open>\<open>newConn\<close> runs \<open>newConnectionCallback_\<close>, which is bound to a server.\<close>

definition handleRead_acceptor ::
  "'o net_os_scheme \<Rightarrow> (ptr \<Rightarrow> fd \<Rightarrow> inet_address \<Rightarrow> 'a sworld_scheme \<Rightarrow> 'a sworld_scheme res) \<Rightarrow> ptr \<Rightarrow>
   'a sworld_scheme \<Rightarrow> 'a sworld_scheme res" where
  "handleRead_acceptor os newConn a w =
     bindR (derefR (sw_acceptors w a)) (\<lambda>ac. bindR (assertInLoopThread (ac_loop ac) w) (\<lambda>w.
       case accept_socket os (ac_sockfd ac) w of
         (Inr (connfd, peerAddr), w1) \<Rightarrow>
           (case ac_newConnectionCb ac of
              Some s \<Rightarrow> newConn s connfd peerAddr w1
            | None \<Rightarrow> Inr (close_fd connfd w1))
       | (Inl errno, w1) \<Rightarrow>
           if errno = EMFILE then
             let w2 = log_call (SysClose (ac_idleFd ac)) w1;
                 (r, w3) = accept_socket os (ac_sockfd ac) w2;
                 idleFd = (case r of Inr (f, _) \<Rightarrow> f | Inl _ \<Rightarrow> - 1);
                 w4 = log_call (SysClose idleFd) w3;
                 (idleFd', w5) = open_null os w4 in
             Inr (put_acceptor a (ac\<lparr>ac_idleFd := idleFd'\<rparr>) w5)
           else Inr w1))"

section \<open>TcpServer.cc\<close>

definition cb_removeConnection :: "ptr \<Rightarrow> nat" where
  "cb_removeConnection s = 4 * s + 2"

definition mk_TcpServer ::
  "'o net_os_scheme \<Rightarrow> inet_lib \<Rightarrow> ptr \<Rightarrow> ptr \<Rightarrow> ptr \<Rightarrow> ptr \<Rightarrow> inet_address \<Rightarrow> string \<Rightarrow>
   'a sworld_scheme \<Rightarrow> 'a sworld_scheme res" where
  "mk_TcpServer os lib s a ch l listenAddr nameArg w =
     bindR (toIpPort lib listenAddr) (\<lambda>ipPort.
     bindR (mk_Acceptor os a ch l w) (\<lambda>w1.
     bindR (derefR (sw_acceptors w1 a)) (\<lambda>ac.
       Inr (put_server s \<lparr>ts_loop = l, ts_ipPort = ipPort, ts_name = nameArg, ts_acceptor = a,
              ts_pool = mk_EventLoopThreadPool l nameArg, ts_connectionCb = Some 0, ts_messageCb = Some 4,
              ts_writeCompleteCb = None, ts_started = False, ts_nextConnId = 1, ts_connections = Map.empty\<rparr>
            (put_acceptor a (setNewConnectionCallback_acceptor s ac) w1)))))"

definition setThreadNum :: "ptr \<Rightarrow> int \<Rightarrow> 'a sworld_scheme \<Rightarrow> 'a sworld_scheme res" where
  "setThreadNum s numThreads w =
     bindR (derefR (sw_servers w s)) (\<lambda>sv.
       assertR (0 \<le> numThreads) (Inr (put_server s (sv\<lparr>ts_pool := setThreadNum_pool numThreads (ts_pool sv)\<rparr>) w)))"

text \<open>The members of the header that install callbacks.\<close>

definition setConnectionCallback_server :: "nat option \<Rightarrow> tcp_server \<Rightarrow> tcp_server" where
  "setConnectionCallback_server cb sv = sv\<lparr>ts_connectionCb := cb\<rparr>"

definition setMessageCallback_server :: "nat option \<Rightarrow> tcp_server \<Rightarrow> tcp_server" where
  "setMessageCallback_server cb sv = sv\<lparr>ts_messageCb := cb\<rparr>"

definition setWriteCompleteCallback_server :: "nat option \<Rightarrow> tcp_server \<Rightarrow> tcp_server" where
  "setWriteCompleteCallback_server cb sv = sv\<lparr>ts_writeCompleteCb := cb\<rparr>"

definition start_server ::
  "'o net_os_scheme \<Rightarrow> ('a sworld_scheme \<Rightarrow> ((ptr \<times> ptr) \<times> 'a sworld_scheme) res) \<Rightarrow>
   (ptr \<Rightarrow> 'a sworld_scheme \<Rightarrow> 'a sworld_scheme res) option \<Rightarrow> ptr \<Rightarrow> 'a sworld_scheme \<Rightarrow> 'a sworld_scheme res" where
  "start_server os starter threadInitCallback s w =
     bindR (derefR (sw_servers w s)) (\<lambda>sv.
     bindR (start_pool starter threadInitCallback (ts_pool sv) w) (\<lambda>(pl, w1).
       let w2 = put_server s (sv\<lparr>ts_pool := pl\<rparr>) w1 in
       bindR (derefR (sw_acceptors w2 (ts_acceptor sv))) (\<lambda>ac.
         assertR (\<not> ac_listening ac)
           (runInLoop os (\<lambda>_. listen os (ts_acceptor sv)) (ts_loop sv) (F_listen (ts_acceptor sv)) w2))))"

definition conn_name :: "tcp_server \<Rightarrow> 32 word \<Rightarrow> string" where
  "conn_name sv i = ts_name sv @ snprintf 64 (''-'' @ ts_ipPort sv @ ''#'' @ signed_decimal i)"

text \<open>\<open>p\<close> and \<open>ch\<close> are the addresses of the new connection and its channel; \<open>env\<close> runs its callbacks.\<close>

definition newConnection ::
  "'o net_os_scheme \<Rightarrow> inet_lib \<Rightarrow> ('a sworld_scheme \<Rightarrow> ptr \<times> ptr) \<Rightarrow> 'a sworld_ext env \<Rightarrow>
   ptr \<Rightarrow> fd \<Rightarrow> inet_address \<Rightarrow> 'a sworld_scheme \<Rightarrow> 'a sworld_scheme res" where
  "newConnection os lib alloc env s sockfd peerAddr w =
     bindR (derefR (sw_servers w s)) (\<lambda>sv. bindR (assertInLoopThread (ts_loop sv) w) (\<lambda>w.
     bindR (getNextLoop (ts_pool sv) w) (\<lambda>(ioLoop, pl).
       let connName = conn_name sv (ts_nextConnId sv); (p, ch) = alloc w in
       bindR (toIpPort lib peerAddr) (\<lambda>_.
       bindR (mk_TcpConnection p ch ioLoop connName sockfd w) (\<lambda>w1.
         let w2 = put_server s (sv\<lparr>ts_pool := pl, ts_nextConnId := ts_nextConnId sv + 1,
                    ts_connections := (ts_connections sv)(connName \<mapsto> p)\<rparr>) w1 in
         bindR (upd_conn p (setCloseCallback_conn (Some (cb_removeConnection s)) \<circ>
                  setWriteCompleteCallback_conn (ts_writeCompleteCb sv) \<circ>
                  setMessageCallback_conn (ts_messageCb sv) \<circ> setConnectionCallback_conn (ts_connectionCb sv)) w2) (\<lambda>w3.
           runInLoop os (\<lambda>_. connectEstablished env os p) ioLoop (F_connectEstablished p) w3))))))"

definition removeConnectionInLoop :: "'o os_scheme \<Rightarrow> ptr \<Rightarrow> ptr \<Rightarrow> 'a sworld_scheme \<Rightarrow> 'a sworld_scheme res" where
  "removeConnectionInLoop os s p w =
     bindR (derefR (sw_servers w s)) (\<lambda>sv. bindR (assertInLoopThread (ts_loop sv) w) (\<lambda>w.
     bindR (get_conn p w) (\<lambda>c.
       assertR (ts_connections sv (tc_name c) \<noteq> None)
         (let w1 = put_server s (sv\<lparr>ts_connections := (ts_connections sv)(tc_name c := None)\<rparr>) w in
          Inr (queueInLoop os (tc_loop c) (F_connectDestroyed p) w1)))))"

definition removeConnection :: "'o os_scheme \<Rightarrow> ptr \<Rightarrow> ptr \<Rightarrow> 'a sworld_scheme \<Rightarrow> 'a sworld_scheme res" where
  "removeConnection os s p w =
     bindR (derefR (sw_servers w s)) (\<lambda>sv.
       runInLoop os (\<lambda>_. removeConnectionInLoop os s p) (ts_loop sv) (F_removeConnectionInLoop s p) w)"

text \<open>The destructor visits the connections in the order of the map; then its members go. The threads
  of the pool end in destructors of their own, the subject of the theory \<open>LoopThread\<close>.\<close>

definition delete_TcpServer ::
  "'a sworld_ext env \<Rightarrow> 'o net_os_scheme \<Rightarrow> ptr \<Rightarrow> 'a sworld_scheme \<Rightarrow> 'a sworld_scheme res" where
  "delete_TcpServer env os s w =
     bindR (derefR (sw_servers w s)) (\<lambda>sv. bindR (assertInLoopThread (ts_loop sv) w) (\<lambda>w.
     bindR (foldR (\<lambda>n w. bindR (derefR (ts_connections sv n)) (\<lambda>p. bindR (get_conn p w) (\<lambda>c.
                runInLoop os (\<lambda>_. connectDestroyed env os p) (tc_loop c) (F_connectDestroyed p) w)))
              (sorted_list_of_set (dom (ts_connections sv))) (put_server s (sv\<lparr>ts_started := False\<rparr>) w)) (\<lambda>w1.
     bindR (delete_Acceptor os (ts_acceptor sv) w1) (\<lambda>w2. Inr (w2\<lparr>sw_servers := (sw_servers w2)(s := None)\<rparr>)))))"

section \<open>Dispatch\<close>

definition server_env :: "'a sworld_ext env \<Rightarrow> 'o os_scheme \<Rightarrow> 'a sworld_ext env" where
  "server_env user os k p w =
     (if k mod 4 = 2 then removeConnection os (k div 4) p w
      else if k = 0 then Inr w
      else if k = 4 then defaultMessageCallback p w
      else user k p w)"

fun server_run ::
  "'o net_os_scheme \<Rightarrow> inet_lib \<Rightarrow> ('a sworld_scheme \<Rightarrow> ptr \<times> ptr) \<Rightarrow> 'a sworld_ext env \<Rightarrow> callback \<Rightarrow>
   'a sworld_scheme \<Rightarrow> 'a sworld_scheme res" where
  "server_run os lib alloc user (AcceptorHandleRead a) w =
     handleRead_acceptor os (newConnection os lib alloc (server_env user os)) a w"
| "server_run os lib alloc user k w = conn_run (server_env user os) os (\<lambda>_. Inr) k w"

fun server_runF ::
  "'o net_os_scheme \<Rightarrow> 'a sworld_ext env \<Rightarrow> Functor \<Rightarrow> 'a sworld_scheme \<Rightarrow> 'a sworld_scheme res" where
  "server_runF os user (F_listen a) w = listen os a w"
| "server_runF os user (F_removeConnectionInLoop s p) w = removeConnectionInLoop os s p w"
| "server_runF os user f w = conn_runF (server_env user os) os (\<lambda>_. Inr) f w"

end
