(* ===== verification/Connection.thy ===== *)
theory Connection
  imports TcpConnection
begin

text \<open>
  What \<open>TcpConnection\<close> guarantees: safety of a whole event, integrity of the byte stream, the order of
  flushing and shutting down, and the end of a connection's life.
\<close>

section \<open>A connection to evaluate on\<close>

definition model_conn_channel :: channel where
  "model_conn_channel = model_channel\<lparr>ch_readCb := Some (ConnHandleRead 3), ch_writeCb := Some (ConnHandleWrite 3),
     ch_closeCb := Some (ConnHandleClose 3), ch_errorCb := Some (ConnHandleError 3)\<rparr>"

definition empty_buffer :: buffer where
  "empty_buffer = \<lparr>storage = replicate 16 0, readerIndex = 8, writerIndex = 8\<rparr>"

definition model_conn :: tcp_connection where
  "model_conn = \<lparr>tc_loop = 0, tc_name = ''conn'', tc_state = kConnected, tc_reading = True, tc_sockfd = 5,
     tc_channel = 7, tc_connectionCb = Some 0, tc_messageCb = Some 1, tc_writeCompleteCb = None,
     tc_closeCb = Some 2, tc_inputBuffer = empty_buffer, tc_outputBuffer = empty_buffer\<rparr>"

definition model_cworld :: cworld where
  "model_cworld = \<lparr>w_tid = 1, w_chans = [7 \<mapsto> model_conn_channel], w_loops = w_loops model_world,
     w_trace = w_trace model_world, cw_conns = [3 \<mapsto> model_conn]\<rparr>"

lemmas model_conn_defs = model_cworld_def model_conn_def model_conn_channel_def

lemma empty_buffer_ok [simp]: "buffer_inv empty_buffer" "content empty_buffer = []"
  by (simp_all add: empty_buffer_def buffer_inv_def content_def kCheapPrepend_def max_size_def)

lemma model_cworld_inv: "conns_inv model_cworld"
proof -
  have r: "registry_inv l model_cworld" for l
    by (rule registry_inv_intro)
      (auto simp: model_conn_defs model_defs mk_Poller_def interest_def index_defs split: if_splits)
  have "reactor_inv model_cworld"
    using r by (auto simp: reactor_inv_def fds_unique_def model_cworld_def split: if_splits)
  moreover have "conn_ok 3 model_conn model_cworld"
    by (simp add: conn_ok_def model_conn_defs model_channel_def linked_def state_ok_def isWriting_bit
        plain_events_def ReadEvent_def WriteEvent_def poll_defs index_defs bit_1_iff)
  ultimately show ?thesis by (auto simp: conns_inv_def model_cworld_def split: if_splits)
qed

lemma model_os_contracts: "write_contract model_os" "readv_contract model_os" "peer_alive model_os"
  by (simp_all add: write_contract_def readv_contract_def peer_alive_def model_os_def)

text \<open>Callbacks that answer every message and, when the connection goes down, queue its destruction.\<close>

definition model_env :: "unit env" where
  "model_env = (\<lambda>k p w. foldR (user_call model_os)
     (if k = 1 then [(p, USend empty_buffer), (p, UShutdown)] else if k = 2 then [(p, UQueue (F_connectDestroyed p))] else []) w)"

lemma model_env_polite: "polite model_env"
  unfolding model_env_def by (rule user_scripts_polite [OF model_os_ctl model_os_contracts(1)])

section \<open>A whole event\<close>

text \<open>
  C10: when \<open>Poller::poll\<close> reports an event for the channel of a connection that is up, handling the
  event (\<open>handleClose\<close>, \<open>handleRead\<close>, \<open>handleWrite\<close> and \<open>handleError\<close> as the event set asks, with
  callbacks that keep to the rules of use) fails no assertion and touches no invalid pointer: it
  ends in a world in which every connection, channel and registry is consistent again and no
  connection has moved backwards in the order connecting, connected, disconnecting, disconnected.
  The only other outcome is \<open>std::length_error\<close> when a buffer would exceed the largest vector.
\<close>

theorem connection_event_safe:
  assumes "epoll_ctl_contract os" "readv_contract os" "write_contract os" and "polite env"
    and "conns_inv w" and "cw_conns w p = Some c" and "up c" and "callbacks_set c"
    and "active_ok (tc_loop c) w (tc_channel c)"
  shows "handleEvent (conn_run env os other) (tc_channel c) w = Inl LengthError \<or>
    (\<exists>w'. handleEvent (conn_run env os other) (tc_channel c) w = Inr w' \<and> conns_inv w' \<and>
       (\<forall>q d. cw_conns w q = Some d \<longrightarrow>
          (\<exists>d'. cw_conns w' q = Some d' \<and> rank (tc_state d) \<le> rank (tc_state d'))))"
proof -
  from assms(9) obtain ch where ch: "w_chans w (tc_channel c) = Some ch"
    "ch_revents ch AND NOT (ch_events ch OR POLLERR OR POLLHUP) = 0" by (auto simp: active_ok_def)
  have "safe forward w (handleEvent (conn_run env os other) (tc_channel c) w)"
    by (rule safe_handleEvent [OF assms(1-8) ch])
  moreover have "\<exists>d'. cw_conns w' q = Some d' \<and> rank (tc_state d) \<le> rank (tc_state d')"
    if "evolves forward w w'" "cw_conns w q = Some d" for w' q d
    using that by (rule evolves_conn) (auto simp: forward_def)
  ultimately show ?thesis unfolding safe_def by blast
qed

text \<open>
  The handlers an event set calls for, by the bits of \<open>poll.h\<close> on Linux: 0 \<open>POLLIN\<close>, 1 \<open>POLLPRI\<close>,
  2 \<open>POLLOUT\<close>, 3 \<open>POLLERR\<close>, 4 \<open>POLLHUP\<close>, 5 \<open>POLLNVAL\<close>, 13 \<open>POLLRDHUP\<close>.
\<close>

definition conn_dispatch :: "ptr \<Rightarrow> 32 word \<Rightarrow> callback list" where
  "conn_dispatch p r =
     (if bit r 4 \<and> \<not> bit r 0 then [ConnHandleClose p] else []) @
     (if bit r 0 \<or> bit r 1 \<or> bit r 13 then [ConnHandleRead p] else []) @
     (if bit r 2 then [ConnHandleWrite p] else []) @
     (if bit r 3 \<or> bit r 5 then [ConnHandleError p] else [])"

lemma fire_conn:
  assumes "channel_of p c ch u" "\<And>ch'. linked p c ch' \<Longrightarrow> cb ch' = Some kb"
  shows "fire run test cb (tc_channel c) u = foldR run (if test (ch_revents ch) then [kb] else []) u"
proof -
  from assms(1) obtain ch' where "w_chans u (tc_channel c) = Some ch'" "ch_revents ch' = ch_revents ch" "linked p c ch'"
    by (auto simp: channel_of_def chan_frame_def)
  with assms(2) show ?thesis by (cases "run kb u") (simp_all add: fire_def)
qed

lemma handler_keeps:
  assumes "foldR run (if b then [kb] else []) u = Inr u'" "conns_inv u" "evolves forward w u" "b \<Longrightarrow> safe forward u (run kb u)"
  shows "conns_inv u'" "evolves forward w u'"
  using assms evolves_trans [OF order_forward(1) assms(3)] by (auto simp: safe_def res_simps split: if_splits)

lemma dispatch_tail:
  assumes os: "epoll_ctl_contract os" "write_contract os" and inv: "conns_inv w" and p: "cw_conns w p = Some c"
    and ch: "w_chans w (tc_channel c) = Some ch" and u: "conns_inv u" "evolves forward w u"
  shows "bindR (fire (conn_run env os other) writable ch_writeCb (tc_channel c) u)
      (\<lambda>v. bindR (fire (conn_run env os other) erroneous ch_errorCb (tc_channel c) v) g) =
    bindR (foldR (conn_run env os other) (if writable (ch_revents ch) then [ConnHandleWrite p] else []) u)
      (\<lambda>v. bindR (foldR (conn_run env os other) (if erroneous (ch_revents ch) then [ConnHandleError p] else []) v) g)"
    (is "bindR ?a ?f = bindR ?b ?h")
proof (rule bindR_cong_inv)
  note of = channel_of_evolves [where R = forward, OF inv p ch]
  from of [OF u] obtain cu where cu: "cw_conns u p = Some cu" by (auto simp: channel_of_def)
  show "?a = ?b" by (rule fire_conn [OF of [OF u]]) (simp add: linked_def)
  fix v assume v: "?b = Inr v"
  have "safe forward u (conn_run env os other (ConnHandleWrite p) u)"
    using safe_weaken [OF effect_safe [OF effect_handleWrite_conn [OF os u(1) cu]]] by simp
  from of [OF handler_keeps [OF v u this]]
  have "fire (conn_run env os other) erroneous ch_errorCb (tc_channel c) v =
      foldR (conn_run env os other) (if erroneous (ch_revents ch) then [ConnHandleError p] else []) v"
    by (rule fire_conn) (simp add: linked_def)
  then show "?f v = ?h v" by simp
qed

text \<open>
  C27: dispatching the events of a connection. When \<open>Poller::poll\<close> reports an event for the channel of a
  connection that is up, with callbacks that keep to the rules of use, \<open>Channel::handleEvent\<close> runs
  exactly the handlers of the connection that the event set calls for, in this order: \<open>handleClose\<close> on a
  hang-up without input, \<open>handleRead\<close> on input, urgent input or the end of the peer's output, \<open>handleWrite\<close>
  on writability and \<open>handleError\<close> on an error or an invalid descriptor, whatever the earlier ones did to
  the connection; the channel is marked as being handled meanwhile. \<open>handleClose\<close> and \<open>handleRead\<close> are
  never both run, because a connection asks for input and writability only.
\<close>

theorem connection_event_dispatch:
  assumes os: "epoll_ctl_contract os" "readv_contract os" "write_contract os" and env: "polite env"
    and inv: "conns_inv w" and p: "cw_conns w p = Some c" and up: "up c" and cbs: "callbacks_set c"
    and act: "active_ok (tc_loop c) w (tc_channel c)" and ch: "w_chans w (tc_channel c) = Some ch"
  shows "handleEvent (conn_run env os other) (tc_channel c) w =
      bindR (foldR (conn_run env os other) (conn_dispatch p (ch_revents ch)) (put_chan (tc_channel c) (ch\<lparr>ch_handling := True\<rparr>) w))
        (upd_chan (tc_channel c) (\<lambda>ch. ch\<lparr>ch_handling := False\<rparr>)) \<and>
    \<not> {ConnHandleClose p, ConnHandleRead p} \<subseteq> set (conn_dispatch p (ch_revents ch))"
proof -
  let ?k = "tc_channel c" and ?run = "conn_run env os other" and ?fin = "upd_chan (tc_channel c) (\<lambda>ch. ch\<lparr>ch_handling := False\<rparr>)"
  let ?w = "put_chan ?k (ch\<lparr>ch_handling := True\<rparr>) w" and ?cbs = "\<lambda>test kb. if test (ch_revents ch) then [kb] else []"
  have l: "linked p c ch" using conns_invE [OF inv p] ch by (metis option.inject)
  have excl: "\<not> (hup_only (ch_revents ch) \<and> readable (ch_revents ch))"
    using close_or_read [of "ch_events ch"] act ch l by (auto simp: active_ok_def linked_def plain_events_def)
  have w: "conns_inv ?w" "evolves forward w ?w" "cw_conns ?w p = Some c"
    using conns_inv_handling [OF inv ch, of True] p by simp_all
  note of = channel_of_evolves [where R = forward, OF inv p ch]
  note tail = dispatch_tail [OF os(1,3) inv p ch]
  have "handleEvent ?run ?k w = bindR (fire ?run hup_only ch_closeCb ?k ?w) (\<lambda>u. bindR (fire ?run readable ch_readCb ?k u)
      (\<lambda>u. bindR (fire ?run writable ch_writeCb ?k u) (\<lambda>v. bindR (fire ?run erroneous ch_errorCb ?k v) ?fin)))"
    using ch by (simp add: handleEvent_def)
  also have "\<dots> = bindR (foldR ?run (?cbs hup_only (ConnHandleClose p)) ?w) (\<lambda>u. bindR (foldR ?run (?cbs readable (ConnHandleRead p)) u)
      (\<lambda>u. bindR (foldR ?run (?cbs writable (ConnHandleWrite p)) u) (\<lambda>v. bindR (foldR ?run (?cbs erroneous (ConnHandleError p)) v) ?fin)))"
  proof (rule bindR_cong_inv [OF _ bindR_cong_inv])
    show "fire ?run hup_only ch_closeCb ?k ?w = foldR ?run (?cbs hup_only (ConnHandleClose p)) ?w"
      by (rule fire_conn [OF of [OF w(1,2)]]) (simp add: linked_def)
    fix u assume u: "foldR ?run (?cbs hup_only (ConnHandleClose p)) ?w = Inr u"
    have iu: "conns_inv u" "evolves forward w u"
      using handler_keeps [OF u w(1,2)] closes_safe [OF closes_handleClose_conn [OF os(1) env w(1,3) up cbs]] by simp_all
    show "fire ?run readable ch_readCb ?k u = foldR ?run (?cbs readable (ConnHandleRead p)) u"
      by (rule fire_conn [OF of [OF iu]]) (simp add: linked_def)
    fix v assume v: "foldR ?run (?cbs readable (ConnHandleRead p)) u = Inr v"
    have "safe forward u (?run (ConnHandleRead p) u)" if "readable (ch_revents ch)"
    proof -
      have "u = ?w" using that excl u by simp
      with safe_handleRead_conn [OF os(1,2) env w(1,3) up cbs] show ?thesis by simp
    qed
    from tail [OF handler_keeps [OF v iu this]] show "bindR (fire ?run writable ch_writeCb ?k v) (\<lambda>v. bindR (fire ?run erroneous ch_errorCb ?k v) ?fin) =
        bindR (foldR ?run (?cbs writable (ConnHandleWrite p)) v) (\<lambda>v. bindR (foldR ?run (?cbs erroneous (ConnHandleError p)) v) ?fin)" .
  qed
  also have "\<dots> = bindR (foldR ?run (conn_dispatch p (ch_revents ch)) ?w) ?fin"
    by (simp add: conn_dispatch_def foldR_append bindR_assoc revents_bits)
  finally show ?thesis using excl by (auto simp: conn_dispatch_def revents_bits)
qed

definition model_event :: "32 word \<Rightarrow> cworld" where
  "model_event r = put_chan 7 (model_conn_channel\<lparr>ch_revents := r\<rparr>) model_cworld"

lemma conn_ok_revents:
  assumes "conn_ok p c w" "w_chans w k = Some ch"
  shows "conn_ok p c (put_chan k (ch\<lparr>ch_revents := r\<rparr>) w)"
  using assms
  by (cases "tc_channel c = k") (auto simp: conn_ok_def linked_def state_ok_def isWriting_def split: StateE.splits)

lemma model_event_inv: "conns_inv (model_event r)"
proof -
  have ch: "w_chans model_cworld 7 = Some model_conn_channel" by (simp add: model_cworld_def)
  have "reactor_inv (model_event r)"
    unfolding model_event_def
    by (rule reactor_inv_same_keys [OF _ ch, where ch' = "model_conn_channel\<lparr>ch_revents := r\<rparr>"])
      (use model_cworld_inv in \<open>simp_all add: conns_inv_def\<close>)
  moreover have "conn_ok 3 model_conn (model_event r)"
    unfolding model_event_def using model_cworld_inv
    by (intro conn_ok_revents [OF _ ch]) (simp add: conns_inv_def model_cworld_def)
  ultimately show ?thesis by (auto simp: conns_inv_def model_event_def model_cworld_def split: if_splits)
qed

theorem connection_event_safe_witness:
  "conns_inv (model_event 1) \<and>
   (handleEvent (conn_run model_env model_os (\<lambda>_. Inr)) 7 (model_event 1) = Inl LengthError \<or>
    (\<exists>w'. handleEvent (conn_run model_env model_os (\<lambda>_. Inr)) 7 (model_event 1) = Inr w' \<and> conns_inv w'))"
proof -
  have "active_ok (tc_loop model_conn) (model_event 1) (tc_channel model_conn)"
    by (simp add: active_ok_def model_event_def model_conn_defs model_world_def model_loop_def model_channel_def
        poll_defs)
  moreover have "cw_conns (model_event 1) 3 = Some model_conn" "up model_conn" "callbacks_set model_conn"
    "tc_channel model_conn = 7"
    by (simp_all add: model_event_def model_cworld_def up_def callbacks_set_def model_conn_def)
  ultimately show ?thesis
    using connection_event_safe [OF model_os_ctl model_os_contracts(2,1) model_env_polite model_event_inv [of 1],
        of 3 model_conn "\<lambda>_. Inr"] model_event_inv by auto
qed

theorem connection_event_dispatch_witness:
  "handleEvent (conn_run model_env model_os (\<lambda>_. Inr)) 7 (model_event 1) =
    bindR (foldR (conn_run model_env model_os (\<lambda>_. Inr)) [ConnHandleRead 3]
       (put_chan 7 (model_conn_channel\<lparr>ch_revents := 1, ch_handling := True\<rparr>) (model_event 1)))
     (upd_chan 7 (\<lambda>ch. ch\<lparr>ch_handling := False\<rparr>))"
proof -
  have facts: "active_ok (tc_loop model_conn) (model_event 1) (tc_channel model_conn)" "cw_conns (model_event 1) 3 = Some model_conn"
    "up model_conn" "callbacks_set model_conn" "tc_channel model_conn = 7"
    "w_chans (model_event 1) (tc_channel model_conn) = Some (model_conn_channel\<lparr>ch_revents := 1\<rparr>)"
    by (simp_all add: active_ok_def model_event_def model_conn_defs model_world_def model_loop_def model_channel_def poll_defs up_def callbacks_set_def)
  have "conn_dispatch 3 (ch_revents (model_conn_channel\<lparr>ch_revents := 1\<rparr>)) = [ConnHandleRead 3]"
    by (simp add: conn_dispatch_def bit_1_iff)
  then show ?thesis
    using connection_event_dispatch [OF model_os_ctl model_os_contracts(2,1) model_env_polite model_event_inv facts(2-4) facts(1) facts(6),
        of "\<lambda>_. Inr"] by (simp add: facts(5) del: foldR.simps)
qed

section \<open>The byte stream\<close>

text \<open>What the loop thread does with one connection: calls of its user, and writability events.\<close>

datatype conn_ev = Call user_op | Writable

fun ev_step :: "'o os_scheme \<Rightarrow> ptr \<Rightarrow> conn_ev \<Rightarrow> 'a cworld_scheme \<Rightarrow> 'a cworld_scheme res" where
  "ev_step os p (Call x) w = user_call os (p, x) w"
| "ev_step os p Writable w = handleWrite_conn os p w"

text \<open>
  The bytes handed over along a run: the content of the buffer of every \<open>send\<close> that was made while
  the connection was connected.
\<close>

fun ev_sent :: "conn_ev \<Rightarrow> tcp_connection \<Rightarrow> byte list" where
  "ev_sent (Call x) c = (if user_ok x c then user_sent x c else [])"
| "ev_sent Writable c = []"

fun sent_along :: "'o os_scheme \<Rightarrow> ptr \<Rightarrow> conn_ev list \<Rightarrow> 'a cworld_scheme \<Rightarrow> byte list" where
  "sent_along os p [] w = []"
| "sent_along os p (x # xs) w =
     (case cw_conns w p of None \<Rightarrow> [] | Some c \<Rightarrow> ev_sent x c) @
     (case ev_step os p x w of Inl e \<Rightarrow> [] | Inr w' \<Rightarrow> sent_along os p xs w')"

lemma effect_ev_step:
  assumes os: "epoll_ctl_contract os" "write_contract os" and inv: "conns_inv w"
    and p: "cw_conns w p = Some c" and thread: "isInLoopThread (tc_loop c) w"
  shows "effect os p (ev_sent x c) w (ev_step os p x w)"
proof (cases x)
  case (Call y)
  show ?thesis
  proof (cases "user_ok y c")
    case True
    from effect_user_step [OF os inv p True] thread Call p True show ?thesis
      by (simp add: user_call_def)
  next
    case False
    with Call p inv show ?thesis by (simp add: user_call_def effect_def)
  qed
next
  case Writable
  with effect_handleWrite_conn [OF os inv p] show ?thesis by simp
qed

lemma evolves_thread:
  assumes "evolves R w w'" "conn_frame c' = conn_frame c" "isInLoopThread (tc_loop c) w"
  shows "isInLoopThread (tc_loop c') w'"
proof -
  have "tc_loop c' = tc_loop c" using assms(2) by (simp add: conn_frame_def)
  moreover have "loop_frame (w_loops w' (tc_loop c)) = loop_frame (w_loops w (tc_loop c))" "w_tid w' = w_tid w"
    using assms(1) by (simp_all add: evolves_def)
  ultimately show ?thesis using assms(3) by (simp add: isInLoopThread_def loop_frame_def)
qed

text \<open>
  C9: integrity of the outgoing stream. Along any sequence of calls by the user of a connection (in
  the loop thread) and writability events, while the peer has not reset the connection, the bytes
  the kernel accepted so far, followed by the bytes in the output buffer, are exactly what was
  handed over by the calls of \<open>send\<close> made in the connected state, in order: nothing is lost,
  duplicated or reordered, whatever partial writes the kernel does, and no assertion fails.
\<close>

theorem connection_stream_integrity:
  assumes "epoll_ctl_contract os" "write_contract os" "peer_alive os"
    and "conns_inv w" and "cw_conns w p = Some c" and "own_fd p w" and "isInLoopThread (tc_loop c) w"
  shows "foldR (ev_step os p) xs w = Inl LengthError \<or>
    (\<exists>w' c'. foldR (ev_step os p) xs w = Inr w' \<and> conns_inv w' \<and> cw_conns w' p = Some c' \<and>
       written (tc_sockfd c) (w_trace w') @ content (tc_outputBuffer c') =
       written (tc_sockfd c) (w_trace w) @ content (tc_outputBuffer c) @ sent_along os p xs w)"
  using assms(4-7)
proof (induction xs arbitrary: w c)
  case Nil
  then show ?case by simp
next
  case (Cons x xs)
  have "effect os p (ev_sent x c) w (ev_step os p x w)"
    by (rule effect_ev_step [OF assms(1,2) Cons.prems(1,2,4)])
  then consider "ev_step os p x w = Inl LengthError"
    | (ok) u where "ev_step os p x w = Inr u" "conns_inv u" "evolves user_forward w u"
        "stream p u = stream p w @ ev_sent x c"
    using assms(3) Cons.prems(3) by (auto simp: effect_def)
  then show ?case
  proof cases
    case ok
    from ok(3) Cons.prems(2) obtain cu where cu: "cw_conns u p = Some cu" "conn_frame cu = conn_frame c" by (rule evolves_conn)
    have "own_fd p u" "isInLoopThread (tc_loop cu) u"
      using own_fd_evolves [OF ok(3) Cons.prems(3)] evolves_thread [OF ok(3) cu(2) Cons.prems(4)] by simp_all
    from Cons.IH [OF ok(2) cu(1) this] ok(1,4) cu Cons.prems(2) show ?thesis
      by (simp add: stream_def conn_frame_def) (metis append.assoc)
  qed simp
qed

definition hello :: buffer where
  "hello = \<lparr>storage = replicate 8 0 @ [65, 66], readerIndex = 8, writerIndex = 10\<rparr>"

lemma hello_ok: "buffer_inv hello" "content hello = [65, 66]"
  by (simp_all add: hello_def buffer_inv_def content_def kCheapPrepend_def max_size_def)

lemma model_cworld_conn:
  "cw_conns model_cworld 3 = Some model_conn" "own_fd 3 model_cworld" "isInLoopThread (tc_loop model_conn) model_cworld"
  by (simp_all add: model_cworld_def own_fd_def model_conn_def model_world_def model_loop_def isInLoopThread_def)

theorem connection_stream_integrity_witness:
  "conns_inv model_cworld \<and>
   (foldR (ev_step model_os 3) [Call (USend hello)] model_cworld = Inl LengthError \<or>
    (\<exists>w' c'. foldR (ev_step model_os 3) [Call (USend hello)] model_cworld = Inr w' \<and> cw_conns w' 3 = Some c' \<and>
       written 5 (w_trace w') @ content (tc_outputBuffer c') = [65, 66]))"
proof -
  have "sent_along model_os 3 [Call (USend hello)] model_cworld = [65, 66]"
    by (simp add: model_cworld_conn hello_ok model_conn_def split: sum.splits)
  moreover have "written 5 (w_trace model_cworld) = []" "tc_sockfd model_conn = 5"
    "content (tc_outputBuffer model_conn) = []"
    by (simp_all add: written_def model_cworld_def model_world_def model_conn_def)
  ultimately show ?thesis
    using connection_stream_integrity [OF model_os_ctl model_os_contracts(1,3) model_cworld_inv model_cworld_conn,
        of "[Call (USend hello)]"] model_cworld_inv by (simp del: foldR.simps ev_step.simps sent_along.simps) blast
qed

section \<open>Shutting down\<close>

lemma queue_writeComplete_trace: "\<exists>tr. w_trace (queue_writeComplete os p c w) = w_trace w @ tr"
  by (auto simp: queue_writeComplete_def queueInLoop_def wakeup_def Let_def split: option.splits)

lemma handleWrite_disconnecting:
  assumes os: "epoll_ctl_contract os" "write_contract os" and inv: "conns_inv w" and p: "cw_conns w p = Some c"
    and a: "tc_state c = kDisconnecting" "content (tc_outputBuffer c) \<noteq> []"
  shows "\<exists>w' c' tr. handleWrite_conn os p w = Inr w' \<and> cw_conns w' p = Some c' \<and> w_trace w' = w_trace w @ tr \<and>
         (SysShutdownWr (tc_sockfd c) \<in> set tr \<longleftrightarrow> content (tc_outputBuffer c') = [])"
proof -
  from inv p obtain ch where ch: "w_chans w (tc_channel c) = Some ch" and st: "state_ok c ch" by (rule conns_invE)
  have up: "up c" and wr: "isWriting ch" using a st by (simp_all add: up_def state_ok_def)
  from os(2) inv p ch wr show ?thesis
  proof (cases rule: handleWrite_cases)
    case (failed n)
    with a p show ?thesis by simp
  next
    case (progress n b)
    let ?w1 = "log_call (SysWrite (tc_sockfd c) (content (tc_outputBuffer c)) n) w"
    show ?thesis
    proof (cases "content b = []")
      case False
      with progress show ?thesis by (simp add: Let_def)
    next
      case True
      have inv1: "conns_inv ?w1" using inv by simp
      have p1: "cw_conns ?w1 p = Some c" and ch1: "w_chans ?w1 (tc_channel c) = Some ch" using p ch by simp_all
      obtain w3 where w3: "disableWriting os (tc_channel c) (put_conn p (c\<lparr>tc_outputBuffer := b\<rparr>) ?w1) = Inr w3"
        "w3 = updated_world (tc_loop c) (tc_channel c)
          (ch\<lparr>ch_events := ch_events ch AND NOT WriteEvent, ch_added := True\<rparr>) (put_conn p (c\<lparr>tc_outputBuffer := b\<rparr>) ?w1)"
        using disableWriting_world [OF os(1) inv1 p1 up progress(3) True ch1] by blast
      let ?w4 = "queue_writeComplete os p c w3"
      have "shutdownInLoop os p ?w4 = Inr (log_call (SysShutdownWr (tc_sockfd c)) ?w4)"
        by (simp add: shutdownInLoop_def w3(2) shutdownWrite_def isWriting_bit bit_simps)
      with progress(5) True w3(1) a have run: "handleWrite_conn os p w = Inr (log_call (SysShutdownWr (tc_sockfd c)) ?w4)"
        by (simp add: Let_def)
      from queue_writeComplete_trace obtain tr where "w_trace ?w4 = w_trace w3 @ tr" by blast
      with True show ?thesis unfolding run by (simp add: w3(2))
    qed
  qed
qed


text \<open>The connection while it is shutting down, with two bytes of output left and a write-complete callback.\<close>

definition draining_conn :: tcp_connection where
  "draining_conn = model_conn\<lparr>tc_state := kDisconnecting, tc_outputBuffer := hello, tc_writeCompleteCb := Some 9\<rparr>"

definition model_draining :: cworld where
  "model_draining = \<lparr>w_tid = 1, w_chans = [7 \<mapsto> model_conn_channel\<lparr>ch_events := 5\<rparr>], w_loops = w_loops model_world,
     w_trace = [SysEpollCtl 0 EPOLL_CTL_ADD 5 5 7 0], cw_conns = [3 \<mapsto> draining_conn]\<rparr>"

lemma model_draining_inv: "conns_inv model_draining"
proof -
  have r: "registry_inv l model_draining" for l
    by (rule registry_inv_intro)
      (auto simp: model_draining_def model_conn_channel_def model_defs mk_Poller_def interest_def index_defs split: if_splits)
  have "reactor_inv model_draining"
    using r by (auto simp: reactor_inv_def fds_unique_def model_draining_def split: if_splits)
  moreover have "conn_ok 3 draining_conn model_draining"
    by (simp add: conn_ok_def draining_conn_def model_draining_def model_conn_def model_conn_channel_def model_channel_def linked_def
        state_ok_def isWriting_def plain_events_def ReadEvent_def WriteEvent_def poll_defs index_defs hello_ok)
  ultimately show ?thesis by (auto simp: conns_inv_def model_draining_def split: if_splits)
qed


section \<open>The end of a connection\<close>

text \<open>
  A closed connection is inert: sending, shutting down, closing by force (at once, with a delay
  or by a functor that was queued before) and a writability event that was still to be delivered
  change nothing and report nothing, so its callbacks for the end of the connection do not run
  again.
\<close>

theorem closed_connection_is_inert:
  assumes inv: "conns_inv w" and p: "cw_conns w p = Some c" and closed: "tc_state c = kDisconnected"
  shows "send os p buf w = Inr (buf, w) \<and> sendInLoop os p data w = Inr w \<and> shutdown os p w = Inr w \<and>
    forceClose os p w = Inr w \<and> forceCloseWithDelay p w = Inr w \<and> forceCloseInLoop env os p w = Inr w \<and>
    handleWrite_conn os p w = Inr w"
proof -
  from inv p obtain ch where ch: "w_chans w (tc_channel c) = Some ch" and st: "state_ok c ch"
    by (rule conns_invE)
  then have "\<not> isWriting ch" using closed by (simp add: state_ok_def isWriting_bit)
  with p ch closed show ?thesis
    by (simp add: send_def sendInLoop_def shutdown_def forceClose_def forceCloseWithDelay_def
        forceCloseInLoop_def handleWrite_conn_def)
qed

definition model_closed :: cworld where
  "model_closed = (put_conn 3 (model_conn\<lparr>tc_state := kDisconnected\<rparr>)
     (put_chan 7 (model_conn_channel\<lparr>ch_events := 0, ch_index := kDeleted\<rparr>) model_cworld))
       \<lparr>w_trace := w_trace model_cworld @ [SysEpollCtl 0 EPOLL_CTL_DEL 5 0 7 0]\<rparr>"

lemma plain_events_0 [simp]: "plain_events 0"
  by (simp add: plain_events_def)

lemma model_closed_inv: "conns_inv model_closed"
proof -
  have r: "registry_inv l model_closed" for l
    by (rule registry_inv_intro)
      (auto simp: model_closed_def model_conn_defs model_defs mk_Poller_def interest_def index_defs isNoneEvent_def
        split: if_splits)
  have "reactor_inv model_closed"
    using r by (auto simp: reactor_inv_def fds_unique_def model_closed_def model_cworld_def split: if_splits)
  moreover have "conn_ok 3 (model_conn\<lparr>tc_state := kDisconnected\<rparr>) model_closed"
    by (simp add: conn_ok_def model_closed_def model_conn_defs model_channel_def linked_def state_ok_def)
  ultimately show ?thesis by (auto simp: conns_inv_def model_closed_def model_cworld_def split: if_splits)
qed

lemma model_closed_conn:
  "cw_conns model_closed 3 = Some (model_conn\<lparr>tc_state := kDisconnected\<rparr>)"
  "w_chans model_closed 7 = Some (model_conn_channel\<lparr>ch_events := 0, ch_index := kDeleted\<rparr>)"
  by (simp_all add: model_closed_def)

theorem closed_connection_is_inert_witness:
  "conns_inv model_closed \<and> forceCloseInLoop model_env model_os 3 model_closed = Inr model_closed"
  using closed_connection_is_inert [where os = model_os and env = model_env, OF model_closed_inv model_closed_conn(1)]
    model_closed_inv by simp

lemma conn_frames_eq:
  assumes "linked p c ch" "linked q d ch"
  shows "p = q"
  using assms by (simp add: linked_def)

text \<open>
  C25: the last steps of a connection's life. On a closed connection whose channel is still registered
  and is not about to be dispatched to, \<open>connectDestroyed\<close> and then the destructor (of the
  connection, its channel and its socket) succeed: afterwards the kernel does not watch the
  descriptor, it has been closed, both objects are gone and all other connections are intact.
\<close>

theorem connection_teardown:
  assumes os: "epoll_ctl_contract os" and inv: "conns_inv w" and p: "cw_conns w p = Some c"
    and closed: "tc_state c = kDisconnected" and ch: "w_chans w (tc_channel c) = Some ch"
    and reg: "ch_index ch \<noteq> kNew" "\<not> ch_handling ch" "\<not> awaited (tc_loop c) (tc_channel c) w"
  shows "\<exists>w1 w2. connectDestroyed env os p w = Inr w1 \<and> delete_TcpConnection p w1 = Inr w2 \<and> conns_inv w2 \<and>
    interest (tc_loop c) (w_trace w2) (tc_sockfd c) = None \<and> last (w_trace w2) = SysClose (tc_sockfd c) \<and>
    cw_conns w2 = (cw_conns w)(p := None) \<and> w_chans w2 (tc_channel c) = None"
proof -
  from conns_invE [OF inv p] ch have l: "linked p c ch" and st: "state_ok c ch" and rinv: "reactor_inv w"
    by (metis option.inject)+
  then have loop: "ch_loop ch = tc_loop c" "ch_fd ch = tc_sockfd c" and none: "isNoneEvent ch"
    using closed by (simp_all add: linked_def state_ok_def isNoneEvent_def)
  have reg_l: "registry_inv (tc_loop c) w" using rinv by (simp add: reactor_inv_def)
  let ?w1 = "removed_world (tc_loop c) (tc_channel c) (ch\<lparr>ch_added := False\<rparr>) w"
  have rem: "remove_channel os (tc_channel c) w = Inr ?w1"
    using remove_channel_ok [OF os reg_l _ reg(1) none] reactor_registrable [OF rinv ch] loop reg(3)
    by (auto simp: awaited_def)
  have rinv1: "reactor_inv ?w1"
    using reactor_inv_removed [OF rinv ch reg(1)] loop by simp
  let ?ch1 = "ch\<lparr>ch_added := False, ch_index := kNew\<rparr>"
  have ch1: "w_chans ?w1 (tc_channel c) = Some ?ch1" by simp
  let ?w2 = "(log_call (SysClose (tc_sockfd c)) (?w1\<lparr>w_chans := (w_chans ?w1)(tc_channel c := None)\<rparr>))
      \<lparr>cw_conns := (cw_conns w)(p := None)\<rparr>"
  have del: "delete_TcpConnection p ?w1 = Inr ?w2"
    using p closed delete_Channel_ok [OF ch1 _ _ _ rinv1] reg(2) by (simp add: delete_TcpConnection_def)
  have "reactor_inv (?w1\<lparr>w_chans := (w_chans ?w1)(tc_channel c := None)\<rparr>)"
    by (rule reactor_inv_delete [OF rinv1 ch1]) simp
  then have rinv2: "reactor_inv ?w2"
    by (rule reactor_inv_cong) simp_all
  have "conn_ok q d ?w2" if "cw_conns ?w2 q = Some d" for q d
  proof -
    from that have q: "q \<noteq> p" "cw_conns w q = Some d" by (auto split: if_splits)
    then have "conn_ok q d w" using inv by (simp add: conns_inv_def)
    then obtain dh where dh: "w_chans w (tc_channel d) = Some dh" "linked q d dh" by (auto simp: conn_ok_def)
    have "tc_channel d \<noteq> tc_channel c"
      using q dh ch l conn_frames_eq [of p c ch q d] by auto
    with \<open>conn_ok q d w\<close> show ?thesis by (simp add: conn_ok_def)
  qed
  with rinv2 have inv2: "conns_inv ?w2" by (simp add: conns_inv_def)
  have "registry_inv (tc_loop c) ?w1" using rinv1 by (simp add: reactor_inv_def)
  from registry_inv_unmapped [OF this, of "tc_sockfd c"] loop
  have int: "interest (tc_loop c) (w_trace ?w2) (tc_sockfd c) = None" by simp
  have cd: "connectDestroyed env os p w = Inr ?w1"
    using p closed rem by (simp add: connectDestroyed_def)
  show ?thesis
    by (rule exI [of _ ?w1], rule exI [of _ ?w2]) (use cd del inv2 int in simp)
qed

theorem connection_teardown_witness:
  "conns_inv model_closed \<and>
   (\<exists>w1 w2. connectDestroyed model_env model_os 3 model_closed = Inr w1 \<and> delete_TcpConnection 3 w1 = Inr w2 \<and>
      cw_conns w2 = Map.empty)"
proof -
  let ?c = "model_conn\<lparr>tc_state := kDisconnected\<rparr>"
    and ?ch = "model_conn_channel\<lparr>ch_events := 0, ch_index := kDeleted\<rparr>"
  have "w_chans model_closed (tc_channel ?c) = Some ?ch" "ch_index ?ch \<noteq> kNew" "\<not> ch_handling ?ch"
    "\<not> awaited (tc_loop ?c) (tc_channel ?c) model_closed" "(cw_conns model_closed)(3 := None) = Map.empty"
    by (simp_all add: model_closed_def model_conn_defs model_channel_def index_defs awaited_def model_world_def model_loop_def)
  with connection_teardown [OF model_os_ctl model_closed_inv model_closed_conn(1), of ?ch model_env] model_closed_inv
  show ?thesis by (simp, metis)
qed

section \<open>Where the code aborts\<close>

lemma remove_channel_with_events:
  assumes "w_chans w k = Some ch" "ch_events ch \<noteq> 0"
  shows "remove_channel os k w = Inl AssertFailure"
  using assms by (simp add: remove_channel_def isNoneEvent_def)

text \<open>
  C30: two ways to make \<open>connectDestroyed\<close> fail the assertion of \<open>Channel::remove\<close>. The first is to call
  it on a connection that is shutting down and whose channel still has events, because it is reading or
  has output left, as the destructor of \<open>TcpServer\<close> does with every connection it still has: only
  a connected one gets its events cleared. The second is \<open>startRead\<close>, in the loop thread, on a connection
  that has been closed: it registers the channel again.
\<close>

theorem connectDestroyed_aborts:
  assumes os: "epoll_ctl_contract os" and inv: "conns_inv w" and p: "cw_conns w p = Some c"
    and ch: "w_chans w (tc_channel c) = Some ch"
  shows "(tc_state c = kDisconnecting \<and> ch_events ch \<noteq> 0 \<longrightarrow> connectDestroyed env os p w = Inl AssertFailure) \<and>
    (tc_state c = kDisconnected \<and> isInLoopThread (tc_loop c) w \<longrightarrow>
       (\<exists>w1. startRead os p w = Inr w1 \<and> connectDestroyed env os p w1 = Inl AssertFailure))"
proof (intro conjI impI)
  show "connectDestroyed env os p w = Inl AssertFailure" if "tc_state c = kDisconnecting \<and> ch_events ch \<noteq> 0"
    using that p remove_channel_with_events [OF ch] by (simp add: connectDestroyed_def)
  show "\<exists>w1. startRead os p w = Inr w1 \<and> connectDestroyed env os p w1 = Inl AssertFailure"
    if a: "tc_state c = kDisconnected \<and> isInLoopThread (tc_loop c) w"
  proof -
    from conns_invE [OF inv p] ch have st: "state_ok c ch" and rinv: "reactor_inv w" by (metis option.inject)+
    then have "\<not> isReading ch" using a by (simp add: state_ok_def isReading_bit)
    from os rinv ch obtain u where u: "set_events os (\<lambda>e. e OR ReadEvent) (tc_channel c) w = Inr u"
      "u = updated_world (ch_loop ch) (tc_channel c) (ch\<lparr>ch_events := ch_events ch OR ReadEvent, ch_added := True\<rparr>) w"
      by (rule set_events_reactor)
    let ?w1 = "put_conn p (c\<lparr>tc_reading := True\<rparr>) u"
    have start: "startRead os p w = Inr ?w1"
      using a p ch u \<open>\<not> isReading ch\<close> by (simp add: startRead_def runInLoop_def startReadInLoop_def enableReading_def)
    have "\<exists>ch1. w_chans ?w1 (tc_channel c) = Some ch1 \<and> bit (ch_events ch1) 0"
      by (simp add: u(2) bit_or_iff)
    then obtain ch1 where ch1: "w_chans ?w1 (tc_channel c) = Some ch1" "bit (ch_events ch1) 0" by blast
    then have "ch_events ch1 \<noteq> 0" by (cases "ch_events ch1 = 0") simp_all
    with ch1 have "connectDestroyed env os p ?w1 = Inl AssertFailure"
      using a remove_channel_with_events [OF ch1(1)] by (simp add: connectDestroyed_def)
    with start show ?thesis by blast
  qed
qed

theorem connectDestroyed_aborts_witness:
  "connectDestroyed model_env model_os 3 model_draining = Inl AssertFailure \<and>
   (\<exists>w1. startRead model_os 3 model_closed = Inr w1 \<and> connectDestroyed model_env model_os 3 w1 = Inl AssertFailure)"
proof
  have "cw_conns model_draining 3 = Some draining_conn"
    "w_chans model_draining (tc_channel draining_conn) = Some (model_conn_channel\<lparr>ch_events := 5\<rparr>)"
    by (simp_all add: model_draining_def draining_conn_def model_conn_def)
  from connectDestroyed_aborts [where env = model_env, OF model_os_ctl model_draining_inv this]
  show "connectDestroyed model_env model_os 3 model_draining = Inl AssertFailure" by (simp add: draining_conn_def)
  have "isInLoopThread (tc_loop (model_conn\<lparr>tc_state := kDisconnected\<rparr>)) model_closed"
    by (simp add: isInLoopThread_def model_closed_def model_conn_defs model_world_def model_loop_def)
  moreover have "tc_channel (model_conn\<lparr>tc_state := kDisconnected\<rparr>) = 7" by (simp add: model_conn_def)
  ultimately show "\<exists>w1. startRead model_os 3 model_closed = Inr w1 \<and> connectDestroyed model_env model_os 3 w1 = Inl AssertFailure"
    using connectDestroyed_aborts [where env = model_env, OF model_os_ctl model_closed_inv model_closed_conn(1)]
      model_closed_conn(2) by simp
qed

text \<open>Stopping to read on a connection without output takes its channel out of the kernel's list.\<close>

lemma stopRead_deletes:
  assumes os: "epoll_ctl_contract os" and inv: "conns_inv w" and p: "cw_conns w p = Some c" and st: "tc_state c = kConnected"
    and out: "content (tc_outputBuffer c) = []" and thr: "isInLoopThread (tc_loop c) w"
    and ch: "w_chans w (tc_channel c) = Some ch" "isReading ch"
  obtains w1 ch1 where "stopRead os p w = Inr w1" "conns_inv w1" "cw_conns w1 p = Some (c\<lparr>tc_reading := False\<rparr>)"
    "w_chans w1 (tc_channel c) = Some ch1" "ch_index ch1 = kDeleted" "cworld.more w1 = cworld.more w"
    "interest (tc_loop c) (w_trace w1) (tc_sockfd c) = None"
proof -
  from conns_invE [OF inv p] ch(1) have l: "linked p c ch" and ok: "state_ok c ch" and rinv: "reactor_inv w"
    and bufs: "buffer_inv (tc_inputBuffer c)" "buffer_inv (tc_outputBuffer c)" by (metis option.inject)+
  have wr: "\<not> isWriting ch" using ok st out by (simp add: state_ok_def)
  have none: "ch_events ch AND NOT ReadEvent = 0"
  proof (rule bit_eqI)
    fix n
    have "ch_events ch AND NOT (ReadEvent OR WriteEvent) = 0" using l by (simp add: linked_def plain_events_def)
    then have "\<not> bit (ch_events ch AND NOT (ReadEvent OR WriteEvent)) n" by simp
    then show "bit (ch_events ch AND NOT ReadEvent) n \<longleftrightarrow> bit 0 n"
      using wr bit_imp_le_length [of "ch_events ch" n] by (cases "n = 2") (auto simp: bit_and_iff bit_or_iff bit_not_iff isWriting_bit)
  qed
  have reg: "registry_inv (ch_loop ch) w" using rinv by (simp add: reactor_inv_def)
  from reg reactor_registrable [OF rinv ch(1)] have added: "ch_index ch = kAdded"
    by (cases rule: registry_inv_index) (use ch(2) ok st in \<open>auto simp: state_ok_def isNoneEvent_def isReading_bit\<close>)
  from os rinv ch(1) obtain u where u: "set_events os (\<lambda>e. e AND NOT ReadEvent) (tc_channel c) w = Inr u"
    "u = updated_world (ch_loop ch) (tc_channel c) (ch\<lparr>ch_events := ch_events ch AND NOT ReadEvent, ch_added := True\<rparr>) w"
    by (rule set_events_reactor)
  let ?w1 = "put_conn p (c\<lparr>tc_reading := False\<rparr>) u"
  have run: "stopRead os p w = Inr ?w1"
    using p ch u(1) thr by (simp add: stopRead_def runInLoop_def stopReadInLoop_def disableReading_def u(2))
  have "effect os p [] w (stopReadInLoop os p w)" by (rule effect_startReadInLoop(2) [OF os inv p]) (simp add: up_def st)
  moreover have "stopReadInLoop os p w = Inr ?w1" using run thr p by (simp add: stopRead_def runInLoop_def)
  ultimately have inv1: "conns_inv ?w1" by (simp add: effect_def)
  let ?ch1 = "ch\<lparr>ch_events := 0, ch_added := True, ch_index := kDeleted\<rparr>"
  have ch1: "w_chans ?w1 (tc_channel c) = Some ?ch1" using none added by (simp add: u(2) next_index_def isNoneEvent_def)
  show thesis
    by (rule that [OF run inv1 _ ch1]) (use l none added in \<open>simp_all add: u(2) linked_def update_op_def isNoneEvent_def\<close>)
qed

text \<open>Closing a connection whose channel is not in the kernel's list puts it there, without events.\<close>

lemma close_adds_again:
  assumes os: "epoll_ctl_contract os" and inv: "conns_inv w" and p: "cw_conns w p = Some c"
    and ch: "w_chans w (tc_channel c) = Some ch" and del: "ch_index ch = kDeleted"
  obtains u chu where "disableAll os (tc_channel c) (put_conn p (c\<lparr>tc_state := kDisconnected\<rparr>) w) = Inr u"
    "cw_conns u p = Some (c\<lparr>tc_state := kDisconnected\<rparr>)" "w_chans u (tc_channel c) = Some chu" "ch_closeCb chu = Some (ConnHandleClose p)"
    "interest (tc_loop c) (w_trace u) (tc_sockfd c) = Some (0, tc_channel c)" "cworld.more u = cworld.more w"
proof -
  let ?c = "c\<lparr>tc_state := kDisconnected\<rparr>"
  from conns_invE [OF inv p] ch have l: "linked p c ch" and bufs: "buffer_inv (tc_inputBuffer c)" "buffer_inv (tc_outputBuffer c)"
    by (metis option.inject)+
  have "state_ok ?c (ch\<lparr>ch_events := NoneEvent, ch_added := True, ch_index := i\<rparr>)" for i
    by (simp add: state_ok_def NoneEvent_def)
  then obtain u where u: "set_events os (\<lambda>e. NoneEvent) (tc_channel c) (put_conn p ?c w) = Inr u"
    "u = updated_world (tc_loop c) (tc_channel c) (ch\<lparr>ch_events := NoneEvent, ch_added := True\<rparr>) (put_conn p ?c w)"
    using conns_inv_events [OF os inv p ch, of ?c "\<lambda>e. NoneEvent"] bufs by auto
  then have "disableAll os (tc_channel c) (put_conn p ?c w) = Inr u" by (simp add: disableAll_def)
  moreover have "interest (tc_loop c) (w_trace u) (tc_sockfd c) = Some (0, tc_channel c)"
    using l del by (simp add: u(2) update_op_def index_defs linked_def NoneEvent_def)
  ultimately show thesis using l by (auto intro!: that simp: u(2) linked_def)
qed

text \<open>What a callback does not touch: the connections, their channels and what the kernel watches.\<close>

definition stays :: "'a cworld_scheme \<Rightarrow> 'a cworld_scheme \<Rightarrow> bool" where
  "stays w w' \<longleftrightarrow> cw_conns w' = cw_conns w \<and> w_chans w' = w_chans w \<and> (\<forall>l. interest l (w_trace w') = interest l (w_trace w))"

text \<open>
  C31: closing a connection whose reading was stopped. On a connected connection that is reading and has
  no output left, \<open>stopRead\<close> (in the loop thread) takes the channel out of the kernel's list. When
  \<open>forceClose\<close> is called then, the functor it queues closes the connection, and \<open>handleClose\<close> does not
  remove the channel but adds it again, without events; this holds for connection and close callbacks
  that return and leave connections and channels alone. A hang-up of the peer is now reported for
  the closed connection, and handling it fails the assertion in \<open>handleClose\<close>.
\<close>

theorem hangup_after_close_aborts:
  assumes os: "epoll_ctl_contract os" and inv: "conns_inv w" and p: "cw_conns w p = Some c" and st: "tc_state c = kConnected"
    and out: "content (tc_outputBuffer c) = []" and thr: "isInLoopThread (tc_loop c) w"
    and ch: "w_chans w (tc_channel c) = Some ch" "isReading ch"
    and cbs: "tc_connectionCb c = Some kc" "tc_closeCb c = Some kl"
    and kc: "\<And>u. cworld.more u = cworld.more w \<Longrightarrow> cw_conns u p \<noteq> None \<Longrightarrow>
      \<exists>u'. env kc p u = Inr u' \<and> stays u u' \<and> cworld.more u' = cworld.more w"
    and kl: "\<And>u. cworld.more u = cworld.more w \<Longrightarrow> cw_conns u p \<noteq> None \<Longrightarrow> \<exists>u'. env kl p u = Inr u' \<and> stays u u'"
  shows "\<exists>w1 w2 u. stopRead os p w = Inr w1 \<and> interest (tc_loop c) (w_trace w1) (tc_sockfd c) = None \<and>
     forceClose os p w1 = Inr w2 \<and> last (el_pending (w_loops w2 (tc_loop c))) = F_forceCloseInLoop p \<and>
     forceCloseInLoop env os p w2 = Inr u \<and> interest (tc_loop c) (w_trace u) (tc_sockfd c) = Some (0, tc_channel c) \<and>
     (\<forall>chu r. w_chans u (tc_channel c) = Some chu \<and> bit r 4 \<and> \<not> bit r 0 \<longrightarrow>
        handleEvent (conn_run env os other) (tc_channel c) (put_chan (tc_channel c) (chu\<lparr>ch_revents := r\<rparr>) u) =
          Inl AssertFailure)"
proof -
  from os inv p st out thr ch obtain w1 ch1 where w1: "stopRead os p w = Inr w1" "conns_inv w1"
    "cw_conns w1 p = Some (c\<lparr>tc_reading := False\<rparr>)" "w_chans w1 (tc_channel c) = Some ch1" "ch_index ch1 = kDeleted" "cworld.more w1 = cworld.more w"
    "interest (tc_loop c) (w_trace w1) (tc_sockfd c) = None"
    by (rule stopRead_deletes)
  let ?c2 = "c\<lparr>tc_reading := False, tc_state := kDisconnecting\<rparr>"
  let ?w2 = "queueInLoop os (tc_loop c) (F_forceCloseInLoop p) (put_conn p ?c2 w1)"
  have close: "forceClose os p w1 = Inr ?w2" using w1(3) st by (simp add: forceClose_def)
  have "effect os p [] w1 (forceClose os p w1)" by (rule effect_forceClose [OF w1(2,3)])
  then have inv2: "conns_inv ?w2" by (simp add: close effect_def)
  have p2: "cw_conns ?w2 p = Some ?c2" and ch2: "w_chans ?w2 (tc_channel ?c2) = Some ch1" using w1(4) by simp_all
  from os inv2 p2 ch2 w1(5) obtain v chv where v: "disableAll os (tc_channel ?c2) (put_conn p (?c2\<lparr>tc_state := kDisconnected\<rparr>) ?w2) = Inr v"
    "cw_conns v p = Some (?c2\<lparr>tc_state := kDisconnected\<rparr>)" "w_chans v (tc_channel ?c2) = Some chv" "ch_closeCb chv = Some (ConnHandleClose p)"
    "interest (tc_loop ?c2) (w_trace v) (tc_sockfd ?c2) = Some (0, tc_channel ?c2)" "cworld.more v = cworld.more ?w2" by (rule close_adds_again)
  obtain x where x: "env kc p v = Inr x" "stays v x" "cworld.more x = cworld.more w" using kc [of v] v(2,6) w1(6) by auto
  obtain u where u: "env kl p x = Inr u" "stays x u" using kl [of x] x(2,3) v(2) by (auto simp: stays_def)
  have run: "forceCloseInLoop env os p ?w2 = Inr u"
    using p2 v(1,2) x u cbs by (simp add: forceCloseInLoop_def handleClose_conn_def call_cb_def stays_def)
  have after: "cw_conns u p = Some (?c2\<lparr>tc_state := kDisconnected\<rparr>)" "w_chans u (tc_channel c) = Some chv"
    "interest (tc_loop c) (w_trace u) (tc_sockfd c) = Some (0, tc_channel c)"
    using v x(2) u(2) by (simp_all add: stays_def)
  have "handleEvent (conn_run env os other) (tc_channel c) (put_chan (tc_channel c) (chv\<lparr>ch_revents := r\<rparr>) u) = Inl AssertFailure"
    if "bit r 4" "\<not> bit r 0" for r
    using that after v(4) by (simp add: handleEvent_def fire_def handleClose_conn_def revents_bits)
  with w1(1,7) close run after show ?thesis by (intro exI [of _ w1] exI [of _ ?w2] exI [of _ u]) simp
qed

theorem hangup_after_close_aborts_witness:
  "\<exists>w1 w2 u. stopRead model_os 3 model_cworld = Inr w1 \<and> forceClose model_os 3 w1 = Inr w2 \<and>
     forceCloseInLoop model_env model_os 3 w2 = Inr u \<and> interest 0 (w_trace u) 5 = Some (0, 7) \<and>
     (\<forall>chu. w_chans u 7 = Some chu \<longrightarrow>
        handleEvent (conn_run model_env model_os (\<lambda>_. Inr)) 7 (put_chan 7 (chu\<lparr>ch_revents := POLLHUP\<rparr>) u) = Inl AssertFailure)"
proof -
  have kc: "\<exists>u'. model_env 0 3 u = Inr u' \<and> stays u u' \<and> cworld.more u' = cworld.more model_cworld" for u
    by (simp add: model_env_def stays_def)
  have kl: "\<exists>u'. model_env 2 3 u = Inr u' \<and> stays u u'" if "cw_conns u 3 \<noteq> None" for u
    using that by (auto simp: model_env_def user_call_def stays_def)
  have facts: "tc_state model_conn = kConnected" "content (tc_outputBuffer model_conn) = []" "tc_connectionCb model_conn = Some 0"
    "tc_closeCb model_conn = Some 2" "tc_channel model_conn = 7" "tc_loop model_conn = 0" "tc_sockfd model_conn = 5"
    "w_chans model_cworld 7 = Some model_conn_channel" "isReading model_conn_channel"
    by (simp_all add: model_conn_defs model_channel_def isReading_bit bit_1_iff)
  have ch: "w_chans model_cworld (tc_channel model_conn) = Some model_conn_channel" by (simp add: facts)
  have hup: "bit POLLHUP 4" "\<not> bit POLLHUP 0" by (simp_all add: POLL_bits bit_exp_iff)
  show ?thesis
    using hangup_after_close_aborts [OF model_os_ctl model_cworld_inv model_cworld_conn(1) facts(1,2) model_cworld_conn(3) ch facts(9,3,4),
        where env = model_env and other = "\<lambda>_. Inr"] kc kl hup
    by (simp add: facts(5-7)) blast
qed

end
