(* ===== verification/Server.thy ===== *)
theory Server
  imports TcpServer Connection
begin

text \<open>
  Properties of \<open>TcpServer\<close>: a connection that is accepted gets a name of its own, is put into the
  map and assigned to a loop in turn; a connection that closes leaves the map, and its destruction is
  queued in its loop.
\<close>

section \<open>Frames\<close>

lemma put_server_simps [simp]:
  "w_tid (put_server s sv w) = w_tid w" "w_chans (put_server s sv w) = w_chans w"
  "w_loops (put_server s sv w) = w_loops w" "w_trace (put_server s sv w) = w_trace w"
  "cw_conns (put_server s sv w) = cw_conns w" "sw_servers (put_server s sv w) = (sw_servers w)(s \<mapsto> sv)"
  by (simp_all add: put_server_def)

lemma sw_servers_frame [simp]:
  "sw_servers (put_conn p c w) = sw_servers w" "sw_servers (put_chan k ch w) = sw_servers w"
  "sw_servers (queueInLoop os l fn w) = sw_servers w"
  by (simp_all add: put_conn_def put_chan_def queueInLoop_def wakeup_def log_call_def upd_loop_def Let_def)

lemma sw_servers_more: "cworld.more w = cworld.more w' \<Longrightarrow> sw_servers w = sw_servers w'"
  by (cases w, cases w') (simp add: sworld.defs)

lemma conns_inv_put_server [simp]: "conns_inv (put_server s sv w) \<longleftrightarrow> conns_inv w"
  using conns_inv_cong [of w "put_server s sv w"] conns_inv_cong [of "put_server s sv w" w] by auto

section \<open>Names\<close>

text \<open>
  The counter is below its maximum, so that its increment does not overflow, and the text made of it
  fits into the buffer of 64 characters.
\<close>

definition name_fits :: "tcp_server \<Rightarrow> 32 word \<Rightarrow> bool" where
  "name_fits sv i \<longleftrightarrow> sint i < 2 ^ 31 - 1 \<and> length (ts_ipPort sv) + length (signed_decimal i) \<le> 61"

lemma sint_next: "name_fits sv i \<Longrightarrow> sint (i + 1) = sint i + 1"
  using sint_ge [of i] by (simp add: name_fits_def sint_word_ariths signed_take_bit_int_eq_self)

lemma signed_decimal_nat: "0 \<le> sint i \<Longrightarrow> signed_decimal i = decimal (nat (sint i))"
  by (simp add: signed_decimal_def)

lemma length_decimal_mono: "m \<le> n \<Longrightarrow> length (decimal m) \<le> length (decimal n)"
proof (induction m arbitrary: n rule: decimal.induct)
  case (1 m)
  have "1 \<le> length (decimal n)" by (subst decimal.simps) simp
  moreover have "length (decimal (m div 10)) \<le> length (decimal (n div 10))" if "\<not> m < 10"
    using 1 that by (simp add: div_le_mono)
  ultimately show ?case using 1(2) by (cases "m < 10") (simp_all add: decimal.simps [of m] decimal.simps [of n])
qed

lemma conn_name_fits: "name_fits sv i \<Longrightarrow> conn_name sv i = ts_name sv @ ''-'' @ ts_ipPort sv @ ''#'' @ signed_decimal i"
  by (simp add: conn_name_def name_fits_def snprintf_all)

lemma conn_name_inject:
  assumes "name_fits sv j" "0 \<le> sint i" "sint i \<le> sint j" "conn_name sv i = conn_name sv j"
  shows "i = j"
proof -
  have j: "0 \<le> sint j" using assms(2,3) by simp
  have "name_fits sv i"
    using assms(1-3) j length_decimal_mono [OF nat_mono [OF assms(3)]] by (simp add: name_fits_def signed_decimal_nat)
  with assms(1,4) have "decimal (nat (sint i)) = decimal (nat (sint j))"
    using assms(2) j by (simp add: conn_name_fits signed_decimal_nat)
  with assms(2) j have "sint i = sint j" by simp
  then show ?thesis by (rule signed_word_eqI)
qed

text \<open>
  The counter of an IPv4 server overflows before its text gets too long; an IPv6 server may run out of
  text after a hundred million connections.
\<close>

lemma name_fits_ipv4: "length (ts_ipPort sv) \<le> 21 \<Longrightarrow> 0 \<le> sint i \<Longrightarrow> sint i < 2 ^ 31 - 1 \<Longrightarrow> name_fits sv i"
  using length_decimal [of "nat (sint i)" 9] by (simp add: name_fits_def signed_decimal_nat nat_less_iff)

text \<open>At the maximum of the counter the next name starts again below zero, and the names recur.\<close>

lemma counter_overflows: "sint (i :: 32 word) = 2 ^ 31 - 1 \<Longrightarrow> sint (i + 1) = - (2 ^ 31)"
  by (simp add: sint_word_ariths signed_take_bit_eq_take_bit_shift take_bit_int_def)

section \<open>Invariant\<close>

definition server_inv :: "ptr \<Rightarrow> 'a sworld_scheme \<Rightarrow> bool" where
  "server_inv s w \<longleftrightarrow> (\<exists>sv. sw_servers w s = Some sv \<and> pool_inv (ts_pool sv) \<and> tp_started (ts_pool sv) \<and>
     1 \<le> sint (ts_nextConnId sv) \<and>
     (\<forall>n p. ts_connections sv n = Some p \<longrightarrow> (\<exists>c i. cw_conns w p = Some c \<and> tc_name c = n \<and>
        tc_closeCb c = Some (cb_removeConnection s) \<and> 1 \<le> sint i \<and> sint i < sint (ts_nextConnId sv) \<and> n = conn_name sv i)))"

definition keeps_servers :: "'a sworld_ext env \<Rightarrow> bool" where
  "keeps_servers env \<longleftrightarrow> (\<forall>k p w w'. env k p w = Inr w' \<longrightarrow> sw_servers w' = sw_servers w)"

lemma server_inv_evolves:
  assumes "server_inv s w" "evolves R w w'" "sw_servers w' = sw_servers w"
  shows "server_inv s w'"
proof -
  from assms(1) obtain sv where sv: "sw_servers w s = Some sv" "pool_inv (ts_pool sv)" "tp_started (ts_pool sv)"
    "1 \<le> sint (ts_nextConnId sv)" "\<And>n p. ts_connections sv n = Some p \<Longrightarrow> \<exists>c i. cw_conns w p = Some c \<and> tc_name c = n \<and>
        tc_closeCb c = Some (cb_removeConnection s) \<and> 1 \<le> sint i \<and> sint i < sint (ts_nextConnId sv) \<and> n = conn_name sv i"
    unfolding server_inv_def by blast
  have "\<exists>c i. cw_conns w' p = Some c \<and> tc_name c = n \<and> tc_closeCb c = Some (cb_removeConnection s) \<and>
      1 \<le> sint i \<and> sint i < sint (ts_nextConnId sv) \<and> n = conn_name sv i" if "ts_connections sv n = Some p" for n p
  proof -
    from sv(5) [OF that] obtain c i where c: "cw_conns w p = Some c" "tc_name c = n"
      "tc_closeCb c = Some (cb_removeConnection s)" and i: "1 \<le> sint i" "sint i < sint (ts_nextConnId sv)" "n = conn_name sv i" by blast
    from assms(2) c(1) obtain c' where "cw_conns w' p = Some c'" "conn_frame c' = conn_frame c" by (rule evolves_conn)
    with c(2,3) i show ?thesis by (auto simp: conn_frame_def)
  qed
  with sv assms(3) show ?thesis unfolding server_inv_def by metis
qed

section \<open>User callbacks\<close>

definition user_cb :: "nat \<Rightarrow> bool" where
  "user_cb k \<longleftrightarrow> k mod 4 \<noteq> 2 \<and> k \<noteq> 4"

lemma user_cb_safe:
  assumes "polite user" "keeps_servers user" "user_cb k" "conns_inv w" "cw_conns w p \<noteq> None"
  shows "safe forward w (server_env user os k p w)"
    and "server_env user os k p w = Inr w' \<Longrightarrow> sw_servers w' = sw_servers w"
proof -
  have "safe user_forward w (user k p w)" using assms(1,4,5) unfolding polite_def by blast
  then show "safe forward w (server_env user os k p w)"
    using assms(3,4) safe_weaken by (auto simp: server_env_def user_cb_def safe_def)
  show "sw_servers w' = sw_servers w" if "server_env user os k p w = Inr w'"
    using that assms(2,3) by (auto simp: server_env_def user_cb_def keeps_servers_def split: if_splits)
qed

section \<open>Accepting\<close>

lemma mk_TcpConnection_channel:
  assumes "mk_TcpConnection p k l n fd w = Inr w'"
  shows "\<exists>ch. w_chans w' k = Some ch \<and> \<not> ch_handling ch"
  using assms by (auto simp: mk_TcpConnection_def setErrorCallback_def setCloseCallback_def setWriteCallback_def
      setReadCallback_def mk_Channel_def Let_def res_simps)

text \<open>The server after it has created connection \<open>p\<close>.\<close>

definition registered :: "tcp_server \<Rightarrow> ptr \<Rightarrow> tcp_server" where
  "registered sv p = sv\<lparr>ts_pool := (ts_pool sv)\<lparr>tp_next := (tp_next (ts_pool sv) + 1) mod int (length (pool_loops (ts_pool sv)))\<rparr>,
     ts_nextConnId := ts_nextConnId sv + 1, ts_connections := (ts_connections sv)(conn_name sv (ts_nextConnId sv) \<mapsto> p)\<rparr>"

lemma registered_simps [simp]:
  "ts_loop (registered sv p) = ts_loop sv" "ts_name (registered sv p) = ts_name sv" "ts_ipPort (registered sv p) = ts_ipPort sv"
  "ts_acceptor (registered sv p) = ts_acceptor sv" "ts_nextConnId (registered sv p) = ts_nextConnId sv + 1"
  "ts_pool (registered sv p) = (ts_pool sv)\<lparr>tp_next := (tp_next (ts_pool sv) + 1) mod int (length (pool_loops (ts_pool sv)))\<rparr>"
  "ts_connections (registered sv p) = (ts_connections sv)(conn_name sv (ts_nextConnId sv) \<mapsto> p)"
  "ts_connectionCb (registered sv p) = ts_connectionCb sv" "ts_messageCb (registered sv p) = ts_messageCb sv"
  "ts_writeCompleteCb (registered sv p) = ts_writeCompleteCb sv"
  by (simp_all add: registered_def)

text \<open>The connection a server has created, before it is established.\<close>

lemma server_registers:
  assumes inv: "conns_inv w" and sinv: "server_inv s w" and sv: "sw_servers w s = Some sv"
    and al: "alloc w = (p, k)" "cw_conns w p = None" "w_chans w k = None"
    and peer: "inet_ok lib peerAddr" and fd: "\<And>l. l \<in> set (pool_loops (ts_pool sv)) \<Longrightarrow> fd_free l sockfd w"
    and fits: "name_fits sv (ts_nextConnId sv)"
  obtains c w3 l where "newConnection os lib alloc env s sockfd peerAddr w =
      runInLoop os (\<lambda>_. connectEstablished env os p) l (F_connectEstablished p) w3"
    "conns_inv w3" "server_inv s w3" "cw_conns w3 p = Some c" "w_tid w3 = w_tid w" "w_loops w3 = w_loops w"
    "l = pool_loops (ts_pool sv) ! nat (tp_next (ts_pool sv))" "tc_loop c = l" "tc_state c = kConnecting" "tc_sockfd c = sockfd"
    "tc_connectionCb c = ts_connectionCb sv" "tc_messageCb c = ts_messageCb sv" "tc_closeCb c = Some (cb_removeConnection s)"
    "sw_servers w3 s = Some (registered sv p)" "ts_connections sv (conn_name sv (ts_nextConnId sv)) = None"
    "tc_name c = conn_name sv (ts_nextConnId sv)" "tc_channel c = k" "tc_writeCompleteCb c = ts_writeCompleteCb sv"
    "\<exists>c0 ch. \<not> ch_handling ch \<and> w3 = put_conn p c (put_server s (registered sv p) (put_conn p c0 (put_chan k ch w)))"
proof -
  let ?n = "conn_name sv (ts_nextConnId sv)" and ?l = "pool_loops (ts_pool sv) ! nat (tp_next (ts_pool sv))"
  let ?sv = "registered sv p"
  from sinv sv have pool: "pool_inv (ts_pool sv)" "tp_started (ts_pool sv)" "1 \<le> sint (ts_nextConnId sv)"
    and old: "\<And>n q. ts_connections sv n = Some q \<Longrightarrow> \<exists>c i. cw_conns w q = Some c \<and> tc_name c = n \<and>
        tc_closeCb c = Some (cb_removeConnection s) \<and> 1 \<le> sint i \<and> sint i < sint (ts_nextConnId sv) \<and> n = conn_name sv i"
    unfolding server_inv_def by auto
  note nx = pool_inv_next [OF pool(1)]
  have "?l \<in> set (pool_loops (ts_pool sv))" using nx by (intro nth_mem) (simp add: nat_less_iff)
  then have free: "fd_free ?l sockfd w" by (rule fd)
  obtain c0 ch where c0: "mk_TcpConnection p k ?l ?n sockfd w = Inr (put_conn p c0 (put_chan k ch w))"
    "conns_inv (put_conn p c0 (put_chan k ch w))" "tc_loop c0 = ?l" "tc_name c0 = ?n" "tc_sockfd c0 = sockfd" "tc_channel c0 = k"
    "tc_state c0 = kConnecting"
    using mk_TcpConnection_ok [OF inv al(2,3) free, of ?n] by metis
  from mk_TcpConnection_channel [OF c0(1)] have idle: "\<not> ch_handling ch" by simp
  let ?w2 = "put_server s ?sv (put_conn p c0 (put_chan k ch w))"
  let ?f = "setCloseCallback_conn (Some (cb_removeConnection s)) \<circ> setWriteCompleteCallback_conn (ts_writeCompleteCb sv) \<circ>
    setMessageCallback_conn (ts_messageCb sv) \<circ> setConnectionCallback_conn (ts_connectionCb sv)"
  let ?w3 = "put_conn p (?f c0) ?w2"
  have fc: "tc_loop (?f c0) = ?l" "tc_name (?f c0) = ?n" "tc_sockfd (?f c0) = sockfd" "tc_state (?f c0) = kConnecting"
    "tc_connectionCb (?f c0) = ts_connectionCb sv" "tc_messageCb (?f c0) = ts_messageCb sv"
    "tc_closeCb (?f c0) = Some (cb_removeConnection s)" "tc_channel (?f c0) = k" "tc_writeCompleteCb (?f c0) = ts_writeCompleteCb sv"
    using c0 by (simp_all add: setCloseCallback_conn_def setWriteCompleteCallback_conn_def setMessageCallback_conn_def
        setConnectionCallback_conn_def)
  have inv2: "conns_inv ?w2" using c0(2) by simp
  then have "conn_ok p c0 ?w2" by (simp add: conns_inv_def)
  then have "conn_ok p (?f c0) ?w2"
    by (auto simp: conn_ok_def linked_def state_ok_def setCloseCallback_conn_def setWriteCompleteCallback_conn_def
        setMessageCallback_conn_def setConnectionCallback_conn_def split: StateE.splits)
  then have inv3: "conns_inv ?w3" by (rule conns_inv_put_conn [OF inv2])
  have name: "conn_name ?sv i = conn_name sv i" for i by (simp add: conn_name_def)
  have "\<exists>c i. cw_conns ?w3 q = Some c \<and> tc_name c = m \<and> tc_closeCb c = Some (cb_removeConnection s) \<and>
      1 \<le> sint i \<and> sint i < sint (ts_nextConnId ?sv) \<and> m = conn_name ?sv i" if "ts_connections ?sv m = Some q" for m q
  proof (cases "m = ?n")
    case True
    with that have "q = p" by simp
    with True fc pool(3) show ?thesis by (intro exI [of _ "?f c0"] exI [of _ "ts_nextConnId sv"]) (simp add: name sint_next [OF fits])
  next
    case False
    with that have "ts_connections sv m = Some q" by simp
    from old [OF this] obtain d i where d: "cw_conns w q = Some d" "tc_name d = m" "tc_closeCb d = Some (cb_removeConnection s)"
      "1 \<le> sint i" "sint i < sint (ts_nextConnId sv)" "m = conn_name sv i" by blast
    with al(2) have "q \<noteq> p" by auto
    with d show ?thesis by (intro exI [of _ d] exI [of _ i]) (simp add: name sint_next [OF fits])
  qed
  then have sinv3: "server_inv s ?w3"
    using pool getNextLoop_ok(2) [OF pool(1,2)] unfolding server_inv_def by (intro exI [of _ ?sv]) (simp add: sint_next [OF fits])
  have "ts_connections sv ?n = None"
  proof (rule ccontr)
    assume "ts_connections sv ?n \<noteq> None"
    then obtain q where "ts_connections sv ?n = Some q" by blast
    from old [OF this] obtain i where "1 \<le> sint i" "sint i < sint (ts_nextConnId sv)" "?n = conn_name sv i" by blast
    with conn_name_inject [OF fits, of i] show False by simp
  qed
  moreover have "newConnection os lib alloc env s sockfd peerAddr w =
      runInLoop os (\<lambda>_. connectEstablished env os p) ?l (F_connectEstablished p) ?w3"
    using sv al(1) c0(1) toIpPort_ok [OF peer] by (simp add: newConnection_def getNextLoop_ok(1) [OF pool(1,2)] Let_def registered_def)
  moreover have "\<exists>c1 ch. \<not> ch_handling ch \<and> ?w3 = put_conn p (?f c0) (put_server s ?sv (put_conn p c1 (put_chan k ch w)))"
    using idle by blast
  ultimately show thesis using that [of ?l ?w3 "?f c0"] inv3 sinv3 fc by simp
qed

text \<open>In the thread of its loop a new connection is established at once, and its connection callback runs.\<close>

lemma establish_in_loop:
  assumes "epoll_ctl_contract os" "polite user" "keeps_servers user" "user_cb cb"
    and w: "conns_inv w" "server_inv s w" "cw_conns w p = Some c" and c: "tc_state c = kConnecting" "tc_connectionCb c = Some cb"
    and r: "r = connectEstablished (server_env user os) os p w"
  shows "r = Inl LengthError \<or> (\<exists>w' c'. r = Inr w' \<and> conns_inv w' \<and> server_inv s w' \<and> sw_servers w' = sw_servers w \<and>
    cw_conns w' p = Some c' \<and> tc_loop c' = tc_loop c \<and> tc_state c' \<noteq> kConnecting)"
proof -
  from assms(1) w(1,3) c(1) obtain w4 where w4: "connectEstablished (server_env user os) os p w =
      call_cb (server_env user os) (tc_connectionCb c) p w4" "conns_inv w4" "evolves forward w w4"
    "cw_conns w4 = (cw_conns w)(p \<mapsto> c\<lparr>tc_state := kConnected\<rparr>)" "cworld.more w4 = cworld.more w"
    by (rule connectEstablished_up)
  have r4: "r = server_env user os cb p w4" using w4(1) c(2) r by (simp add: call_cb_def)
  have "cw_conns w4 p \<noteq> None" by (simp add: w4(4))
  note cbs = user_cb_safe [where os = os, OF assms(2-4) w4(2) this]
  from cbs(1) consider "r = Inl LengthError" | (ok) w' where "r = Inr w'" "conns_inv w'" "evolves forward w4 w'"
    by (auto simp: safe_def r4)
  then show ?thesis
  proof cases
    case ok
    have same: "sw_servers w' = sw_servers w" using cbs(2) ok(1) r4 sw_servers_more [OF w4(5)] by simp
    have "evolves forward w w'" using evolves_trans [OF order_forward(1) w4(3) ok(3)] .
    then have "server_inv s w'" by (rule server_inv_evolves [OF w(2) _ same])
    moreover obtain c' where "cw_conns w' p = Some c'" "conn_frame c' = conn_frame (c\<lparr>tc_state := kConnected\<rparr>)"
      "forward kConnected (tc_state c')"
      using evolves_conn [OF ok(3), of p "c\<lparr>tc_state := kConnected\<rparr>"] w4(4) by auto
    ultimately show ?thesis using ok same by (auto simp: forward_def conn_frame_def)
  qed simp
qed

text \<open>
  C32: accepting. A server whose pool is started is given a new descriptor, while its counter
  \<open>nextConnId_\<close> is below the maximum of an \<open>int\<close> and \<open>-ipPort#counter\<close> fits the buffer of 64
  characters (\<open>name_fits\<close>; for an IPv4 address the second follows from the first). No assertion fails
  (only \<open>std::length_error\<close> from a callback that fills a buffer is possible): the connection gets a
  name no connection of the map has, is put into the map under it, and belongs to the loop whose turn
  it is. In the thread of that loop it is established at once; otherwise that is queued, as the last
  functor of the loop. All other connections and the invariants stay intact.
\<close>

theorem server_accepts:
  assumes "epoll_ctl_contract os" "polite user" "keeps_servers user" "conns_inv w" "server_inv s w"
    and "sw_servers w s = Some sv" "ts_connectionCb sv = Some cb" "user_cb cb"
    and "alloc w = (p, k)" "cw_conns w p = None" "w_chans w k = None"
    and "inet_ok lib peerAddr" "\<forall>l \<in> set (pool_loops (ts_pool sv)). fd_free l sockfd w"
    and "name_fits sv (ts_nextConnId sv)"
    and "l = pool_loops (ts_pool sv) ! nat (tp_next (ts_pool sv))" "name = conn_name sv (ts_nextConnId sv)"
    and "r = newConnection os lib alloc (server_env user os) s sockfd peerAddr w"
  shows "ts_connections sv name = None \<and> (r = Inl LengthError \<and> isInLoopThread l w \<or>
    (\<exists>w' sv' c. r = Inr w' \<and> conns_inv w' \<and> server_inv s w' \<and> sw_servers w' s = Some sv' \<and>
       ts_connections sv' = (ts_connections sv)(name \<mapsto> p) \<and> cw_conns w' p = Some c \<and> tc_loop c = l \<and>
       (if isInLoopThread l w then tc_state c \<noteq> kConnecting
        else tc_state c = kConnecting \<and> el_pending (w_loops w' l) = el_pending (w_loops w l) @ [F_connectEstablished p])))"
proof -
  have fd: "\<And>l. l \<in> set (pool_loops (ts_pool sv)) \<Longrightarrow> fd_free l sockfd w" using assms(13) by blast
  from assms(4,5,6,9-12) fd assms(14)
  obtain c l' w3 where r3: "newConnection os lib alloc (server_env user os) s sockfd peerAddr w =
      runInLoop os (\<lambda>_. connectEstablished (server_env user os) os p) l' (F_connectEstablished p) w3"
    and w3: "conns_inv w3" "server_inv s w3" "cw_conns w3 p = Some c" "w_tid w3 = w_tid w" "w_loops w3 = w_loops w"
    and l': "l' = l" and c: "tc_loop c = l'" "tc_state c = kConnecting" "tc_connectionCb c = Some cb"
    and reg: "sw_servers w3 s = Some (registered sv p)" and free: "ts_connections sv name = None"
    unfolding assms(15,16) assms(7) [symmetric] by (rule server_registers)
  have new: "\<exists>sv'. sw_servers w3 s = Some sv' \<and> ts_connections sv' = (ts_connections sv)(name \<mapsto> p)" "ts_connections sv name = None"
    using reg free assms(16) by simp_all
  have loop: "isInLoopThread l w3 = isInLoopThread l w" using w3 by (simp add: isInLoopThread_def)
  show ?thesis
  proof (cases "isInLoopThread l w")
    case False
    let ?w' = "queueInLoop os l (F_connectEstablished p) w3"
    have "server_inv s ?w'" by (rule server_inv_evolves [OF w3(2), where R = forward]) simp_all
    with False loop r3 w3 c l' new assms(17) show ?thesis by (auto simp: runInLoop_def)
  next
    case True
    have "r = connectEstablished (server_env user os) os p w3" using True loop r3 l' assms(17) by (simp add: runInLoop_def)
    from establish_in_loop [OF assms(1-3,8) w3(1-3) c(2,3) this] True new c(1) l' show ?thesis by auto
  qed
qed

section \<open>Closing\<close>

lemma removeConnectionInLoop_ok:
  assumes "conns_inv w" "server_inv s w" "sw_servers w s = Some sv" "ts_connections sv n = Some p" "cw_conns w p = Some c"
  obtains w' where "removeConnectionInLoop os s p w = Inr w'" "conns_inv w'" "server_inv s w'" "cw_conns w' = cw_conns w"
    "\<exists>sv'. sw_servers w' s = Some sv' \<and> ts_connections sv' = (ts_connections sv)(n := None)"
    "el_pending (w_loops w' (tc_loop c)) = el_pending (w_loops w (tc_loop c)) @ [F_connectDestroyed p]" "w_tid w' = w_tid w"
proof -
  let ?sv = "sv\<lparr>ts_connections := (ts_connections sv)(n := None)\<rparr>"
  let ?w' = "queueInLoop os (tc_loop c) (F_connectDestroyed p) (put_server s ?sv w)"
  have name: "conn_name ?sv i = conn_name sv i" for i by (simp add: conn_name_def)
  from assms(2,3) have facts: "pool_inv (ts_pool sv)" "tp_started (ts_pool sv)" "1 \<le> sint (ts_nextConnId sv)"
    and old: "\<And>n q. ts_connections sv n = Some q \<Longrightarrow> \<exists>c i. cw_conns w q = Some c \<and> tc_name c = n \<and>
        tc_closeCb c = Some (cb_removeConnection s) \<and> 1 \<le> sint i \<and> sint i < sint (ts_nextConnId sv) \<and> n = conn_name sv i"
    unfolding server_inv_def by auto
  have n: "tc_name c = n" using old [OF assms(4)] assms(5) by auto
  have "\<exists>c i. cw_conns ?w' q = Some c \<and> tc_name c = m \<and> tc_closeCb c = Some (cb_removeConnection s) \<and>
      1 \<le> sint i \<and> sint i < sint (ts_nextConnId ?sv) \<and> m = conn_name ?sv i" if "ts_connections ?sv m = Some q" for m q
    using that old [of m q] by (auto simp: name split: if_splits)
  then have "server_inv s ?w'"
    using facts unfolding server_inv_def by (intro exI [of _ ?sv]) simp
  then show thesis
    using assms n by (intro that [of ?w']) (simp_all add: removeConnectionInLoop_def Let_def)
qed

lemma cb_removeConnection_code: "cb_removeConnection s mod 4 = 2" "cb_removeConnection s div 4 = s"
  unfolding cb_removeConnection_def by presburger+

text \<open>\<open>handleClose\<close> up to the close callback.\<close>

lemma handleClose_reaches_server:
  assumes os: "epoll_ctl_contract os" and user: "polite user" "keeps_servers user" and inv: "conns_inv w"
    and sinv: "server_inv s w" and sv: "sw_servers w s = Some sv" "ts_connections sv n = Some p"
    and p: "cw_conns w p = Some c" "up c" "tc_connectionCb c = Some cb" "user_cb cb"
  shows "handleClose_conn (server_env user os) os p w = Inl LengthError \<or>
    (\<exists>v cv. handleClose_conn (server_env user os) os p w = removeConnection os s p v \<and> conns_inv v \<and> server_inv s v \<and>
       evolves forward w v \<and> sw_servers v = sw_servers w \<and> cw_conns v p = Some cv \<and> tc_loop cv = tc_loop c \<and>
       tc_state cv = kDisconnected)"
proof -
  let ?env = "server_env user os" and ?c = "c\<lparr>tc_state := kDisconnected\<rparr>"
  from sinv sv p(1) have close: "tc_closeCb c = Some (cb_removeConnection s)" unfolding server_inv_def by fastforce
  from os inv p(1) obtain u where u: "disableAll os (tc_channel c) (put_conn p ?c w) = Inr u" "conns_inv u"
    "evolves forward w u" "cw_conns u p = Some ?c" "cworld.more u = cworld.more w" by (rule disableAll_closed)
  have "cw_conns u p \<noteq> None" by (simp add: u(4))
  note cbs = user_cb_safe [where os = os, OF user p(4) u(2) this]
  have hc: "handleClose_conn ?env os p w =
      bindR (?env cb p u) (\<lambda>v. bindR (get_conn p v) (\<lambda>c3. call_cb ?env (tc_closeCb c3) p v))"
    using u(1) p(3) by (simp add: handleClose_steps [OF p(1,2)] call_cb_def)
  from cbs(1) consider "?env cb p u = Inl LengthError" | (ok) v where "?env cb p u = Inr v" "conns_inv v" "evolves forward u v"
    by (auto simp: safe_def)
  then show ?thesis
  proof cases
    case ok
    from ok(3) u(4) obtain cv where cv: "cw_conns v p = Some cv" "conn_frame cv = conn_frame ?c" "forward kDisconnected (tc_state cv)"
      by (rule evolves_conn) simp
    have st: "tc_state cv = kDisconnected" using cv(3) by (cases "tc_state cv") (simp_all add: forward_def)
    have same: "sw_servers v = sw_servers w" using cbs(2) [OF ok(1)] sw_servers_more [OF u(5)] by simp
    have ev: "evolves forward w v" using evolves_trans [OF order_forward(1) u(3) ok(3)] .
    have "tc_closeCb cv = Some (cb_removeConnection s)" using cv(2) close by (simp add: conn_frame_def)
    then have "handleClose_conn ?env os p w = removeConnection os s p v"
      using hc ok(1) cv(1) cb_removeConnection_code [of s] by (simp add: call_cb_def server_env_def)
    with ok(2) ev same cv st server_inv_evolves [OF sinv ev same] show ?thesis
      by (intro disjI2 exI [of _ v] exI [of _ cv]) (simp add: conn_frame_def)
  qed (simp add: hc)
qed

text \<open>\<open>removeConnection\<close>, in the thread of the server's loop and in another one.\<close>

lemma removeConnection_ok:
  assumes v: "conns_inv v" "server_inv s v" "sw_servers v s = Some sv" "ts_connections sv n = Some p" "cw_conns v p = Some c"
  shows "\<exists>w' sv'. removeConnection os s p v = Inr w' \<and> conns_inv w' \<and> server_inv s w' \<and> sw_servers w' s = Some sv' \<and> cw_conns w' = cw_conns v \<and>
    (if isInLoopThread (ts_loop sv) v
     then ts_connections sv' = (ts_connections sv)(n := None) \<and> last (el_pending (w_loops w' (tc_loop c))) = F_connectDestroyed p
     else sv' = sv \<and> last (el_pending (w_loops w' (ts_loop sv))) = F_removeConnectionInLoop s p)"
proof (cases "isInLoopThread (ts_loop sv) v")
  case True
  from v obtain w' where "removeConnectionInLoop os s p v = Inr w'" "conns_inv w'" "server_inv s w'"
    "cw_conns w' = cw_conns v" "\<exists>sv'. sw_servers w' s = Some sv' \<and> ts_connections sv' = (ts_connections sv)(n := None)"
    "el_pending (w_loops w' (tc_loop c)) = el_pending (w_loops v (tc_loop c)) @ [F_connectDestroyed p]"
    by (rule removeConnectionInLoop_ok)
  with v(3) True show ?thesis by (auto simp: removeConnection_def runInLoop_def)
next
  case False
  let ?w' = "queueInLoop os (ts_loop sv) (F_removeConnectionInLoop s p) v"
  have "server_inv s ?w'" by (rule server_inv_evolves [OF v(2), where R = forward]) simp_all
  with v False show ?thesis by (auto simp: removeConnection_def runInLoop_def)
qed

text \<open>
  C33: closing. When a connection of the map closes (the peer hangs up, or \<open>forceClose\<close>), \<open>handleClose\<close>
  fails no assertion. In the thread of the server's loop the connection leaves the map and its
  destruction is queued, last, in its own loop; in another thread the removal is queued, last, in the
  server's loop, and when it runs there it does the same. The rest of the map and all invariants stay
  intact.
\<close>

theorem server_removes:
  assumes "epoll_ctl_contract os" "polite user" "keeps_servers user" "conns_inv w" "server_inv s w"
    and "sw_servers w s = Some sv" "ts_connections sv n = Some p" "cw_conns w p = Some c" "tc_connectionCb c = Some cb"
    and "user_cb cb" "up c" "r = handleClose_conn (server_env user os) os p w"
  shows "(r = Inl LengthError \<or> (\<exists>w' sv' c'. r = Inr w' \<and> conns_inv w' \<and> server_inv s w' \<and> sw_servers w' s = Some sv' \<and>
      cw_conns w' p = Some c' \<and> tc_state c' = kDisconnected \<and>
      (if isInLoopThread (ts_loop sv) w
       then ts_connections sv' = (ts_connections sv)(n := None) \<and> last (el_pending (w_loops w' (tc_loop c))) = F_connectDestroyed p
       else sv' = sv \<and> last (el_pending (w_loops w' (ts_loop sv))) = F_removeConnectionInLoop s p))) \<and>
    (\<exists>w' sv'. removeConnectionInLoop os s p w = Inr w' \<and> conns_inv w' \<and> server_inv s w' \<and> sw_servers w' s = Some sv' \<and>
      ts_connections sv' = (ts_connections sv)(n := None) \<and> last (el_pending (w_loops w' (tc_loop c))) = F_connectDestroyed p)"
proof
  from assms(4-8) obtain w' where "removeConnectionInLoop os s p w = Inr w'" "conns_inv w'" "server_inv s w'"
    "\<exists>sv'. sw_servers w' s = Some sv' \<and> ts_connections sv' = (ts_connections sv)(n := None)"
    "el_pending (w_loops w' (tc_loop c)) = el_pending (w_loops w (tc_loop c)) @ [F_connectDestroyed p]"
    by (rule removeConnectionInLoop_ok)
  then show "\<exists>w' sv'. removeConnectionInLoop os s p w = Inr w' \<and> conns_inv w' \<and> server_inv s w' \<and> sw_servers w' s = Some sv' \<and>
      ts_connections sv' = (ts_connections sv)(n := None) \<and> last (el_pending (w_loops w' (tc_loop c))) = F_connectDestroyed p"
    by auto
next
  from handleClose_reaches_server [OF assms(1-8,11,9,10)] consider "r = Inl LengthError"
    | (ok) v cv where "r = removeConnection os s p v" "conns_inv v" "server_inv s v" "evolves forward w v" "sw_servers v = sw_servers w"
        "cw_conns v p = Some cv" "tc_loop cv = tc_loop c" "tc_state cv = kDisconnected"
    unfolding assms(12) by blast
  then show "r = Inl LengthError \<or> (\<exists>w' sv' c'. r = Inr w' \<and> conns_inv w' \<and> server_inv s w' \<and> sw_servers w' s = Some sv' \<and>
      cw_conns w' p = Some c' \<and> tc_state c' = kDisconnected \<and>
      (if isInLoopThread (ts_loop sv) w
       then ts_connections sv' = (ts_connections sv)(n := None) \<and> last (el_pending (w_loops w' (tc_loop c))) = F_connectDestroyed p
       else sv' = sv \<and> last (el_pending (w_loops w' (ts_loop sv))) = F_removeConnectionInLoop s p))"
  proof cases
    case ok
    have "loop_frame (w_loops v (ts_loop sv)) = loop_frame (w_loops w (ts_loop sv))" "w_tid v = w_tid w"
      using ok(4) by (simp_all add: evolves_def)
    then have loop: "isInLoopThread (ts_loop sv) v = isInLoopThread (ts_loop sv) w"
      by (simp add: isInLoopThread_def loop_frame_def)
    have svv: "sw_servers v s = Some sv" using ok(5) assms(6) by simp
    from removeConnection_ok [OF ok(2,3) svv assms(7) ok(6), of os, unfolded loop ok(7)] obtain w' sv' where
      "removeConnection os s p v = Inr w'" "conns_inv w'" "server_inv s w'" "sw_servers w' s = Some sv'" "cw_conns w' = cw_conns v"
      "if isInLoopThread (ts_loop sv) w
       then ts_connections sv' = (ts_connections sv)(n := None) \<and> last (el_pending (w_loops w' (tc_loop c))) = F_connectDestroyed p
       else sv' = sv \<and> last (el_pending (w_loops w' (ts_loop sv))) = F_removeConnectionInLoop s p" by blast
    with ok(1,6,8) show ?thesis by (intro disjI2 exI [of _ w'] exI [of _ sv'] exI [of _ cv]) (simp split del: if_split)
  qed simp
qed

section \<open>The destructor\<close>

text \<open>
  The destructor of a server with a connection that is shutting down (\<open>shutdown\<close> was called, the
  peer has not closed yet) fails an assertion: it runs \<open>connectDestroyed\<close> on the connection, which
  clears the events of a connected connection only, and \<open>Channel::remove\<close> insists on there being none.
\<close>

theorem server_destructor_aborts:
  assumes "sw_servers w s = Some sv" "ts_connections sv = [n \<mapsto> p]" "cw_conns w p = Some c" "tc_state c = kDisconnecting"
    and "w_chans w (tc_channel c) = Some ch" "ch_events ch \<noteq> 0" "isInLoopThread (tc_loop c) w"
  shows "delete_TcpServer env os s w = Inl AssertFailure"
proof -
  let ?w = "put_server s (sv\<lparr>ts_started := False\<rparr>) w"
  have "connectDestroyed env os p ?w = Inl AssertFailure"
    using assms(3-6) remove_channel_with_events [where os = os and w = ?w and k = "tc_channel c" and ch = ch]
    by (simp add: connectDestroyed_def)
  moreover have "isInLoopThread (tc_loop c) ?w" using assms(7) by (simp add: isInLoopThread_def)
  ultimately show ?thesis
    using assms(1-3) by (simp add: delete_TcpServer_def runInLoop_def)
qed

section \<open>A server to evaluate on\<close>

definition model_server :: tcp_server where
  "model_server = \<lparr>ts_loop = 0, ts_ipPort = ''127.0.0.1:80'', ts_name = ''srv'', ts_acceptor = 21,
     ts_pool = (mk_EventLoopThreadPool 0 ''srv'')\<lparr>tp_started := True\<rparr>, ts_connectionCb = Some 0, ts_messageCb = Some 4,
     ts_writeCompleteCb = None, ts_started = False, ts_nextConnId = 2, ts_connections = [''srv-127.0.0.1:80#1'' \<mapsto> 3]\<rparr>"

definition server_conn :: "StateE \<Rightarrow> tcp_connection" where
  "server_conn st = model_conn\<lparr>tc_name := ''srv-127.0.0.1:80#1'', tc_state := st, tc_closeCb := Some (cb_removeConnection 20)\<rparr>"

definition model_sworld :: "StateE \<Rightarrow> sworld" where
  "model_sworld st = \<lparr>w_tid = 1, w_chans = [7 \<mapsto> model_conn_channel], w_loops = w_loops model_world,
     w_trace = w_trace model_world, cw_conns = [3 \<mapsto> server_conn st], sw_acceptors = Map.empty,
     sw_servers = [20 \<mapsto> model_server]\<rparr>"

lemma decimal_small: "n < 10 \<Longrightarrow> decimal n = [char_of (48 + n)]"
  by (simp add: decimal.simps)

lemma model_server_name: "conn_name model_server 1 = ''srv-127.0.0.1:80#1''" "name_fits model_server 2"
  by (simp_all add: conn_name_def model_server_def signed_decimal_def decimal_small snprintf_def name_fits_def char_of_def bit_iff_odd)

lemma model_sworld_inv: "st = kConnected \<or> st = kDisconnecting \<Longrightarrow> conns_inv (model_sworld st)" "server_inv 20 (model_sworld st)"
proof -
  have r: "registry_inv l (model_sworld st)" for l
    by (rule registry_inv_intro)
      (auto simp: model_sworld_def model_conn_defs model_defs mk_Poller_def interest_def index_defs split: if_splits)
  then have "reactor_inv (model_sworld st)"
    by (auto simp: reactor_inv_def fds_unique_def model_sworld_def split: if_splits)
  moreover have "conn_ok 3 (server_conn st) (model_sworld st)" if "st = kConnected \<or> st = kDisconnecting"
    using that by (auto simp: model_sworld_def server_conn_def conn_ok_def model_conn_defs model_channel_def linked_def state_ok_def
        isWriting_bit plain_events_def ReadEvent_def WriteEvent_def poll_defs index_defs bit_1_iff)
  ultimately show "conns_inv (model_sworld st)" if "st = kConnected \<or> st = kDisconnecting"
    using that by (auto simp: conns_inv_def model_sworld_def split: if_splits)
  have "pool_inv (ts_pool model_server)" "tp_started (ts_pool model_server)"
    by (simp_all add: model_server_def pool_inv_def mk_EventLoopThreadPool_def)
  then show "server_inv 20 (model_sworld st)"
    using model_server_name(1) unfolding server_inv_def
    by (intro exI [of _ model_server]) (auto simp: model_sworld_def server_conn_def model_server_def split: if_splits intro!: exI [of _ "1 :: 32 word"])
qed

definition silent :: "unit sworld_ext env" where
  "silent k p w = Inr w"

lemma silent_ok: "polite silent" "keeps_servers silent"
  by (simp_all add: polite_def silent_def safe_def keeps_servers_def)

definition model_net_os :: net_os where
  "model_net_os = os.extend model_os (net_os.fields (\<lambda>tr. 30) (\<lambda>tr fd. 0) (\<lambda>tr fd. 0) (\<lambda>tr fd. Inl 11) (\<lambda>tr fd. 0) (\<lambda>tr. 31)
     (\<lambda>tr fd. Some zero6) (\<lambda>tr fd. Some zero6))"

lemma model_net_os_ctl: "epoll_ctl_contract model_net_os"
  by (simp add: epoll_ctl_contract_def model_net_os_def model_os_def os.defs net_os.defs)

theorem server_accepts_witness:
  "let r = newConnection model_net_os model_lib (\<lambda>_. (6, 9)) (server_env silent model_net_os) 20 8
      (mk_InetAddress_port zero6 99 True False) (model_sworld kConnected); name = conn_name model_server 2 in
   ts_connections model_server name = None \<and> (r = Inl LengthError \<and> isInLoopThread 0 (model_sworld kConnected) \<or>
     (\<exists>w' sv' c. r = Inr w' \<and> sw_servers w' 20 = Some sv' \<and>
       ts_connections sv' = (ts_connections model_server)(name \<mapsto> 6) \<and> cw_conns w' 6 = Some c \<and> tc_loop c = 0))"
proof -
  let ?w = "model_sworld kConnected"
  have inv: "conns_inv ?w" "server_inv 20 ?w" using model_sworld_inv by simp_all
  have facts: "sw_servers ?w 20 = Some model_server" "ts_connectionCb model_server = Some 0" "user_cb 0"
    "cw_conns ?w 6 = None" "w_chans ?w 9 = None" "ts_nextConnId model_server = 2"
    "pool_loops (ts_pool model_server) = [0]" "nat (tp_next (ts_pool model_server)) = 0"
    by (simp_all add: model_sworld_def model_server_def user_cb_def pool_loops_def mk_EventLoopThreadPool_def)
  have "fd_free 0 8 ?w"
    by (auto simp: fd_free_def model_sworld_def model_conn_defs model_defs mk_Poller_def split: if_splits)
  then have "\<forall>l \<in> set (pool_loops (ts_pool model_server)). fd_free l 8 ?w" by (simp add: facts)
  moreover have "inet_ok model_lib (mk_InetAddress_port zero6 99 True False)" by (rule model_lib_ok)
  ultimately show ?thesis
    using server_accepts [OF model_net_os_ctl silent_ok inv facts(1-3) _ facts(4,5), where
        alloc = "\<lambda>_. (6, 9)" and lib = model_lib and peerAddr = "mk_InetAddress_port zero6 99 True False" and sockfd = 8]
      model_server_name(2)
    by (simp add: facts Let_def) blast
qed

theorem server_removes_witness:
  "\<exists>w' sv'. removeConnectionInLoop model_net_os 20 3 (model_sworld kConnected) = Inr w' \<and> sw_servers w' 20 = Some sv' \<and>
     ts_connections sv' = Map.empty \<and> last (el_pending (w_loops w' 0)) = F_connectDestroyed 3"
proof -
  let ?w = "model_sworld kConnected"
  have inv: "conns_inv ?w" "server_inv 20 ?w" using model_sworld_inv by simp_all
  have facts: "sw_servers ?w 20 = Some model_server" "ts_connections model_server ''srv-127.0.0.1:80#1'' = Some 3"
    "cw_conns ?w 3 = Some (server_conn kConnected)" "tc_connectionCb (server_conn kConnected) = Some 0" "user_cb 0" "up (server_conn kConnected)"
    "tc_loop (server_conn kConnected) = 0"
    by (simp_all add: model_sworld_def model_server_def user_cb_def server_conn_def model_conn_defs up_def)
  have "(ts_connections model_server)(''srv-127.0.0.1:80#1'' := None) = Map.empty" by (simp add: model_server_def)
  then show ?thesis
    using server_removes [OF model_net_os_ctl silent_ok inv facts(1-6) refl] facts(7) by auto
qed

theorem server_destructor_aborts_witness:
  "delete_TcpServer (server_env silent model_net_os) model_net_os 20 (model_sworld kDisconnecting) = Inl AssertFailure"
  by (rule server_destructor_aborts [where sv = model_server and n = "''srv-127.0.0.1:80#1''" and p = 3 and
        c = "server_conn kDisconnecting" and ch = model_conn_channel])
    (simp_all add: model_sworld_def model_server_def server_conn_def model_conn_defs model_defs isInLoopThread_def)

end
