(* ===== verification/Serving.thy ===== *)
theory Serving
  imports Server
begin

text \<open>
  What the callbacks of an application may do to a server that runs in one thread, and what the
  operations of a connection do besides keeping its own invariant: which functors they queue, which
  events of which channels they change, and which descriptors they open or close.
\<close>

section \<open>Quiet changes\<close>

text \<open>A channel without events stays as it is, a channel that is read stays one that is read.\<close>

definition chan_calm :: "channel \<Rightarrow> channel \<Rightarrow> bool" where
  "chan_calm ch ch' \<longleftrightarrow> ch_handling ch' = ch_handling ch \<and> (isReading ch \<longrightarrow> isReading ch') \<and>
     (ch_events ch = 0 \<longrightarrow> ch_events ch' = 0 \<and> ch_index ch' = ch_index ch \<and> ch_added ch' = ch_added ch)"

text \<open>A message callback is not one of the server's own.\<close>

definition msg_ok :: "tcp_connection \<Rightarrow> bool" where
  "msg_ok c \<longleftrightarrow> (\<forall>k. tc_messageCb c = Some k \<longrightarrow> k mod 4 \<noteq> 2)"

definition conn_calm :: "tcp_connection \<Rightarrow> tcp_connection \<Rightarrow> bool" where
  "conn_calm c c' \<longleftrightarrow> tc_writeCompleteCb c' = tc_writeCompleteCb c \<and> (msg_ok c \<longrightarrow> msg_ok c')"

text \<open>The functors that are queued in the thread of the loop; both hold a reference to the connection.\<close>

definition calm_functor :: "'a cworld_scheme \<Rightarrow> Functor \<Rightarrow> bool" where
  "calm_functor w f \<longleftrightarrow> (\<exists>p c. cw_conns w p = Some c \<and>
     (f = F_forceCloseInLoop p \<or> (\<exists>k. tc_writeCompleteCb c = Some k \<and> f = F_writeComplete k p)))"

definition quiet :: "ptr \<Rightarrow> 'a sworld_scheme \<Rightarrow> 'a sworld_scheme \<Rightarrow> bool" where
  "quiet l w w' \<longleftrightarrow> sw_servers w' = sw_servers w \<and> sw_acceptors w' = sw_acceptors w \<and>
     open_fds (w_trace w') = open_fds (w_trace w) \<and> closes_open (w_trace w') = closes_open (w_trace w) \<and>
     (\<forall>k. rel_option chan_calm (w_chans w k) (w_chans w' k)) \<and>
     (\<forall>p. rel_option conn_calm (cw_conns w p) (cw_conns w' p)) \<and>
     (\<exists>fs. el_pending (w_loops w' l) = el_pending (w_loops w l) @ fs \<and> list_all (calm_functor w') fs)"

lemma chan_calm_refl [simp]: "chan_calm ch ch"
  by (simp add: chan_calm_def)

lemma conn_calm_refl [simp]: "conn_calm c c"
  by (simp add: conn_calm_def)

lemma chan_calm_trans: "chan_calm a b \<Longrightarrow> chan_calm b c \<Longrightarrow> chan_calm a c"
  by (auto simp: chan_calm_def)

lemma conn_calm_trans: "conn_calm a b \<Longrightarrow> conn_calm b c \<Longrightarrow> conn_calm a c"
  by (auto simp: conn_calm_def)

lemma calm_functor_mono:
  assumes "calm_functor w f" "\<And>p. rel_option conn_calm (cw_conns w p) (cw_conns w' p)"
  shows "calm_functor w' f"
proof -
  from assms(1) obtain p c where c: "cw_conns w p = Some c"
    "f = F_forceCloseInLoop p \<or> (\<exists>k. tc_writeCompleteCb c = Some k \<and> f = F_writeComplete k p)"
    unfolding calm_functor_def by blast
  from assms(2) [of p] c(1) obtain c' where "cw_conns w' p = Some c'" "conn_calm c c'"
    by (auto simp: option_rel_Some1)
  with c(2) show ?thesis unfolding calm_functor_def conn_calm_def by metis
qed

lemma rel_option_trans:
  assumes "rel_option R a b" "rel_option R b c" "\<And>x y z. R x y \<Longrightarrow> R y z \<Longrightarrow> R x z"
  shows "rel_option R a c"
  using assms(1,2) by (cases a; cases b; cases c) (simp_all, blast intro: assms(3))

lemma quiet_refl [simp]: "quiet l w w"
  by (simp add: quiet_def option.rel_refl)

lemma quietD:
  assumes "quiet l w w'"
  shows "sw_servers w' = sw_servers w" "sw_acceptors w' = sw_acceptors w" "open_fds (w_trace w') = open_fds (w_trace w)"
    "rel_option chan_calm (w_chans w k) (w_chans w' k)" "rel_option conn_calm (cw_conns w p) (cw_conns w' p)"
    "\<exists>fs. el_pending (w_loops w' l) = el_pending (w_loops w l) @ fs \<and> list_all (calm_functor w') fs"
    "closes_open (w_trace w') = closes_open (w_trace w)"
  using assms by (simp_all add: quiet_def)

lemma quiet_trans:
  assumes "quiet l u v" "quiet l v w"
  shows "quiet l u w"
proof -
  from quietD(6) [OF assms(1)] quietD(6) [OF assms(2)] obtain fs gs where
    fs: "el_pending (w_loops v l) = el_pending (w_loops u l) @ fs" "list_all (calm_functor v) fs" and
    gs: "el_pending (w_loops w l) = el_pending (w_loops v l) @ gs" "list_all (calm_functor w) gs"
    by blast
  have "list_all (calm_functor w) fs"
    using fs(2) calm_functor_mono [OF _ quietD(5) [OF assms(2)]] by (auto simp: list_all_iff)
  with fs(1) gs have "\<exists>hs. el_pending (w_loops w l) = el_pending (w_loops u l) @ hs \<and> list_all (calm_functor w) hs"
    by (intro exI [of _ "fs @ gs"]) simp
  moreover have "rel_option chan_calm (w_chans u k) (w_chans w k)" for k
    using rel_option_trans [OF quietD(4) [OF assms(1)] quietD(4) [OF assms(2)]] chan_calm_trans by blast
  moreover have "rel_option conn_calm (cw_conns u p) (cw_conns w p)" for p
    using rel_option_trans [OF quietD(5) [OF assms(1)] quietD(5) [OF assms(2)]] conn_calm_trans by blast
  ultimately show ?thesis
    using quietD(1-3,7) [OF assms(1)] quietD(1-3,7) [OF assms(2)] by (simp add: quiet_def)
qed

lemma sworld_frame [simp]:
  "sw_servers (log_call s w) = sw_servers w" "sw_acceptors (log_call s w) = sw_acceptors w"
  "sw_acceptors (put_conn p c w) = sw_acceptors w" "sw_acceptors (put_chan k ch w) = sw_acceptors w"
  "sw_acceptors (queueInLoop os l fn w) = sw_acceptors w" "sw_acceptors (put_server sp sv w) = sw_acceptors w"
  "sw_servers (upd_loop l f w) = sw_servers w" "sw_acceptors (upd_loop l f w) = sw_acceptors w"
  by (simp_all add: put_conn_def put_chan_def queueInLoop_def wakeup_def log_call_def upd_loop_def put_server_def Let_def)

lemma fd_effect_neutral [simp]:
  "fd_effect (SysWrite fd d n) = id" "fd_effect (SysShutdownWr fd) = id" "fd_effect (SysGetSoError fd e) = id"
  "fd_effect (SysReadv fd v r) = id" "fd_effect (SysRead fd m q) = id" "fd_effect (SysEpollWait l mx q') = id"
  "fd_effect (SysEpollCtl l x fd ev c e) = id"
  by (rule ext, simp)+

lemma open_fds_appends [simp]:
  "open_fds (tr @ [a, b]) = fd_effect b (fd_effect a (open_fds tr))"
  "open_fds (tr @ [a, b, c]) = fd_effect c (fd_effect b (fd_effect a (open_fds tr)))"
  by (simp_all add: open_fds_def)

lemma closes_open_appends [simp]:
  "closes_open (tr @ [a, b]) \<longleftrightarrow> closes_open tr \<and> (\<forall>fd. a = SysClose fd \<longrightarrow> fd < 0 \<or> fd \<in> open_fds tr) \<and>
     (\<forall>fd. b = SysClose fd \<longrightarrow> fd < 0 \<or> fd \<in> fd_effect a (open_fds tr))"
  "closes_open (tr @ [a, b, c]) \<longleftrightarrow> closes_open (tr @ [a, b]) \<and>
     (\<forall>fd. c = SysClose fd \<longrightarrow> fd < 0 \<or> fd \<in> open_fds (tr @ [a, b]))"
  "closes_open (tr @ [a, b, c, d]) \<longleftrightarrow> closes_open (tr @ [a, b, c]) \<and>
     (\<forall>fd. d = SysClose fd \<longrightarrow> fd < 0 \<or> fd \<in> open_fds (tr @ [a, b, c]))"
  using closes_open_append [of "tr @ [a]" b] closes_open_append [of "tr @ [a, b]" c] closes_open_append [of "tr @ [a, b, c]" d]
  by (simp_all add: conj_assoc)

lemma neutral_not_close:
  assumes "fd_effect s = id"
  shows "s \<noteq> SysClose fd"
proof
  assume "s = SysClose fd"
  then have "fd_effect s {fd} = {}" by simp
  with assms show False by simp
qed

text \<open>The updates operations are made of.\<close>

lemma quiet_log: "fd_effect s = id \<Longrightarrow> quiet l w (log_call s w)"
  by (simp add: quiet_def option.rel_refl neutral_not_close)

lemma quiet_queue: "calm_functor w f \<Longrightarrow> quiet l w (queueInLoop os l' f w)"
  by (auto simp: quiet_def option.rel_refl calm_functor_def)

lemma quiet_put_conn: "cw_conns w p = Some c \<Longrightarrow> conn_calm c c' \<Longrightarrow> quiet l w (put_conn p c' w)"
  by (auto simp: quiet_def option.rel_refl)

lemma quiet_writeComplete:
  "cw_conns w p = Some d \<Longrightarrow> tc_writeCompleteCb d = tc_writeCompleteCb c \<Longrightarrow> quiet l w (queue_writeComplete os p c w)"
  by (auto simp: queue_writeComplete_def calm_functor_def intro: quiet_queue split: option.splits)

text \<open>What a change of the events of a channel leaves alone, whatever the kernel answers.\<close>

lemma update_poller_effect:
  assumes "update_poller os l x k w = Inr w'" "w_chans w k = Some ch"
  shows "\<exists>r. w' = log_call (SysEpollCtl l x (ch_fd ch) (ch_events ch) k r) w"
  using assms by (auto simp: update_poller_def Let_def split: if_splits)

lemma put_chan_log: "put_chan k ch (log_call s w) = log_call s (put_chan k ch w)"
  by (rule world.equality) simp_all

lemma updateChannel_poller_effect:
  assumes up: "updateChannel_poller os l k w = Inr w'" and ch: "w_chans w k = Some ch"
  shows "\<exists>i m s. w' = log_call s (put_chan k (ch\<lparr>ch_index := i\<rparr>) (upd_poller l (\<lambda>p. p\<lparr>pl_channels := m\<rparr>) w)) \<and> fd_effect s = id"
proof -
  let ?m = "pl_channels (el_poller (w_loops w l))"
  have triv: "upd_poller l (\<lambda>p. p\<lparr>pl_channels := ?m\<rparr>) w = w" by (simp add: upd_poller_def upd_loop_def)
  have found: ?thesis if "\<exists>r. w' = log_call (SysEpollCtl l x fd e k r) (put_chan k (ch\<lparr>ch_index := i\<rparr>) w)" for x fd e i
  proof -
    from that obtain r where "w' = log_call (SysEpollCtl l x fd e k r) (put_chan k (ch\<lparr>ch_index := i\<rparr>) w)" ..
    with triv show ?thesis by (intro exI [of _ i] exI [of _ ?m] exI [of _ "SysEpollCtl l x fd e k r"]) simp
  qed
  have same: "put_chan k (ch\<lparr>ch_index := ch_index ch\<rparr>) w = w" using ch by (simp add: put_chan_def map_upd_triv)
  consider (new) "ch_index ch = kNew" | (deleted) "ch_index ch = kDeleted" | (none) "isNoneEvent ch" "ch_index ch = kAdded"
    | (some) "\<not> isNoneEvent ch" "ch_index ch = kAdded"
    using up ch by (auto simp: updateChannel_poller_def Let_def index_defs assertR_eq_Inr split: if_splits)
  then show ?thesis
  proof cases
    case new
    let ?w = "put_chan k (ch\<lparr>ch_index := kAdded\<rparr>) (upd_poller l (\<lambda>p. p\<lparr>pl_channels := ?m(ch_fd ch \<mapsto> k)\<rparr>) w)"
    have "update_poller os l EPOLL_CTL_ADD k ?w = Inr w'"
      using up ch new by (auto simp: updateChannel_poller_def set_index_def upd_poller_def upd_loop_def put_chan_def Let_def res_simps)
    from update_poller_effect [OF this, of "ch\<lparr>ch_index := kAdded\<rparr>"] show ?thesis
      by (auto intro!: exI [of _ kAdded] exI [of _ "?m(ch_fd ch \<mapsto> k)"])
  next
    case deleted
    let ?w = "put_chan k (ch\<lparr>ch_index := kAdded\<rparr>) w"
    have "update_poller os l EPOLL_CTL_ADD k ?w = Inr w'"
      using up ch deleted by (auto simp: updateChannel_poller_def set_index_def index_defs Let_def res_simps)
    from update_poller_effect [OF this, of "ch\<lparr>ch_index := kAdded\<rparr>"] show ?thesis by (intro found) simp
  next
    case none
    from up ch none obtain w1 where w1: "update_poller os l EPOLL_CTL_DEL k w = Inr w1" "set_index k kDeleted w1 = Inr w'"
      by (auto simp: updateChannel_poller_def index_defs Let_def res_simps)
    from update_poller_effect [OF w1(1) ch] w1(2) ch
    have "\<exists>r. w' = log_call (SysEpollCtl l EPOLL_CTL_DEL (ch_fd ch) (ch_events ch) k r) (put_chan k (ch\<lparr>ch_index := kDeleted\<rparr>) w)"
      by (auto simp: set_index_def put_chan_log)
    then show ?thesis by (rule found)
  next
    case some
    have "update_poller os l EPOLL_CTL_MOD k w = Inr w'"
      using up ch some by (auto simp: updateChannel_poller_def index_defs Let_def res_simps)
    from update_poller_effect [OF this ch] same show ?thesis by (intro found [where i = "ch_index ch"]) simp
  qed
qed

lemma set_events_effect:
  assumes "set_events os f k w = Inr w'" "w_chans w k = Some ch"
  obtains ch' where "w_chans w' = (w_chans w)(k \<mapsto> ch')" "ch_events ch' = f (ch_events ch)" "ch_handling ch' = ch_handling ch"
    "world.more w' = world.more w" "\<And>l. el_pending (w_loops w' l) = el_pending (w_loops w l)"
    "open_fds (w_trace w') = open_fds (w_trace w)" "chan_frame ch' = chan_frame ch" "w_tid w' = w_tid w"
    "\<And>l. el_threadId (w_loops w' l) = el_threadId (w_loops w l)" "closes_open (w_trace w') = closes_open (w_trace w)"
proof -
  let ?ch = "ch\<lparr>ch_events := f (ch_events ch), ch_added := True\<rparr>"
  from assms have up: "updateChannel_poller os (ch_loop ch) k (put_chan k ?ch w) = Inr w'"
    by (auto simp: set_events_def update_channel_def updateChannel_loop_def put_chan_def)
  have "w_chans (put_chan k ?ch w) k = Some ?ch" by simp
  from updateChannel_poller_effect [OF up this] obtain i m s where w': "w' = log_call s (put_chan k (?ch\<lparr>ch_index := i\<rparr>)
      (upd_poller (ch_loop ch) (\<lambda>p. p\<lparr>pl_channels := m\<rparr>) (put_chan k ?ch w)))" and s: "fd_effect s = id" by blast
  show thesis by (rule that [of "?ch\<lparr>ch_index := i\<rparr>"]) (simp_all add: w' s chan_frame_def neutral_not_close)
qed

section \<open>Outcomes\<close>

definition quiet_res :: "ptr \<Rightarrow> 'a sworld_scheme \<Rightarrow> 'a sworld_scheme res \<Rightarrow> bool" where
  "quiet_res l w r \<longleftrightarrow> (\<forall>w'. r = Inr w' \<longrightarrow> quiet l w w')"

definition calms :: "ptr \<Rightarrow> 'a sworld_scheme \<Rightarrow> 'a sworld_scheme res \<Rightarrow> bool" where
  "calms l w r \<longleftrightarrow> safe user_forward w r \<and> quiet_res l w r"

lemma quiet_res_Inr [simp]: "quiet_res l w (Inr w') \<longleftrightarrow> quiet l w w'" "quiet_res l w (Inl e)"
  by (simp_all add: quiet_res_def)

lemma quiet_res_bind: "(\<And>x. m = Inr x \<Longrightarrow> quiet_res l w (f x)) \<Longrightarrow> quiet_res l w (bindR m f)"
  by (cases m) simp_all

lemma quiet_res_then:
  assumes "quiet_res l w m" "\<And>u. m = Inr u \<Longrightarrow> quiet l w u \<Longrightarrow> quiet_res l u (f u)"
  shows "quiet_res l w (bindR m f)"
proof (cases m)
  case (Inr u)
  with assms have u: "quiet l w u" and f: "quiet_res l u (f u)" by auto
  from f quiet_trans [OF u] Inr show ?thesis by (auto simp: quiet_res_def)
qed simp

lemma quiet_res_after: "quiet l w u \<Longrightarrow> quiet_res l u r \<Longrightarrow> quiet_res l w r"
  by (auto simp: quiet_res_def intro: quiet_trans)

lemma calms_cases:
  assumes "calms l w r"
  obtains "r = Inl LengthError" | w' where "r = Inr w'" "conns_inv w'" "evolves user_forward w w'" "quiet l w w'"
  using assms by (auto simp: calms_def safe_def quiet_res_def)

lemma calms_refl: "conns_inv w \<Longrightarrow> calms l w (Inr w)"
  by (simp add: calms_def safe_def)

lemma calms_after: "evolves user_forward w u \<Longrightarrow> quiet l w u \<Longrightarrow> calms l u r \<Longrightarrow> calms l w r"
  by (auto simp: calms_def intro: safe_after quiet_res_after)

lemma calms_bind:
  assumes "calms l w m" "\<And>u. conns_inv u \<Longrightarrow> evolves user_forward w u \<Longrightarrow> quiet l w u \<Longrightarrow> calms l u (f u)"
  shows "calms l w (bindR m f)"
  using assms(1)
proof (cases rule: calms_cases)
  case (2 u)
  from calms_after [OF 2(3,4) assms(2) [OF 2(2-4)]] 2(1) show ?thesis by simp
qed (simp add: calms_def safe_def)

section \<open>Operations of a connection\<close>

text \<open>Every connection that is up is being read.\<close>

definition reading :: "'a cworld_scheme \<Rightarrow> bool" where
  "reading w \<longleftrightarrow> (\<forall>p c ch. cw_conns w p = Some c \<longrightarrow> up c \<longrightarrow> w_chans w (tc_channel c) = Some ch \<longrightarrow> isReading ch)"

lemma isReading_events: "isReading ch \<Longrightarrow> ch_events ch \<noteq> 0"
  by (auto simp: isReading_def)

lemma quiet_set_events:
  assumes "w_chans w k = Some ch" "isReading ch" "\<And>e. bit e 0 \<Longrightarrow> bit (f e) 0"
  shows "quiet_res l w (set_events os f k w)"
  unfolding quiet_res_def
proof (intro allI impI)
  fix w' assume "set_events os f k w = Inr w'"
  from this assms(1) obtain ch' where ch': "w_chans w' = (w_chans w)(k \<mapsto> ch')" "ch_events ch' = f (ch_events ch)"
    "ch_handling ch' = ch_handling ch" "world.more w' = world.more w" "\<And>l. el_pending (w_loops w' l) = el_pending (w_loops w l)"
    "open_fds (w_trace w') = open_fds (w_trace w)" "closes_open (w_trace w') = closes_open (w_trace w)" by (rule set_events_effect) blast
  have "chan_calm ch ch'"
    using assms(2,3) ch'(2,3) isReading_events [OF assms(2)] by (simp add: chan_calm_def isReading_bit)
  moreover have "cw_conns w' = cw_conns w" "sw_servers w' = sw_servers w" "sw_acceptors w' = sw_acceptors w"
    using ch'(4) by (cases w; cases w'; simp add: world.defs cworld.defs)+
  ultimately show "quiet l w w'"
    using ch' assms(1) by (auto simp: quiet_def option.rel_refl)
qed

lemma conn_calm_update [simp]:
  "conn_calm c (c\<lparr>tc_outputBuffer := b\<rparr>)" "conn_calm c (c\<lparr>tc_inputBuffer := b\<rparr>)" "conn_calm c (c\<lparr>tc_state := st\<rparr>)"
  "conn_calm (c\<lparr>tc_outputBuffer := b\<rparr>) c"
  by (simp_all add: conn_calm_def msg_ok_def)

lemma quiet_try_write:
  assumes "cw_conns w p = Some c"
  shows "quiet l w (snd (snd (snd (try_write os p c ch data w))))"
    "cw_conns (snd (snd (snd (try_write os p c ch data w)))) = cw_conns w"
    "w_chans (snd (snd (snd (try_write os p c ch data w)))) = w_chans w"
proof -
  have log: "quiet l w (log_call (SysWrite fd d n) w)" for fd d n by (rule quiet_log) simp
  have "quiet l (log_call (SysWrite fd d n) w) (queue_writeComplete os p c (log_call (SysWrite fd d n) w))" for fd d n
    by (rule quiet_writeComplete [where d = c]) (simp_all add: assms)
  then have "quiet l w (queue_writeComplete os p c (log_call (SysWrite fd d n) w))" for fd d n
    using quiet_trans [OF log] by blast
  with log show "quiet l w (snd (snd (snd (try_write os p c ch data w))))"
    "cw_conns (snd (snd (snd (try_write os p c ch data w)))) = cw_conns w"
    "w_chans (snd (snd (snd (try_write os p c ch data w)))) = w_chans w"
    by (auto simp: try_write_def Let_def split: prod.splits)
qed

lemma quiet_sendInLoop:
  assumes r: "reading w" and p: "cw_conns w p = Some c" "tc_state c \<noteq> kConnecting"
  shows "quiet_res l w (sendInLoop os p data w)"
proof (cases "tc_state c = kDisconnected \<or> w_chans w (tc_channel c) = None")
  case False
  then obtain ch where ch: "w_chans w (tc_channel c) = Some ch" and up: "up c"
    using p(2) by (cases "tc_state c") (auto simp: up_def)
  with r p(1) have rd: "isReading ch" by (auto simp: reading_def)
  obtain n rem e w1 where tw: "try_write os p c ch data w = (n, rem, e, w1)" by (metis prod_cases4)
  have w1: "quiet l w w1" "cw_conns w1 = cw_conns w" "w_chans w1 = w_chans w"
    using quiet_try_write [where ch = ch and os = os and data = data, OF p(1)] tw by simp_all
  have en: "quiet_res l u (enableWriting os (tc_channel c) u)" if "w_chans u = w_chans w" for u :: "'a sworld_scheme"
    unfolding enableWriting_def using that ch rd by (intro quiet_set_events) (simp_all add: bit_or_iff)
  have put: "quiet l w1 (put_conn p (c\<lparr>tc_outputBuffer := b\<rparr>) w1)" for b
    by (rule quiet_put_conn [where c = c]) (simp_all add: w1(2) p(1))
  have en': "quiet_res l w1 (enableWriting os (tc_channel c) (put_conn p (c\<lparr>tc_outputBuffer := b\<rparr>) w1))" for b
    by (rule quiet_res_after [OF put en]) (simp add: w1(3))
  have "quiet_res l w1 (if \<not> e \<and> rem > 0 then
      bindR (mem_read data n rem) (\<lambda>rest. bindR (append_buf rest (tc_outputBuffer c)) (\<lambda>b.
      bindR (upd_conn p (\<lambda>c. c\<lparr>tc_outputBuffer := b\<rparr>) w1) (\<lambda>w2.
        if \<not> isWriting ch then enableWriting os (tc_channel c) w2 else Inr w2))) else Inr w1)"
    using p(1) w1(2) put en' by (auto intro!: quiet_res_bind)
  from quiet_res_after [OF w1(1) this] False p(1) ch tw show ?thesis by (simp add: sendInLoop_def)
qed (use p in \<open>auto simp: sendInLoop_def\<close>)

lemma quiet_send:
  assumes "reading w" "cw_conns w p = Some c" "isInLoopThread (tc_loop c) w"
  shows "quiet_res l w (bindR (send os p buf w) (\<lambda>(b, w'). Inr w'))"
proof (cases "tc_state c = kConnected")
  case True
  have "quiet_res l w (sendInLoop os p data w)" for data
    by (rule quiet_sendInLoop [OF assms(1,2)]) (simp add: True)
  then have "quiet_res l w (bindR (sendInLoop os p data w) Inr)" for data by (rule quiet_res_then) simp
  with assms True show ?thesis by (simp add: send_def bindR_assoc quiet_res_bind)
qed (use assms in \<open>simp add: send_def\<close>)

lemma quiet_setState: "cw_conns w p = Some c \<Longrightarrow> quiet_res l w (setState p st w)"
  by (simp add: quiet_put_conn)

lemma quiet_shutdownInLoop: "quiet_res l w (shutdownInLoop os p w)"
  by (auto simp: shutdownInLoop_def shutdownWrite_def intro!: quiet_res_bind quiet_log)

lemma quiet_shutdown:
  assumes "cw_conns w p = Some c" "isInLoopThread (tc_loop c) w"
  shows "quiet_res l w (shutdown os p w)"
proof -
  let ?w = "put_conn p (c\<lparr>tc_state := kDisconnecting\<rparr>) w"
  have "quiet l w ?w" by (rule quiet_put_conn [OF assms(1)]) simp
  moreover have "isInLoopThread (tc_loop c) ?w" using assms(2) by (simp add: isInLoopThread_def)
  ultimately show ?thesis
    using assms by (auto simp: shutdown_def runInLoop_def intro: quiet_res_after [OF _ quiet_shutdownInLoop])
qed

lemma quiet_forceClose:
  assumes "cw_conns w p = Some c"
  shows "quiet_res l w (forceClose os p w)"
proof -
  let ?w = "put_conn p (c\<lparr>tc_state := kDisconnecting\<rparr>) w"
  have "quiet l w ?w" by (rule quiet_put_conn [OF assms]) simp
  moreover have "quiet l ?w (queueInLoop os (tc_loop c) (F_forceCloseInLoop p) ?w)"
    by (rule quiet_queue) (auto simp: calm_functor_def)
  ultimately show ?thesis using assms quiet_trans by (auto simp: forceClose_def)
qed

lemma quiet_forceCloseWithDelay: "cw_conns w p = Some c \<Longrightarrow> quiet_res l w (forceCloseWithDelay p w)"
  by (simp add: forceCloseWithDelay_def quiet_put_conn)

lemma quiet_handleError: "quiet_res l w (handleError_conn os p w)"
  by (auto simp: handleError_conn_def intro!: quiet_res_bind quiet_log)

lemma quiet_defaultMessage: "quiet_res l w (defaultMessageCallback p w)"
  by (auto simp: defaultMessageCallback_def upd_conn_def get_conn_def quiet_put_conn intro!: quiet_res_bind
      simp: derefR_eq_Inr)

lemma quiet_handleWrite:
  fixes w :: "'a sworld_scheme"
  assumes inv: "conns_inv w" and r: "reading w" and p: "cw_conns w p = Some c"
  shows "quiet_res l w (handleWrite_conn os p w)"
proof -
  from inv p obtain ch where ch: "w_chans w (tc_channel c) = Some ch" and st: "state_ok c ch" by (rule conns_invE)
  show ?thesis
  proof (cases "isWriting ch")
    case False
    with p ch show ?thesis by (simp add: handleWrite_conn_def)
  next
    case True
    from True st have "up c" by (cases "tc_state c") (auto simp: state_ok_def up_def isWriting_def)
    with r p ch have rd: "isReading ch" by (auto simp: reading_def)
    let ?w1 = "\<lambda>data. log_call (SysWrite (ch_fd ch) data (fst (os_write os (w_trace w) (ch_fd ch) data))) w"
    have w1: "quiet l w (?w1 d)" for d by (rule quiet_log) simp
    have put: "quiet l (?w1 d) (put_conn p (c\<lparr>tc_outputBuffer := b\<rparr>) (?w1 d))" for b d
      by (rule quiet_put_conn [where c = c]) (simp_all add: p)
    define flushed where "flushed = (\<lambda>u :: 'a sworld_scheme. bindR (disableWriting os (tc_channel c) u) (\<lambda>w3.
      let w4 = queue_writeComplete os p c w3 in if tc_state c = kDisconnecting then shutdownInLoop os p w4 else Inr w4))"
    have dis: "quiet_res l u (flushed u)" if "w_chans u = w_chans w" "cw_conns u p = Some (c\<lparr>tc_outputBuffer := b\<rparr>)" for u b
      unfolding flushed_def
    proof (rule quiet_res_then)
      show "quiet_res l u (disableWriting os (tc_channel c) u)"
        unfolding disableWriting_def using that ch rd by (intro quiet_set_events) (simp_all add: bit_simps)
      fix v assume v: "quiet l u v"
      from quietD(5) [OF v, of p] that(2) obtain cv where "cw_conns v p = Some cv" "tc_writeCompleteCb cv = tc_writeCompleteCb c"
        by (auto simp: option_rel_Some1 conn_calm_def)
      then have "quiet l v (queue_writeComplete os p c v)" by (rule quiet_writeComplete)
      then show "quiet_res l v (let w4 = queue_writeComplete os p c v in if tc_state c = kDisconnecting then shutdownInLoop os p w4 else Inr w4)"
        by (auto simp: Let_def intro: quiet_res_after [OF _ quiet_shutdownInLoop])
    qed
    have fl: "quiet_res l (?w1 d) (flushed (put_conn p (c\<lparr>tc_outputBuffer := b\<rparr>) (?w1 d)))" for b d
      by (rule quiet_res_after [OF put dis]) simp_all
    have step: "quiet_res l (?w1 d) (if n > 0 then bindR (retrieve (nat n) (tc_outputBuffer c)) (\<lambda>b.
        bindR (upd_conn p (\<lambda>c. c\<lparr>tc_outputBuffer := b\<rparr>) (?w1 d)) (\<lambda>w2. if readableBytes b = 0 then flushed w2 else Inr w2))
        else Inr (?w1 d))" for d n
      using p put fl by (cases "retrieve (nat n) (tc_outputBuffer c)") simp_all
    have "handleWrite_conn os p w = bindR (peek_mem (tc_outputBuffer c) (readableBytes (tc_outputBuffer c))) (\<lambda>d.
        let n = fst (os_write os (w_trace w) (ch_fd ch) d) in
        if n > 0 then bindR (retrieve (nat n) (tc_outputBuffer c)) (\<lambda>b.
        bindR (upd_conn p (\<lambda>c. c\<lparr>tc_outputBuffer := b\<rparr>) (?w1 d)) (\<lambda>w2. if readableBytes b = 0 then flushed w2 else Inr w2))
        else Inr (?w1 d))"
      unfolding flushed_def using p ch True by (simp add: handleWrite_conn_def Let_def)
    then show ?thesis
      using quiet_res_after [OF w1 step] by (simp only: Let_def) (rule quiet_res_bind)
  qed
qed

section \<open>What stays hidden from the application\<close>

text \<open>Handling an event changes no message callback and nothing of the application.\<close>

definition inner :: "'a cworld_scheme \<Rightarrow> 'a cworld_scheme \<Rightarrow> bool" where
  "inner w w' \<longleftrightarrow> cworld.more w' = cworld.more w \<and>
     (\<forall>p. map_option tc_messageCb (cw_conns w' p) = map_option tc_messageCb (cw_conns w p))"

lemma inner_simps [simp]:
  "inner w w" "inner w (log_call s w)" "inner w (queueInLoop os l f w)" "inner w (queue_writeComplete os p c w)"
  "inner w (put_chan k ch w)"
  by (simp_all add: inner_def)

lemma inner_trans: "inner u v \<Longrightarrow> inner v w \<Longrightarrow> inner u w"
  by (simp add: inner_def)

lemma inner_put_conn: "cw_conns w p = Some c \<Longrightarrow> tc_messageCb c' = tc_messageCb c \<Longrightarrow> inner w (put_conn p c' w)"
  by (simp add: inner_def)

lemma inner_set_events:
  assumes "set_events os f k w = Inr w'"
  shows "inner w w'"
proof -
  from assms obtain ch where "w_chans w k = Some ch"
    by (auto simp: set_events_def upd_chan_def get_chan_def res_simps)
  with assms have "world.more w' = world.more w" by (rule set_events_effect)
  then show ?thesis by (cases w; cases w') (simp add: inner_def cworld.defs)
qed

lemma inner_shutdownInLoop: "shutdownInLoop os p w = Inr w' \<Longrightarrow> inner w w'"
  by (auto simp: shutdownInLoop_def shutdownWrite_def res_simps split: if_splits)

lemma inner_handleError: "handleError_conn os p w = Inr w' \<Longrightarrow> inner w w'"
  by (auto simp: handleError_conn_def res_simps)

lemma inner_handleWrite:
  assumes "handleWrite_conn os p w = Inr w'"
  shows "inner w w'"
proof -
  from assms obtain c ch where p: "cw_conns w p = Some c" "w_chans w (tc_channel c) = Some ch"
    by (auto simp: handleWrite_conn_def get_conn_def get_chan_def res_simps)
  let ?w1 = "\<lambda>d. log_call (SysWrite (ch_fd ch) d (fst (os_write os (w_trace w) (ch_fd ch) d))) w"
  let ?w2 = "\<lambda>d b. put_conn p (c\<lparr>tc_outputBuffer := b\<rparr>) (?w1 d)"
  have w2: "inner w (?w2 d b)" for d b
    by (rule inner_trans [OF inner_simps(2) inner_put_conn [where c = c]]) (simp_all add: p)
  show ?thesis
  proof (cases "isWriting ch")
    case False
    with assms p show ?thesis by (simp add: handleWrite_conn_def)
  next
    case True
    with assms p obtain d where d: "(let n = fst (os_write os (w_trace w) (ch_fd ch) d); w1 = ?w1 d in
        if n > 0 then bindR (retrieve (nat n) (tc_outputBuffer c)) (\<lambda>b. bindR (upd_conn p (\<lambda>c. c\<lparr>tc_outputBuffer := b\<rparr>) w1) (\<lambda>w2.
          if readableBytes b = 0 then bindR (disableWriting os (tc_channel c) w2) (\<lambda>w3. let w4 = queue_writeComplete os p c w3 in
            if tc_state c = kDisconnecting then shutdownInLoop os p w4 else Inr w4) else Inr w2)) else Inr w1) = Inr w'"
      by (auto simp: handleWrite_conn_def Let_def elim!: bindR_InrE)
    show ?thesis
    proof (cases "fst (os_write os (w_trace w) (ch_fd ch) d) > 0")
      case False
      with d have "w' = ?w1 d" by (simp add: Let_def)
      then show ?thesis by simp
    next
      case True
      with d p obtain b where b: "(if readableBytes b = 0 then bindR (disableWriting os (tc_channel c) (?w2 d b)) (\<lambda>w3.
          let w4 = queue_writeComplete os p c w3 in if tc_state c = kDisconnecting then shutdownInLoop os p w4 else Inr w4)
          else Inr (?w2 d b)) = Inr w'"
        by (auto simp: Let_def elim!: bindR_InrE)
      show ?thesis
      proof (cases "readableBytes b = 0")
        case False
        with b have "w' = ?w2 d b" by simp
        with w2 show ?thesis by simp
      next
        case True
        with b obtain v where v: "disableWriting os (tc_channel c) (?w2 d b) = Inr v"
          "(if tc_state c = kDisconnecting then shutdownInLoop os p (queue_writeComplete os p c v) else Inr (queue_writeComplete os p c v)) = Inr w'"
          by (auto simp: Let_def elim!: bindR_InrE)
        from v(1) have "inner (?w2 d b) v" unfolding disableWriting_def by (rule inner_set_events)
        then have "inner w (queue_writeComplete os p c v)" using inner_trans [OF w2] inner_trans inner_simps(4) by blast
        with v(2) show ?thesis by (auto intro: inner_trans inner_shutdownInLoop split: if_splits)
      qed
    qed
  qed
qed

end
