(* ===== verification/ServerLoop.thy ===== *)
theory ServerLoop
  imports Serving
begin

text \<open>
  A server that runs in one thread, as \<open>RpcServer\<close> does unless \<open>setThreadNum\<close> is called: the loop of the
  acceptor is also the loop of every connection. The whole body of \<open>EventLoop::loop\<close> is composed with the
  dispatchers of all the objects that live in the loop, and a run is any number of iterations, between
  which connections nobody refers to any more are destroyed.
\<close>

section \<open>The state between two steps\<close>

text \<open>What the callbacks of the application rely on.\<close>

definition sound :: "ptr \<Rightarrow> 'a cworld_scheme \<Rightarrow> bool" where
  "sound l w \<longleftrightarrow> conns_inv w \<and> reading w \<and> isInLoopThread l w \<and> (\<forall>p c. cw_conns w p = Some c \<longrightarrow> tc_loop c = l)"

text \<open>A channel that is not a connection's: the wake-up channel of the loop or the acceptor's.\<close>

definition plain_channel :: "ptr \<Rightarrow> ptr \<Rightarrow> acceptor \<Rightarrow> fd set \<Rightarrow> ptr \<Rightarrow> channel \<Rightarrow> bool" where
  "plain_channel l a ac W k ch \<longleftrightarrow> ch_loop ch = l \<and> ch_fd ch \<in> W \<and>
     ch_readCb ch = Some (if k = ac_channel ac then AcceptorHandleRead a else LoopHandleRead l) \<and>
     ch_writeCb ch = None \<and> ch_closeCb ch = None \<and> ch_errorCb ch = None"

text \<open>What never changes in a connection of server \<open>s\<close>.\<close>

definition conn_static :: "ptr \<Rightarrow> ptr \<Rightarrow> tcp_server \<Rightarrow> tcp_connection \<Rightarrow> bool" where
  "conn_static l s sv c \<longleftrightarrow> tc_loop c = l \<and> tc_connectionCb c = ts_connectionCb sv \<and> tc_messageCb c \<noteq> None \<and> msg_ok c \<and>
     tc_writeCompleteCb c = ts_writeCompleteCb sv \<and> tc_closeCb c = Some (cb_removeConnection s)"

text \<open>
  A connection is up, in the map of the server and being read; or it is disconnected, has left the map and
  waits to be destroyed (its channel is still known to the poller) or has been destroyed (it is not).
\<close>

definition conn_served :: "tcp_server \<Rightarrow> Functor list \<Rightarrow> ptr \<Rightarrow> tcp_connection \<Rightarrow> 'a world_scheme \<Rightarrow> bool" where
  "conn_served sv todo p c w \<longleftrightarrow> (\<exists>ch. w_chans w (tc_channel c) = Some ch \<and>
     (if tc_state c = kDisconnected
      then ts_connections sv (tc_name c) \<noteq> Some p \<and>
        (if F_connectDestroyed p \<in> set todo then ch_index ch = kDeleted else ch_index ch = kNew \<and> \<not> ch_added ch)
      else up c \<and> ts_connections sv (tc_name c) = Some p \<and> F_connectDestroyed p \<notin> set todo \<and> isReading ch))"

definition server_static :: "ptr \<Rightarrow> ptr \<Rightarrow> nat \<Rightarrow> nat \<Rightarrow> nat option \<Rightarrow> tcp_server \<Rightarrow> bool" where
  "server_static l s cb mb wc sv \<longleftrightarrow> ts_loop sv = l \<and> pool_loops (ts_pool sv) = [l] \<and> ts_connectionCb sv = Some cb \<and> cb mod 4 \<noteq> 2 \<and>
     ts_messageCb sv = Some mb \<and> mb mod 4 \<noteq> 2 \<and> ts_writeCompleteCb sv = wc \<and> (\<forall>k. wc = Some k \<longrightarrow> k mod 4 \<noteq> 2)"

fun is_destroy :: "Functor \<Rightarrow> bool" where
  "is_destroy (F_connectDestroyed p) = True"
| "is_destroy f = False"

definition functor_ok :: "'a cworld_scheme \<Rightarrow> Functor \<Rightarrow> bool" where
  "functor_ok w f \<longleftrightarrow> calm_functor w f \<or> (\<exists>p. f = F_connectDestroyed p \<and> cw_conns w p \<noteq> None)"

definition conn_fds :: "'a cworld_scheme \<Rightarrow> fd set" where
  "conn_fds w = {tc_sockfd c |c. \<exists>p. cw_conns w p = Some c}"

text \<open>
  \<open>todo\<close> are the functors the loop has taken out of its queue and not run yet, \<open>X\<close> the connections in
  the middle of a change, \<open>B\<close> the descriptors that were open before the server was started, and \<open>W\<close>
  further descriptors that are in use (the wake-up descriptor of the loop).
\<close>

definition serves ::
  "ptr \<Rightarrow> ptr \<Rightarrow> nat \<Rightarrow> nat \<Rightarrow> nat option \<Rightarrow> fd set \<Rightarrow> fd set \<Rightarrow> ptr set \<Rightarrow> Functor list \<Rightarrow> tcp_server \<Rightarrow> acceptor \<Rightarrow> 'a sworld_scheme \<Rightarrow> bool" where
  "serves l s cb mb wc B W X todo sv ac w \<longleftrightarrow> sound l w \<and> server_inv s w \<and>
     (sw_servers w s = Some sv \<and> sw_acceptors w (ts_acceptor sv) = Some ac \<and> server_static l s cb mb wc sv \<and> ac_newConnectionCb ac = Some s) \<and>
     (finite (dom (w_chans w)) \<and> finite (dom (cw_conns w))) \<and>
     (\<forall>k ch. w_chans w k = Some ch \<longrightarrow> plain_channel l (ts_acceptor sv) ac (W \<union> B) k ch \<or> (\<exists>p c. cw_conns w p = Some c \<and> tc_channel c = k)) \<and>
     (\<forall>p c. cw_conns w p = Some c \<longrightarrow> conn_static l s sv c) \<and>
     (\<forall>p c. cw_conns w p = Some c \<longrightarrow> p \<notin> X \<longrightarrow> conn_served sv (todo @ el_pending (w_loops w l)) p c w) \<and>
     (open_fds (w_trace w) = insert (ac_idleFd ac) (B \<union> conn_fds w) \<and> ac_idleFd ac \<notin> B \<union> conn_fds w \<and> B \<inter> conn_fds w = {} \<and>
        (\<forall>fd \<in> B \<union> conn_fds w. 0 \<le> fd) \<and> closes_open (w_trace w)) \<and>
     list_all (functor_ok w) (todo @ el_pending (w_loops w l)) \<and>
     distinct (filter is_destroy (todo @ el_pending (w_loops w l)))"

text \<open>Between two iterations; \<open>ka\<close> is the channel of the acceptor.\<close>

definition serving :: "ptr \<Rightarrow> ptr \<Rightarrow> nat \<Rightarrow> nat \<Rightarrow> nat option \<Rightarrow> fd set \<Rightarrow> fd set \<Rightarrow> ptr \<Rightarrow> 'a sworld_scheme \<Rightarrow> bool" where
  "serving l s cb mb wc B W ka w \<longleftrightarrow> (\<exists>sv ac. serves l s cb mb wc B W {} [] sv ac w \<and> ac_channel ac = ka)"

lemma servesD:
  assumes "serves l s cb mb wc B W X todo sv ac w"
  shows "sound l w" "server_inv s w" "sw_servers w s = Some sv" "sw_acceptors w (ts_acceptor sv) = Some ac" "server_static l s cb mb wc sv"
    "ac_newConnectionCb ac = Some s"
    "\<And>k ch. w_chans w k = Some ch \<Longrightarrow> plain_channel l (ts_acceptor sv) ac (W \<union> B) k ch \<or> (\<exists>p c. cw_conns w p = Some c \<and> tc_channel c = k)"
    "\<And>p c. cw_conns w p = Some c \<Longrightarrow> conn_static l s sv c"
    "\<And>p c. cw_conns w p = Some c \<Longrightarrow> p \<notin> X \<Longrightarrow> conn_served sv (todo @ el_pending (w_loops w l)) p c w"
    "open_fds (w_trace w) = insert (ac_idleFd ac) (B \<union> conn_fds w)" "ac_idleFd ac \<notin> B \<union> conn_fds w" "B \<inter> conn_fds w = {}"
    "\<And>fd. fd \<in> B \<union> conn_fds w \<Longrightarrow> 0 \<le> fd"
    "list_all (functor_ok w) (todo @ el_pending (w_loops w l))" "distinct (filter is_destroy (todo @ el_pending (w_loops w l)))"
    "finite (dom (w_chans w))" "finite (dom (cw_conns w))" "closes_open (w_trace w)"
  using assms unfolding serves_def by blast+

lemma soundD:
  assumes "sound l w"
  shows "conns_inv w" "reading w" "isInLoopThread l w" "\<And>p c. cw_conns w p = Some c \<Longrightarrow> tc_loop c = l"
  using assms unfolding sound_def by blast+

section \<open>Quiet steps\<close>

lemma calm_not_destroy: "calm_functor w f \<Longrightarrow> \<not> is_destroy f"
  by (auto simp: calm_functor_def)

lemma evolves_channel_back:
  assumes "evolves R w w'" "w_chans w' k = Some ch'"
  obtains ch where "w_chans w k = Some ch" "chan_frame ch' = chan_frame ch"
proof -
  have "map_option chan_frame (w_chans w k) = Some (chan_frame ch')"
    using assms unfolding evolves_def by (metis option.map(2))
  then show thesis using that by auto
qed

lemma evolves_conn_back:
  assumes "evolves R w w'" "cw_conns w' p = Some c'"
  obtains c where "cw_conns w p = Some c" "conn_frame c' = conn_frame c" "R (tc_state c) (tc_state c')"
proof -
  from assms obtain c where "cw_conns w p = Some c" unfolding evolves_def by (metis not_None_eq)
  with assms that show thesis unfolding evolves_def by blast
qed

text \<open>
  All changes that keep the server going: the channels and connections stay, nothing that is read is
  given up, and the queue only grows by functors of connections.
\<close>

definition chan_static :: "channel \<Rightarrow> _" where
  "chan_static ch = (ch_loop ch, ch_fd ch, ch_readCb ch, ch_writeCb ch, ch_closeCb ch, ch_errorCb ch)"

definition chan_tame :: "channel \<Rightarrow> channel \<Rightarrow> bool" where
  "chan_tame ch ch' \<longleftrightarrow> (isReading ch \<longrightarrow> isReading ch') \<and>
     (ch_events ch = 0 \<longrightarrow> ch_index ch' = ch_index ch \<and> ch_added ch' = ch_added ch)"

definition conn_tame :: "tcp_connection \<Rightarrow> tcp_connection \<Rightarrow> bool" where
  "conn_tame c c' \<longleftrightarrow> conn_frame c' = conn_frame c \<and> (msg_ok c \<longrightarrow> msg_ok c')"

text \<open>The connections in \<open>Y\<close> go down.\<close>

definition chan_change :: "ptr set \<Rightarrow> 'a cworld_scheme \<Rightarrow> ptr \<Rightarrow> channel \<Rightarrow> channel \<Rightarrow> bool" where
  "chan_change Y w k ch ch' \<longleftrightarrow> chan_static ch' = chan_static ch \<and>
     ((\<forall>p c. cw_conns w p = Some c \<longrightarrow> tc_channel c = k \<longrightarrow> p \<notin> Y) \<longrightarrow> chan_tame ch ch')"

definition conn_change :: "ptr set \<Rightarrow> ptr \<Rightarrow> tcp_connection \<Rightarrow> tcp_connection \<Rightarrow> bool" where
  "conn_change Y p c c' \<longleftrightarrow> conn_tame c c' \<and> (if p \<in> Y then tc_state c' = kDisconnected else user_forward (tc_state c) (tc_state c'))"

definition tame :: "ptr \<Rightarrow> ptr set \<Rightarrow> 'a sworld_scheme \<Rightarrow> 'a sworld_scheme \<Rightarrow> bool" where
  "tame l Y w w' \<longleftrightarrow> w_tid w' = w_tid w \<and> el_threadId (w_loops w' l) = el_threadId (w_loops w l) \<and>
     sw_servers w' = sw_servers w \<and> sw_acceptors w' = sw_acceptors w \<and> open_fds (w_trace w') = open_fds (w_trace w) \<and> closes_open (w_trace w') = closes_open (w_trace w) \<and>
     (\<forall>k. rel_option (chan_change Y w k) (w_chans w k) (w_chans w' k)) \<and>
     (\<forall>p. rel_option (conn_change Y p) (cw_conns w p) (cw_conns w' p)) \<and>
     (\<exists>fs. el_pending (w_loops w' l) = el_pending (w_loops w l) @ fs \<and> list_all (calm_functor w') fs)"

lemma tame_refls [simp]: "chan_tame ch ch" "conn_tame c c"
  by (simp_all add: chan_tame_def conn_tame_def)

lemma quiet_tame:
  assumes "evolves user_forward w w'" "quiet l w w'"
  shows "tame l {} w w'"
proof -
  have "rel_option (chan_change {} w k) (w_chans w k) (w_chans w' k)" for k
  proof (cases "w_chans w k")
    case (Some ch)
    from assms(1) Some obtain ch' where ch': "w_chans w' k = Some ch'" "chan_frame ch' = chan_frame ch" by (rule evolves_channel)
    with quietD(4) [OF assms(2), of k] Some have "chan_calm ch ch'" by simp
    with ch' Some show ?thesis by (simp add: chan_change_def chan_tame_def chan_calm_def chan_frame_def chan_static_def)
  qed (use quietD(4) [OF assms(2), of k] in simp)
  moreover have "rel_option (conn_change {} p) (cw_conns w p) (cw_conns w' p)" for p
  proof (cases "cw_conns w p")
    case (Some c)
    from assms(1) Some obtain c' where c': "cw_conns w' p = Some c'" "conn_frame c' = conn_frame c" "user_forward (tc_state c) (tc_state c')"
      by (rule evolves_conn)
    with quietD(5) [OF assms(2), of p] Some have "conn_calm c c'" by simp
    with c' Some show ?thesis by (simp add: conn_change_def conn_tame_def conn_calm_def)
  qed (use quietD(5) [OF assms(2), of p] in simp)
  moreover have "w_tid w' = w_tid w" "el_threadId (w_loops w' l) = el_threadId (w_loops w l)"
    using assms(1) by (simp_all add: evolves_def loop_frame_def)
  ultimately show ?thesis
    unfolding tame_def using quietD(1-3,6,7) [OF assms(2)] by simp
qed

lemma tame_rel:
  assumes "tame l Y w w'"
  shows "rel_option (chan_change Y w k) (w_chans w k) (w_chans w' k)" "rel_option (conn_change Y p) (cw_conns w p) (cw_conns w' p)"
  using assms by (simp_all add: tame_def)

lemma tameD:
  assumes "tame l Y w w'"
  shows "w_tid w' = w_tid w" "el_threadId (w_loops w' l) = el_threadId (w_loops w l)"
    "sw_servers w' = sw_servers w" "sw_acceptors w' = sw_acceptors w" "open_fds (w_trace w') = open_fds (w_trace w)"
    "\<exists>fs. el_pending (w_loops w' l) = el_pending (w_loops w l) @ fs \<and> list_all (calm_functor w') fs"
    "dom (w_chans w') = dom (w_chans w)" "dom (cw_conns w') = dom (cw_conns w)" "closes_open (w_trace w') = closes_open (w_trace w)"
proof -
  show "dom (w_chans w') = dom (w_chans w)"
    using tame_rel(1) [OF assms] by (auto simp: dom_def option_rel_Some1 option_rel_Some2) (metis option.rel_sel not_None_eq)+
  show "dom (cw_conns w') = dom (cw_conns w)"
    using tame_rel(2) [OF assms] by (auto simp: dom_def option_rel_Some1 option_rel_Some2) (metis option.rel_sel not_None_eq)+
qed (use assms in \<open>simp_all add: tame_def\<close>)

lemma tame_conn_back:
  assumes "tame l Y w w'" "cw_conns w' p = Some c'"
  obtains c where "cw_conns w p = Some c" "conn_tame c c'" "if p \<in> Y then tc_state c' = kDisconnected else user_forward (tc_state c) (tc_state c')"
  using tame_rel(2) [OF assms(1), of p] assms(2) that by (auto simp: option_rel_Some2 conn_change_def)

lemma tame_conn:
  assumes "tame l Y w w'" "cw_conns w p = Some c"
  obtains c' where "cw_conns w' p = Some c'" "conn_tame c c'" "if p \<in> Y then tc_state c' = kDisconnected else user_forward (tc_state c) (tc_state c')"
  using tame_rel(2) [OF assms(1), of p] assms(2) that by (auto simp: option_rel_Some1 conn_change_def)

lemma tame_chan:
  assumes "tame l Y w w'" "w_chans w k = Some ch"
  obtains ch' where "w_chans w' k = Some ch'" "chan_static ch' = chan_static ch"
    "(\<forall>p c. cw_conns w p = Some c \<longrightarrow> tc_channel c = k \<longrightarrow> p \<notin> Y) \<longrightarrow> chan_tame ch ch'"
  using tame_rel(1) [OF assms(1), of k] assms(2) that by (auto simp: option_rel_Some1 chan_change_def)

lemma conn_tame_states:
  assumes "user_forward (tc_state c) (tc_state c')"
  shows "up c' \<longleftrightarrow> up c" "tc_state c' = kDisconnected \<longleftrightarrow> tc_state c = kDisconnected"
  using assms by (auto simp: user_forward_def up_def)

lemma conn_fds_tame: "tame l Y w w' \<Longrightarrow> conn_fds w' = conn_fds w"
proof (intro set_eqI iffI)
  fix fd assume t: "tame l Y w w'"
  show "fd \<in> conn_fds w" if "fd \<in> conn_fds w'"
    using that tame_conn_back [OF t] unfolding conn_fds_def conn_tame_def conn_frame_def by fastforce
  show "fd \<in> conn_fds w'" if "fd \<in> conn_fds w"
    using that tame_conn [OF t] unfolding conn_fds_def conn_tame_def conn_frame_def by fastforce
qed

text \<open>Two connections do not share a channel.\<close>

lemma channel_owner:
  assumes "conns_inv w" "cw_conns w p = Some c" "cw_conns w q = Some d" "tc_channel c = tc_channel d"
  shows "p = q"
proof -
  from assms(1,2) obtain ch where "w_chans w (tc_channel c) = Some ch" "linked p c ch" by (rule conns_invE)
  moreover from assms(1,3) obtain ch' where "w_chans w (tc_channel d) = Some ch'" "linked q d ch'" by (rule conns_invE)
  ultimately show ?thesis using assms(4) by (simp add: linked_def)
qed

lemma sound_tame:
  assumes "sound l w" "conns_inv w'" "tame l Y w w'"
  shows "sound l w'"
proof -
  have "isReading ch'" if p: "cw_conns w' p = Some c'" "up c'" and ch': "w_chans w' (tc_channel c') = Some ch'" for p c' ch'
  proof -
    from assms(3) p(1) obtain c where c: "cw_conns w p = Some c" "conn_tame c c'"
      "if p \<in> Y then tc_state c' = kDisconnected else user_forward (tc_state c) (tc_state c')" by (rule tame_conn_back)
    have y: "p \<notin> Y" "up c" using c(3) p(2) by (auto simp: up_def user_forward_def split: if_splits)
    have same: "tc_channel c' = tc_channel c" using c(2) by (simp add: conn_tame_def conn_frame_def)
    from soundD(1) [OF assms(1)] c(1) obtain ch where ch: "w_chans w (tc_channel c) = Some ch" by (rule conns_invE)
    from assms(3) ch obtain ch2 where "w_chans w' (tc_channel c) = Some ch2"
      "(\<forall>p d. cw_conns w p = Some d \<longrightarrow> tc_channel d = tc_channel c \<longrightarrow> p \<notin> Y) \<longrightarrow> chan_tame ch ch2" by (rule tame_chan)
    moreover have "q \<notin> Y" if "cw_conns w q = Some d" "tc_channel d = tc_channel c" for q d
      using channel_owner [OF soundD(1) [OF assms(1)] that(1) c(1) that(2)] y(1) by simp
    ultimately have "chan_tame ch ch'" using ch' same by auto
    moreover have "isReading ch" using soundD(2) [OF assms(1)] c(1) y(2) ch by (auto simp: reading_def)
    ultimately show ?thesis by (simp add: chan_tame_def)
  qed
  moreover have "tc_loop c' = l" if "cw_conns w' p = Some c'" for p c'
    using assms(3) that by (rule tame_conn_back) (use assms(1) in \<open>auto simp: sound_def conn_tame_def conn_frame_def\<close>)
  moreover have "isInLoopThread l w'"
    using assms(1) tameD(1,2) [OF assms(3)] by (simp add: sound_def isInLoopThread_def)
  ultimately show ?thesis using assms(2) by (auto simp: sound_def reading_def)
qed

lemma functor_ok_tame:
  assumes "functor_ok w f" "tame l Y w w'"
  shows "functor_ok w' f"
proof -
  have calm: "rel_option conn_calm (cw_conns w p) (cw_conns w' p)" for p
  proof (cases "cw_conns w p")
    case (Some c)
    from assms(2) Some obtain c' where "cw_conns w' p = Some c'" "conn_tame c c'" by (rule tame_conn)
    with Some show ?thesis by (simp add: conn_tame_def conn_calm_def conn_frame_def)
  next
    case None
    with tameD(8) [OF assms(2)] have "cw_conns w' p = None" by auto
    with None show ?thesis by simp
  qed
  have "cw_conns w p \<noteq> None \<Longrightarrow> cw_conns w' p \<noteq> None" for p
    using tameD(8) [OF assms(2)] by auto
  with assms(1) calm_functor_mono [OF _ calm] show ?thesis by (auto simp: functor_ok_def)
qed

lemma server_inv_tame:
  assumes "server_inv s w" "tame l Y w w'"
  shows "server_inv s w'"
proof -
  have "\<exists>c'. cw_conns w' p = Some c' \<and> tc_name c' = tc_name c \<and> tc_closeCb c' = tc_closeCb c" if "cw_conns w p = Some c" for p c
    using assms(2) that by (rule tame_conn) (auto simp: conn_tame_def conn_frame_def)
  with assms(1) show ?thesis unfolding server_inv_def tameD(3) [OF assms(2)] by metis
qed

lemma conn_served_tame:
  assumes "conn_served sv todo p c w" "conns_inv w" "tame l Y w w'" "cw_conns w p = Some c" "cw_conns w' p = Some c'" "p \<notin> Y"
    and same: "F_connectDestroyed p \<in> set todo' \<longleftrightarrow> F_connectDestroyed p \<in> set todo"
  shows "conn_served sv todo' p c' w'"
proof -
  from assms(3,4) obtain d where "cw_conns w' p = Some d" "conn_tame c d"
    "if p \<in> Y then tc_state d = kDisconnected else user_forward (tc_state c) (tc_state d)" by (rule tame_conn)
  with assms(5,6) have t: "conn_tame c c'" and u: "user_forward (tc_state c) (tc_state c')" by auto
  from t have f: "tc_channel c' = tc_channel c" "tc_name c' = tc_name c" by (simp_all add: conn_tame_def conn_frame_def)
  from assms(2,4) obtain ch where ch: "w_chans w (tc_channel c) = Some ch" "state_ok c ch" by (rule conns_invE)
  from assms(3) ch(1) obtain ch' where ch': "w_chans w' (tc_channel c) = Some ch'"
    "(\<forall>p d. cw_conns w p = Some d \<longrightarrow> tc_channel d = tc_channel c \<longrightarrow> p \<notin> Y) \<longrightarrow> chan_tame ch ch'" by (rule tame_chan)
  have "q \<notin> Y" if "cw_conns w q = Some d" "tc_channel d = tc_channel c" for q d
    using channel_owner [OF assms(2) that(1) assms(4) that(2)] assms(6) by simp
  with ch'(2) have "chan_tame ch ch'" by blast
  moreover have "tc_state c = kDisconnected \<Longrightarrow> ch_events ch = 0" using ch(2) by (simp add: state_ok_def)
  ultimately show ?thesis
    using assms(1) ch ch'(1) f conn_tame_states [OF u] same by (auto simp: conn_served_def chan_tame_def)
qed

lemma serves_tame:
  assumes sv: "serves l s cb mb wc B W X todo sv ac w" and inv: "conns_inv w'" and t: "tame l Y w w'"
  shows "serves l s cb mb wc B W (X \<union> Y) todo sv ac w'"
proof -
  note S = servesD [OF sv]
  from tameD(6) [OF t] obtain fs where fs: "el_pending (w_loops w' l) = el_pending (w_loops w l) @ fs" "list_all (calm_functor w') fs"
    by blast
  have none: "\<not> is_destroy f" if "f \<in> set fs" for f using fs(2) that calm_not_destroy by (auto simp: list_all_iff)
  then have fil: "filter is_destroy fs = []" by (simp add: filter_empty_conv)
  have plain: "plain_channel l (ts_acceptor sv) ac (W \<union> B) k ch' \<or> (\<exists>p c. cw_conns w' p = Some c \<and> tc_channel c = k)"
    if k: "w_chans w' k = Some ch'" for k ch'
  proof -
    from k tameD(7) [OF t] obtain ch where ch: "w_chans w k = Some ch" by blast
    from t ch obtain ch2 where "w_chans w' k = Some ch2" "chan_static ch2 = chan_static ch" by (rule tame_chan)
    with k have same: "chan_static ch' = chan_static ch" by simp
    from S(7) [OF ch] show ?thesis
    proof
      assume "plain_channel l (ts_acceptor sv) ac (W \<union> B) k ch"
      with same show ?thesis by (simp add: plain_channel_def chan_static_def)
    next
      assume "\<exists>p c. cw_conns w p = Some c \<and> tc_channel c = k"
      then obtain p c where p: "cw_conns w p = Some c" "tc_channel c = k" by blast
      from t p(1) obtain c' where "cw_conns w' p = Some c'" "conn_tame c c'" by (rule tame_conn)
      with p(2) show ?thesis by (auto simp: conn_tame_def conn_frame_def)
    qed
  qed
  have static: "conn_static l s sv c'" if "cw_conns w' p = Some c'" for p c'
    using t that by (rule tame_conn_back) (auto dest!: S(8) simp: conn_static_def conn_tame_def conn_frame_def)
  have served: "conn_served sv (todo @ el_pending (w_loops w' l)) p c' w'" if "cw_conns w' p = Some c'" "p \<notin> X \<union> Y" for p c'
  proof -
    from t that(1) obtain c where c: "cw_conns w p = Some c" by (rule tame_conn_back)
    have "F_connectDestroyed p \<notin> set fs" using none by force
    with that(2) show ?thesis
      by (intro conn_served_tame [OF S(9) [OF c] soundD(1) [OF S(1)] t c that(1)]) (auto simp: fs(1))
  qed
  have "list_all (functor_ok w') fs" using fs(2) by (simp add: list_all_iff functor_ok_def)
  moreover have "list_all (functor_ok w') (todo @ el_pending (w_loops w l))"
    using S(14) functor_ok_tame [OF _ t] by (auto simp: list_all_iff)
  ultimately have "list_all (functor_ok w') (todo @ el_pending (w_loops w' l))" by (simp add: fs(1))
  then show ?thesis
    using S plain static served fil sound_tame [OF S(1) inv t] server_inv_tame [OF S(2) t] tameD [OF t] conn_fds_tame [OF t] fs(1)
    unfolding serves_def by simp
qed

lemma serves_quiet:
  assumes "serves l s cb mb wc B W X todo sv ac w" "conns_inv w'" "evolves user_forward w w'" "quiet l w w'"
  shows "serves l s cb mb wc B W X todo sv ac w'"
  using serves_tame [OF assms(1,2) quiet_tame [OF assms(3,4)]] by simp

section \<open>Closing\<close>

text \<open>A channel that is read is known to the kernel.\<close>

lemma reading_added:
  assumes "reactor_inv w" "w_chans w k = Some ch" "isReading ch" "ch_index ch \<noteq> kNew"
  shows "ch_index ch = kAdded"
proof -
  have r: "registry_inv (ch_loop ch) w" using assms(1) by (simp add: reactor_inv_def)
  from registry_inv_known [OF r assms(2) refl] assms(4) have "chan_map (ch_loop ch) w (ch_fd ch) = Some k" by simp
  with r obtain dh where "w_chans w k = Some dh" "ch_index dh = kAdded \<or> ch_index dh = kDeleted \<and> isNoneEvent dh"
    by (rule registry_inv_lookup) blast
  with assms(2,3) isReading_events show ?thesis by (auto simp: isNoneEvent_def)
qed

text \<open>The first half of \<open>handleClose\<close>: the connection is marked and its channel disabled.\<close>

lemma disableAll_tame:
  assumes os: "epoll_ctl_contract os" and so: "sound l w" and p: "cw_conns w p = Some c" "up c"
    and ch: "w_chans w (tc_channel c) = Some ch"
  obtains u ch' where "disableAll os (tc_channel c) (put_conn p (c\<lparr>tc_state := kDisconnected\<rparr>) w) = Inr u" "conns_inv u" "tame l {p} w u"
    "cw_conns u = (cw_conns w)(p \<mapsto> c\<lparr>tc_state := kDisconnected\<rparr>)" "w_chans u = (w_chans w)(tc_channel c \<mapsto> ch')"
    "ch_index ch' = kDeleted" "ch_events ch' = 0" "chan_frame ch' = chan_frame ch" "ch_handling ch' = ch_handling ch"
    "cworld.more u = cworld.more w" "el_eventHandling (w_loops u l) = el_eventHandling (w_loops w l)"
    "el_pending (w_loops u l) = el_pending (w_loops w l)"
proof -
  let ?c = "c\<lparr>tc_state := kDisconnected\<rparr>" and ?ch = "ch\<lparr>ch_events := NoneEvent, ch_added := True\<rparr>"
  let ?u = "updated_world (tc_loop c) (tc_channel c) ?ch (put_conn p ?c w)"
  note S = soundD [OF so]
  from S(1) p(1) have bufs: "buffer_inv (tc_inputBuffer c)" "buffer_inv (tc_outputBuffer c)" and r: "reactor_inv w"
    and st: "state_ok c ch" using ch conns_invE [OF S(1) p(1)] by (metis option.inject)+
  have "isReading ch" using S(2) p ch by (auto simp: reading_def)
  with r ch st p(2) have added: "ch_index ch = kAdded" by (auto simp: state_ok_up intro: reading_added)
  have "state_ok ?c (?ch\<lparr>ch_index := i\<rparr>)" for i by (simp add: state_ok_def NoneEvent_def)
  then obtain u where u: "set_events os (\<lambda>e. NoneEvent) (tc_channel c) (put_conn p ?c w) = Inr u" "conns_inv u" "u = ?u"
    using conns_inv_events [OF os S(1) p(1) ch, of ?c "\<lambda>e. NoneEvent"] bufs by auto
  let ?ch' = "?ch\<lparr>ch_index := kDeleted\<rparr>"
  have ni: "next_index ?ch = kDeleted" using added by (simp add: next_index_def isNoneEvent_def NoneEvent_def)
  have chans: "w_chans u = (w_chans w)(tc_channel c \<mapsto> ?ch')" by (simp add: u(3) ni)
  have conns: "cw_conns u = (cw_conns w)(p \<mapsto> ?c)" by (simp add: u(3))
  have loops: "el_pending (w_loops u l) = el_pending (w_loops w l)" "el_threadId (w_loops u l) = el_threadId (w_loops w l)"
    "el_eventHandling (w_loops u l) = el_eventHandling (w_loops w l)" by (simp_all add: u(3) updated_world_def)
  have more: "cworld.more u = cworld.more w" by (simp add: u(3) updated_world_def put_conn_def)
  have "tame l {p} w u"
    unfolding tame_def
  proof (intro conjI allI)
    show "rel_option (chan_change {p} w k) (w_chans w k) (w_chans u k)" for k
      using p(1) ch by (auto simp: chans chan_change_def option.rel_refl chan_static_def)
    show "rel_option (conn_change {p} q) (cw_conns w q) (cw_conns u q)" for q
      using p(1) by (auto simp: conns conn_change_def conn_tame_def conn_frame_def msg_ok_def user_forward_def option.rel_refl)
    show "sw_servers u = sw_servers w" "sw_acceptors u = sw_acceptors w"
      using more by (cases u; cases w; simp add: sworld.defs)+
  qed (use loops in \<open>simp_all add: u(3)\<close>)
  with u(1,2) chans conns loops more show thesis
    by (intro that [of u ?ch']) (simp_all add: disableAll_def chan_frame_def NoneEvent_def)
qed

text \<open>The second half: the connection leaves the map of the server, and its destruction is queued.\<close>

lemma server_inv_removed:
  assumes "server_inv s w" "sw_servers w s = Some sv"
  shows "server_inv s (queueInLoop os l f (put_server s (sv\<lparr>ts_connections := (ts_connections sv)(n := None)\<rparr>) w))"
  using assms unfolding server_inv_def
  by (intro exI [of _ "sv\<lparr>ts_connections := (ts_connections sv)(n := None)\<rparr>"]) (auto simp: conn_name_def split: if_splits)

lemma conn_served_cong:
  assumes "conn_served sv fs q d w" "w_chans w' (tc_channel d) = w_chans w (tc_channel d)"
    and "ts_connections sv' (tc_name d) = Some q \<longleftrightarrow> ts_connections sv (tc_name d) = Some q"
    and "F_connectDestroyed q \<in> set fs' \<longleftrightarrow> F_connectDestroyed q \<in> set fs"
  shows "conn_served sv' fs' q d w'"
  using assms(1) unfolding conn_served_def assms(2-4) .

lemma serves_removed:
  assumes sv: "serves l s cb mb wc B W {p} todo sv ac w" and p: "cw_conns w p = Some c" "tc_state c = kDisconnected"
    and map: "ts_connections sv (tc_name c) = Some p" and ch: "w_chans w (tc_channel c) = Some ch" "ch_index ch = kDeleted"
    and nq: "F_connectDestroyed p \<notin> set (todo @ el_pending (w_loops w l))"
    and sv': "sv' = sv\<lparr>ts_connections := (ts_connections sv)(tc_name c := None)\<rparr>"
    and w': "w' = queueInLoop os l (F_connectDestroyed p) (put_server s sv' w)"
  shows "serves l s cb mb wc B W {} todo sv' ac w'" "removeConnection os s p w = Inr w'"
proof -
  note S = servesD [OF sv]
  have l: "ts_loop sv = l" "tc_loop c = l" using S(5,8) p(1) by (auto simp: server_static_def conn_static_def)
  have "isInLoopThread (ts_loop sv) w" using soundD(3) [OF S(1)] l by simp
  then show "removeConnection os s p w = Inr w'"
    using S(3) p(1) map l by (simp add: removeConnection_def runInLoop_def removeConnectionInLoop_def w' sv')
  have static: "server_static l s cb mb wc sv'" using S(5) by (simp add: server_static_def sv')
  have so: "sound l w'" using S(1) by (simp add: sound_def w' reading_def isInLoopThread_def)
  have sinv: "server_inv s w'" unfolding w' sv' by (rule server_inv_removed [OF S(2,3)])
  have fds: "open_fds (w_trace w') = open_fds (w_trace w)" "conn_fds w' = conn_fds w" "closes_open (w_trace w') = closes_open (w_trace w)" by (simp_all add: w' conn_fds_def)
  have pend: "el_pending (w_loops w' l) = el_pending (w_loops w l) @ [F_connectDestroyed p]" by (simp add: w')
  have same: "cw_conns w' = cw_conns w" "w_chans w' = w_chans w" by (simp_all add: w')
  have served: "conn_served sv' (todo @ el_pending (w_loops w' l)) q d w'" if q: "cw_conns w' q = Some d" for q d
  proof (cases "q = p")
    case True
    with q p(1) same have "d = c" by simp
    with True p ch show ?thesis by (simp add: conn_served_def same sv' pend)
  next
    case False
    with S(9) [of q d] q have "conn_served sv (todo @ el_pending (w_loops w l)) q d w" by (simp add: same)
    then show ?thesis
      by (rule conn_served_cong) (use False map in \<open>auto simp: same sv' pend\<close>)
  qed
  have fok: "functor_ok w' f" if "functor_ok w f" for f
    using that by (simp add: functor_ok_def calm_functor_def same)
  have fun_ok: "list_all (functor_ok w') (todo @ el_pending (w_loops w' l))"
    using S(14) fok p(1) by (auto simp: pend list_all_iff functor_ok_def [of _ "F_connectDestroyed p"] same)
  have dist: "distinct (filter is_destroy (todo @ el_pending (w_loops w' l)))"
    using S(15) nq by (auto simp: pend)
  have plain: "plain_channel l (ts_acceptor sv') ac (W \<union> B) k kh \<or> (\<exists>p c. cw_conns w' p = Some c \<and> tc_channel c = k)"
    if "w_chans w' k = Some kh" for k kh using S(7) [of k kh] that by (simp add: same sv')
  have cst: "conn_static l s sv' d" if "cw_conns w' q = Some d" for q d
    using S(8) [of q d] that by (simp add: same conn_static_def sv')
  have srv: "sw_servers w' s = Some sv'" "sw_acceptors w' (ts_acceptor sv') = Some ac" using S(4) by (simp_all add: w' sv')
  show "serves l s cb mb wc B W {} todo sv' ac w'"
    unfolding serves_def fds same
    using so sinv srv static S(6,10-13,16-18) plain cst served fun_ok dist by (simp add: same)
qed

section \<open>Accepting\<close>

text \<open>A connection that has been accepted and established, before the application is told.\<close>

lemma conn_fds_ran: "conn_fds w = tc_sockfd ` ran (cw_conns w)"
  by (auto simp: conn_fds_def ran_def)

lemma not_queued:
  assumes "serves l s cb mb wc B W X todo sv ac w" "cw_conns w p = None"
  shows "F_connectDestroyed p \<notin> set (todo @ el_pending (w_loops w l))"
proof
  assume "F_connectDestroyed p \<in> set (todo @ el_pending (w_loops w l))"
  with servesD(14) [OF assms(1)] have "functor_ok w (F_connectDestroyed p)" by (auto simp: list_all_iff)
  with assms(2) show False by (auto simp: functor_ok_def calm_functor_def)
qed

lemma serves_fd_free:
  assumes "serves l s cb mb wc B W X todo sv ac w" "f \<notin> open_fds (w_trace w)" "f \<notin> W"
  shows "fd_free l' f w"
proof -
  note S = servesD [OF assms(1)]
  have "ch_fd ch \<noteq> f" if ch: "w_chans w j = Some ch" for j ch
    using S(7) [OF ch]
  proof
    assume "\<exists>p c. cw_conns w p = Some c \<and> tc_channel c = j"
    then obtain q d where d: "cw_conns w q = Some d" "tc_channel d = j" by blast
    from soundD(1) [OF S(1)] d(1) obtain dh where "w_chans w (tc_channel d) = Some dh" "linked q d dh" by (rule conns_invE)
    with d ch have "ch_fd ch = tc_sockfd d" by (simp add: linked_def)
    with d(1) assms(2) S(10) show ?thesis by (auto simp: conn_fds_def)
  qed (use assms(2,3) S(10) in \<open>auto simp: plain_channel_def\<close>)
  then show ?thesis by (simp add: fd_free_def)
qed

lemma serves_accepted:
  assumes sv: "serves l s cb mb wc B W {} todo sv ac w" and new: "cw_conns w p = None" "w_chans w k = None"
    and fd: "0 \<le> f" "f \<notin> open_fds (w_trace w)"
    and name: "ts_connections sv (conn_name sv (ts_nextConnId sv)) = None"
    and inv: "conns_inv w'" "server_inv s w'" and conns: "cw_conns w' = (cw_conns w)(p \<mapsto> c)" and chans: "w_chans w' = (w_chans w)(k \<mapsto> ch)"
    and c: "tc_channel c = k" "tc_sockfd c = f" "tc_state c = kConnected" "tc_name c = conn_name sv (ts_nextConnId sv)" "isReading ch"
    and static: "conn_static l s sv c"
    and same: "w_tid w' = w_tid w" "el_threadId (w_loops w' l) = el_threadId (w_loops w l)" "el_pending (w_loops w' l) = el_pending (w_loops w l)"
      "sw_servers w' s = Some (registered sv p)" "sw_acceptors w' = sw_acceptors w" "open_fds (w_trace w') = insert f (open_fds (w_trace w))"
      "closes_open (w_trace w')"
  shows "serves l s cb mb wc B W {} todo (registered sv p) ac w'"
proof -
  note S = servesD [OF sv]
  have so: "sound l w'"
    using inv(1) soundD [OF S(1)] c(1,5) new(2) static same(1,2)
    by (auto simp: sound_def reading_def conns chans isInLoopThread_def conn_static_def split: if_splits)
  have plain: "plain_channel l (ts_acceptor sv) ac (W \<union> B) j jh \<or> (\<exists>p c. cw_conns w' p = Some c \<and> tc_channel c = j)"
    if "w_chans w' j = Some jh" for j jh
  proof (cases "j = k")
    case True
    then show ?thesis using c(1) by (auto simp: conns)
  next
    case False
    with that S(7) [of j jh] show ?thesis unfolding conns chans using new(1) by (metis fun_upd_other option.distinct(1))
  qed
  have cst: "conn_static l s (registered sv p) d" if "cw_conns w' q = Some d" for q d
    using that S(8) [of q d] static by (auto simp: conns conn_static_def split: if_splits)
  have served: "conn_served (registered sv p) (todo @ el_pending (w_loops w' l)) q d w'" if q: "cw_conns w' q = Some d" for q d
  proof (cases "q = p")
    case True
    with q have "d = c" by (simp add: conns)
    with True c not_queued [OF sv new(1)] show ?thesis by (simp add: conn_served_def up_def chans same(3))
  next
    case False
    with q have d: "cw_conns w q = Some d" by (simp add: conns)
    from soundD(1) [OF S(1)] d obtain dh where dh: "w_chans w (tc_channel d) = Some dh" by (rule conns_invE)
    have "conn_served sv (todo @ el_pending (w_loops w l)) q d w" using S(9) [OF d] by simp
    then show ?thesis
      by (rule conn_served_cong) (use False name new(2) dh in \<open>auto simp: chans same(3)\<close>)
  qed
  have cf: "conn_fds w' = insert f (conn_fds w)" using new(1) c(2) by (simp add: conn_fds_ran conns)
  have fds: "open_fds (w_trace w') = insert (ac_idleFd ac) (B \<union> conn_fds w')" "ac_idleFd ac \<notin> B \<union> conn_fds w'" "B \<inter> conn_fds w' = {}"
    "\<forall>fd \<in> B \<union> conn_fds w'. 0 \<le> fd"
    using S(10-13) fd same(6) by (auto simp: cf)
  have fok: "functor_ok w' g" if "functor_ok w g" for g
    using that new(1) unfolding functor_ok_def calm_functor_def conns by (metis fun_upd_other fun_upd_same option.distinct(1))
  have "list_all (functor_ok w') (todo @ el_pending (w_loops w' l))"
    using S(14) fok by (auto simp: same(3) list_all_iff)
  moreover have "server_static l s cb mb wc (registered sv p)" using S(5) by (auto simp: server_static_def pool_loops_def split: if_splits)
  moreover have "finite (dom (w_chans w'))" "finite (dom (cw_conns w'))" using S(16,17) by (simp_all add: conns chans)
  ultimately show ?thesis
    unfolding serves_def using so inv(2) S(4,6,15) plain cst served fds same(7) by (simp add: same(3-5))
qed

text \<open>The acceptor has given its idle descriptor up and opened another one.\<close>

lemma serves_idle:
  assumes sv: "serves l s cb mb wc B W X todo sv ac w" and inv: "conns_inv w'"
    and same: "w_chans w' = w_chans w" "cw_conns w' = cw_conns w" "w_loops w' = w_loops w" "w_tid w' = w_tid w" "sw_servers w' = sw_servers w"
    and ac: "sw_acceptors w' (ts_acceptor sv) = Some (ac\<lparr>ac_idleFd := i\<rparr>)"
    and i: "open_fds (w_trace w') = insert i (B \<union> conn_fds w)" "i \<notin> B \<union> conn_fds w" "closes_open (w_trace w')"
  shows "serves l s cb mb wc B W X todo sv (ac\<lparr>ac_idleFd := i\<rparr>) w'"
proof -
  note S = servesD [OF sv]
  have "sound l w'" using S(1) inv by (simp add: sound_def reading_def isInLoopThread_def same)
  moreover have "server_inv s w'" using S(2) by (simp add: server_inv_def same)
  moreover have "plain_channel l (ts_acceptor sv) (ac\<lparr>ac_idleFd := i\<rparr>) (W \<union> B) k ch \<or> (\<exists>p c. cw_conns w' p = Some c \<and> tc_channel c = k)"
    if "w_chans w' k = Some ch" for k ch using S(7) [of k ch] that by (simp add: same plain_channel_def)
  moreover have "conn_served sv (todo @ el_pending (w_loops w' l)) p c w'" if "cw_conns w' p = Some c" "p \<notin> X" for p c
    using S(9) [of p c] that by (simp add: same conn_served_def)
  moreover have "functor_ok w' = functor_ok w" by (rule ext) (simp add: functor_ok_def calm_functor_def same)
  moreover have "conn_fds w' = conn_fds w" by (simp add: conn_fds_def same)
  ultimately show ?thesis
    unfolding serves_def using S(3,5,6,8,12-17) ac i by (simp add: same)
qed

section \<open>Destruction\<close>

text \<open>\<open>connectDestroyed\<close> takes the channel of a closed connection out of the poller.\<close>

lemma connectDestroyed_tame:
  assumes os: "epoll_ctl_contract os" and so: "sound l w" and p: "cw_conns w p = Some c" "tc_state c = kDisconnected"
    and ch: "w_chans w (tc_channel c) = Some ch" "ch_index ch = kDeleted" and idle: "\<not> el_eventHandling (w_loops w l)"
  obtains u ch' where "connectDestroyed env os p w = Inr u" "conns_inv u" "tame l {p} w u" "cw_conns u = cw_conns w"
    "w_chans u = (w_chans w)(tc_channel c \<mapsto> ch')" "ch_index ch' = kNew" "\<not> ch_added ch'" "chan_frame ch' = chan_frame ch"
    "ch_handling ch' = ch_handling ch" "el_eventHandling (w_loops u l) = el_eventHandling (w_loops w l)"
    "el_pending (w_loops u l) = el_pending (w_loops w l)" "world.more u = world.more w"
proof -
  let ?k = "tc_channel c" and ?ch = "ch\<lparr>ch_added := False\<rparr>"
  let ?u = "removed_world l ?k ?ch w" and ?ch' = "ch\<lparr>ch_added := False, ch_index := kNew\<rparr>"
  note S = soundD [OF so]
  from S(1) p(1) have r: "reactor_inv w" and lk: "linked p c ch" and st: "state_ok c ch" and l: "tc_loop c = l"
    using ch(1) conns_invE [OF S(1) p(1)] S(4) [OF p(1)] by (metis option.inject)+
  have ch': "ch_loop ch = l" "isNoneEvent ch" "ch_index ch \<noteq> kNew" "ch_index ch \<noteq> kAdded"
    using lk st p(2) l ch(2) by (simp_all add: linked_def state_ok_def isNoneEvent_def index_defs)
  have reg: "registrable l ?k ch w" "registry_inv l w" using reactor_registrable [OF r ch(1)] r by (simp_all add: ch'(1) reactor_inv_def)
  have "remove_channel os ?k w = Inr ?u" using idle by (intro remove_channel_ok [OF os reg(2,1) ch'(3,2)]) simp
  then have run: "connectDestroyed env os p w = Inr ?u" using p by (simp add: connectDestroyed_def)
  have chans: "w_chans ?u = (w_chans w)(?k \<mapsto> ?ch')" by simp
  have ri: "reactor_inv ?u" using reactor_inv_removed [OF r ch(1) ch'(3)] by (simp add: ch'(1))
  have "conn_ok q d ?u" if q: "cw_conns ?u q = Some d" for q d
  proof -
    from q have d: "cw_conns w q = Some d" by simp
    from S(1) d obtain dh where dh: "w_chans w (tc_channel d) = Some dh" "linked q d dh" "state_ok d dh"
      "buffer_inv (tc_inputBuffer d)" "buffer_inv (tc_outputBuffer d)" by (rule conns_invE)
    show ?thesis
    proof (cases "q = p")
      case True
      with d p dh ch(1) show ?thesis by (auto simp: conn_ok_def linked_def state_ok_def)
    next
      case False
      with channel_owner [OF S(1) d p(1)] have "tc_channel d \<noteq> ?k" by blast
      with dh show ?thesis by (auto simp: conn_ok_def)
    qed
  qed
  with ri have inv: "conns_inv ?u" by (simp add: conns_inv_def)
  have more: "world.more ?u = world.more w" by simp
  have "tame l {p} w ?u"
    unfolding tame_def
  proof (intro conjI allI)
    show "rel_option (chan_change {p} w k) (w_chans w k) (w_chans ?u k)" for k
      using p(1) ch(1) unfolding chans by (auto simp: chan_change_def option.rel_refl chan_static_def)
    show "rel_option (conn_change {p} q) (cw_conns w q) (cw_conns ?u q)" for q
      using p by (cases "cw_conns w q") (auto simp: conn_change_def user_forward_def)
    show "sw_servers ?u = sw_servers w" "sw_acceptors ?u = sw_acceptors w"
      using more by (cases ?u; cases w; simp add: world.defs cworld.defs sworld.defs)+
  qed (simp_all add: removed_world_def)
  with run inv more show thesis
    by (intro that [of ?u ?ch']) (simp_all add: chan_frame_def removed_world_def)
qed

text \<open>The functor has done its work.\<close>

lemma serves_destroyed:
  assumes sv: "serves l s cb mb wc B W {p} (F_connectDestroyed p # todo) sv ac w" and c: "cw_conns w p = Some c" "tc_state c = kDisconnected"
    and ch: "w_chans w (tc_channel c) = Some ch" "ch_index ch = kNew" "\<not> ch_added ch" and map: "ts_connections sv (tc_name c) \<noteq> Some p"
  shows "serves l s cb mb wc B W {} todo sv ac w"
proof -
  note S = servesD [OF sv]
  have "conn_served sv (todo @ el_pending (w_loops w l)) q d w" if d: "cw_conns w q = Some d" for q d
  proof (cases "q = p")
    case True
    with d c have "d = c" by simp
    moreover have "F_connectDestroyed p \<notin> set (todo @ el_pending (w_loops w l))" using S(15) by auto
    ultimately show ?thesis using True c ch map by (simp add: conn_served_def)
  next
    case False
    with S(9) [OF d] have "conn_served sv ((F_connectDestroyed p # todo) @ el_pending (w_loops w l)) q d w" by simp
    then show ?thesis by (rule conn_served_cong) (use False in auto)
  qed
  with S show ?thesis unfolding serves_def by simp
qed

text \<open>
  The functors that hold a \<open>shared_ptr\<close> to a connection. The others that name one are bound to a plain
  \<open>this\<close>.
\<close>

fun holds_ref :: "ptr \<Rightarrow> Functor \<Rightarrow> bool" where
  "holds_ref p (F_forceCloseInLoop q) \<longleftrightarrow> q = p"
| "holds_ref p (F_writeComplete k q) \<longleftrightarrow> q = p"
| "holds_ref p (F_connectEstablished q) \<longleftrightarrow> q = p"
| "holds_ref p (F_connectDestroyed q) \<longleftrightarrow> q = p"
| "holds_ref p (F_removeConnectionInLoop s q) \<longleftrightarrow> q = p"
| "holds_ref p f \<longleftrightarrow> False"

text \<open>Neither a server nor the queue of the loop refers to connection \<open>p\<close> any more.\<close>

definition unreferenced :: "ptr \<Rightarrow> ptr \<Rightarrow> 'a sworld_scheme \<Rightarrow> bool" where
  "unreferenced l p w \<longleftrightarrow> cw_conns w p \<noteq> None \<and> (\<forall>s sv n. sw_servers w s = Some sv \<longrightarrow> ts_connections sv n \<noteq> Some p) \<and>
     (\<forall>f \<in> set (el_pending (w_loops w l)). \<not> holds_ref p f)"

text \<open>No two connections share a descriptor.\<close>

lemma sockfd_owner:
  assumes so: "sound l w" and p: "cw_conns w p = Some c" and q: "cw_conns w q = Some d" and fd: "tc_sockfd c = tc_sockfd d"
  shows "p = q"
proof -
  note S = soundD [OF so]
  from S(1) p obtain ch where ch: "reactor_inv w" "w_chans w (tc_channel c) = Some ch" "linked p c ch" by (rule conns_invE)
  from S(1) q obtain dh where dh: "w_chans w (tc_channel d) = Some dh" "linked q d dh" by (rule conns_invE)
  have "ch_loop ch = ch_loop dh" "ch_fd ch = ch_fd dh" using ch(3) dh(2) fd S(4) p q by (simp_all add: linked_def)
  with ch(1,2) dh(1) have "tc_channel c = tc_channel d" unfolding reactor_inv_def fds_unique_def by metis
  then show ?thesis by (rule channel_owner [OF S(1) p q])
qed

lemma conns_inv_deleted:
  assumes so: "sound l w" and p: "cw_conns w p = Some c" and ch: "w_chans w (tc_channel c) = Some ch" "ch_index ch = kNew"
    and w': "w_chans w' = (w_chans w)(tc_channel c := None)" "cw_conns w' = (cw_conns w)(p := None)" "w_loops w' = w_loops w"
      "\<And>l. interest l (w_trace w') = interest l (w_trace w)"
  shows "conns_inv w'"
proof -
  note S = soundD [OF so]
  have "reactor_inv w" using S(1) by (simp add: conns_inv_def)
  from reactor_inv_delete [OF this ch] have "reactor_inv w'" by (rule reactor_inv_cong) (simp_all add: w')
  moreover have "conn_ok q d w'" if q: "cw_conns w' q = Some d" for q d
  proof -
    from q have d: "q \<noteq> p" "cw_conns w q = Some d" by (simp_all add: w' split: if_splits)
    from S(1) d(2) obtain dh where "w_chans w (tc_channel d) = Some dh" "linked q d dh" "state_ok d dh"
      "buffer_inv (tc_inputBuffer d)" "buffer_inv (tc_outputBuffer d)" by (rule conns_invE)
    moreover have "tc_channel d \<noteq> tc_channel c" using channel_owner [OF S(1) d(2) p] d(1) by blast
    ultimately show ?thesis by (auto simp: conn_ok_def w')
  qed
  ultimately show ?thesis by (simp add: conns_inv_def)
qed

text \<open>The last reference goes: the destructor finds everything in order and closes the descriptor.\<close>

lemma unreferenced_closed:
  assumes sv: "serves l s cb mb wc B W {} [] sv ac w" and p: "cw_conns w p = Some c" and un: "unreferenced l p w"
  obtains ch where "w_chans w (tc_channel c) = Some ch" "tc_state c = kDisconnected" "ch_index ch = kNew" "\<not> ch_added ch"
proof -
  note S = servesD [OF sv]
  have "ts_connections sv (tc_name c) \<noteq> Some p" using un S(3) by (auto simp: unreferenced_def)
  moreover have "F_connectDestroyed p \<notin> set (el_pending (w_loops w l))" using un by (fastforce simp: unreferenced_def)
  ultimately show thesis using S(9) [OF p] that by (auto simp: conn_served_def split: if_splits)
qed

lemma serves_deleted:
  assumes sv: "serves l s cb mb wc B W {} [] sv ac w" and p: "cw_conns w p = Some c" and un: "unreferenced l p w"
    and w': "w_chans w' = (w_chans w)(tc_channel c := None)" "cw_conns w' = (cw_conns w)(p := None)" "w_loops w' = w_loops w"
      "w_tid w' = w_tid w" "sw_servers w' = sw_servers w" "sw_acceptors w' = sw_acceptors w" "w_trace w' = w_trace w @ [SysClose (tc_sockfd c)]"
  shows "serves l s cb mb wc B W {} [] sv ac w'"
proof -
  note S = servesD [OF sv]
  from sv p un obtain ch where ch: "w_chans w (tc_channel c) = Some ch" "tc_state c = kDisconnected" "ch_index ch = kNew"
    by (rule unreferenced_closed)
  have inv: "conns_inv w'" by (rule conns_inv_deleted [OF S(1) p ch(1,3) w'(1-3)]) (simp add: w'(7))
  then have so: "sound l w'"
    using soundD [OF S(1)] by (auto simp: sound_def reading_def w' isInLoopThread_def split: if_splits)
  have sinv: "server_inv s w'"
    using S(2) un S(3) by (fastforce simp: server_inv_def w' unreferenced_def)
  have plain: "plain_channel l (ts_acceptor sv) ac (W \<union> B) k kh \<or> (\<exists>q d. cw_conns w' q = Some d \<and> tc_channel d = k)"
    if k: "w_chans w' k = Some kh" for k kh
  proof -
    from k have "k \<noteq> tc_channel c" "w_chans w k = Some kh" by (simp_all add: w' split: if_splits)
    with S(7) [of k kh] p show ?thesis unfolding w'(2) by (metis fun_upd_other option.inject)
  qed
  have served: "conn_served sv ([] @ el_pending (w_loops w' l)) q d w'" if q: "cw_conns w' q = Some d" for q d
  proof -
    from q have d: "q \<noteq> p" "cw_conns w q = Some d" by (simp_all add: w' split: if_splits)
    have "tc_channel d \<noteq> tc_channel c" using channel_owner [OF soundD(1) [OF S(1)] d(2) p] d(1) by blast
    then show ?thesis using conn_served_cong [OF S(9) [OF d(2)], of w' sv "el_pending (w_loops w' l)"] by (simp add: w')
  qed
  have "tc_sockfd c \<notin> conn_fds w'"
  proof
    assume "tc_sockfd c \<in> conn_fds w'"
    then obtain q d where "cw_conns w' q = Some d" "tc_sockfd c = tc_sockfd d" by (auto simp: conn_fds_def)
    with sockfd_owner [OF S(1) p, of q d] show False by (simp add: w'(2) split: if_splits)
  qed
  moreover have "cw_conns w = (cw_conns w')(p \<mapsto> c)" "cw_conns w' p = None" using p by (simp_all add: w'(2) fun_upd_idem)
  then have "conn_fds w = insert (tc_sockfd c) (conn_fds w')" by (simp add: conn_fds_ran ran_map_upd)
  ultimately have fds: "open_fds (w_trace w') = insert (ac_idleFd ac) (B \<union> conn_fds w')" "ac_idleFd ac \<notin> B \<union> conn_fds w'"
    "B \<inter> conn_fds w' = {}" "\<forall>fd \<in> B \<union> conn_fds w'. 0 \<le> fd" "closes_open (w_trace w')"
    using S(10-13,18) by (auto simp: w'(7))
  have "functor_ok w' f" if f: "f \<in> set (el_pending (w_loops w l))" for f
  proof -
    have "functor_ok w f" "\<not> holds_ref p f" using S(14) un f by (auto simp: list_all_iff unreferenced_def)
    then show ?thesis by (auto simp: functor_ok_def calm_functor_def w'(2))
  qed
  then have "list_all (functor_ok w') ([] @ el_pending (w_loops w' l))" by (simp add: list_all_iff w'(3))
  then show ?thesis
    unfolding serves_def using so sinv plain served fds S(3-6,8,15-17) by (auto simp: w'(1-6) split: if_splits)
qed

section \<open>Polling\<close>

text \<open>Polling changes the events the poller stores in the channels, and nothing else of them.\<close>

lemma polled_channel:
  "w_chans w k = Some ch \<Longrightarrow> \<exists>r. w_chans (polled_world l evs w) k = Some (ch\<lparr>ch_revents := r\<rparr>)"
  "w_chans (polled_world l evs w) k = None \<longleftrightarrow> w_chans w k = None"
proof -
  show "w_chans (polled_world l evs w) k = None \<longleftrightarrow> w_chans w k = None"
    by (simp add: store_revents_def split: option.split)
  assume ch: "w_chans w k = Some ch"
  show "\<exists>r. w_chans (polled_world l evs w) k = Some (ch\<lparr>ch_revents := r\<rparr>)"
  proof (cases "map_of (rev evs) k")
    case None
    with ch show ?thesis by (intro exI [of _ "ch_revents ch"]) (simp add: store_revents_def)
  qed (use ch in \<open>auto simp: store_revents_def\<close>)
qed

lemma polled_frame:
  "cw_conns (polled_world l evs w) = cw_conns w" "el_pending (w_loops (polled_world l evs w) l') = el_pending (w_loops w l')"
  "el_threadId (w_loops (polled_world l evs w) l') = el_threadId (w_loops w l')"
  "open_fds (w_trace (polled_world l evs w)) = open_fds (w_trace w)" "closes_open (w_trace (polled_world l evs w)) = closes_open (w_trace w)"
  by (simp_all add: polled_world_def Let_def upd_poller_def upd_loop_def log_call_def)

lemma conns_inv_polled:
  assumes "conns_inv w"
  shows "conns_inv (polled_world l evs w)" (is "conns_inv ?w")
proof -
  have keys: "map_option (\<lambda>ch. (ch_loop ch, ch_fd ch, ch_index ch, ch_events ch)) (w_chans ?w k) =
      map_option (\<lambda>ch. (ch_loop ch, ch_fd ch, ch_index ch, ch_events ch)) (w_chans w k)" for k
  proof (cases "w_chans w k")
    case (Some ch)
    with polled_channel(1) [OF Some, of l evs] show ?thesis by (auto simp del: polled_world_simps)
  qed (use polled_channel(2) [of l evs w k] in simp)
  have r: "reactor_inv w" using assms by (simp add: conns_inv_def)
  have "registry_inv k ?w" for k
    using r by (intro registry_inv_cong [of k w ?w] keys) (simp_all add: reactor_inv_def)
  moreover have "fds_unique ?w"
    unfolding fds_unique_def
  proof (intro allI impI)
    fix k1 k2 ch1 ch2 assume a: "w_chans ?w k1 = Some ch1" "w_chans ?w k2 = Some ch2" "ch_loop ch1 = ch_loop ch2" "ch_fd ch1 = ch_fd ch2"
    from a(1) keys [of k1] obtain d1 where d1: "w_chans w k1 = Some d1" "ch_loop d1 = ch_loop ch1" "ch_fd d1 = ch_fd ch1" by (cases "w_chans w k1") auto
    from a(2) keys [of k2] obtain d2 where d2: "w_chans w k2 = Some d2" "ch_loop d2 = ch_loop ch2" "ch_fd d2 = ch_fd ch2" by (cases "w_chans w k2") auto
    from r have "fds_unique w" by (simp add: reactor_inv_def)
    with d1 d2 a(3,4) show "k1 = k2" unfolding fds_unique_def by metis
  qed
  moreover have "conn_ok p c ?w" if p: "cw_conns ?w p = Some c" for p c
  proof -
    from p have c: "cw_conns w p = Some c" by (simp add: polled_frame)
    from assms c obtain ch where ch: "w_chans w (tc_channel c) = Some ch" "linked p c ch" "state_ok c ch"
      "buffer_inv (tc_inputBuffer c)" "buffer_inv (tc_outputBuffer c)" by (rule conns_invE)
    from polled_channel(1) [OF ch(1), of l evs] obtain r where "w_chans ?w (tc_channel c) = Some (ch\<lparr>ch_revents := r\<rparr>)" by blast
    with ch show ?thesis by (auto simp: conn_ok_def linked_def state_ok_def isWriting_def split: StateE.splits)
  qed
  ultimately show ?thesis by (simp add: conns_inv_def reactor_inv_def)
qed

lemma tame_polled: "tame l {} w (polled_world l evs w)"
  unfolding tame_def
proof (intro conjI allI)
  let ?w = "polled_world l evs w"
  show "rel_option (chan_change {} w k) (w_chans w k) (w_chans ?w k)" for k
  proof (cases "w_chans w k")
    case (Some ch)
    with polled_channel(1) [OF Some, of l evs] show ?thesis
      by (auto simp: chan_change_def chan_static_def chan_tame_def isReading_def simp del: polled_world_simps)
  qed (use polled_channel(2) [of l evs w k] in simp)
  show "rel_option (conn_change {} p) (cw_conns w p) (cw_conns ?w p)" for p
    by (cases "cw_conns w p") (simp_all add: polled_frame conn_change_def user_forward_def)
  show "sw_servers ?w = sw_servers w" "sw_acceptors ?w = sw_acceptors w"
    by (simp_all add: polled_world_def Let_def upd_poller_def upd_loop_def log_call_def)
qed (simp_all add: polled_frame)

end
