(* ===== verification/ServerRun.thy ===== *)
theory ServerRun
  imports ServerLoop
begin

text \<open>
  The iterations of the loop of a server that runs in one thread: the events of its connections, of
  the acceptor and of the wake-up channel, and the functors that are queued meanwhile. The application
  is an interface: its callbacks keep an invariant of their own and are quiet.
\<close>

section \<open>What other channels see of a step\<close>

text \<open>
  The counter of connections is below the maximum of an \<open>int\<close>, and the name of the next connection fits
  into its buffer.
\<close>

definition names_left :: "ptr \<Rightarrow> 'a sworld_scheme \<Rightarrow> bool" where
  "names_left s w \<longleftrightarrow> (\<forall>sv. sw_servers w s = Some sv \<longrightarrow> name_fits sv (ts_nextConnId sv))"

text \<open>
  A step that may mark the channels \<open>H\<close> as being handled and may close the connections of the channels
  \<open>K\<close>: the channels keep what the poller stored in them, and the other connections stay up;
  the name of the next connection is used up by the channel \<open>ka\<close> of the acceptor only.
\<close>

definition onward :: "ptr \<Rightarrow> ptr \<Rightarrow> ptr \<Rightarrow> ptr set \<Rightarrow> ptr set \<Rightarrow> 'a sworld_scheme \<Rightarrow> 'a sworld_scheme \<Rightarrow> bool" where
  "onward l s ka H K w w' \<longleftrightarrow> el_eventHandling (w_loops w' l) = el_eventHandling (w_loops w l) \<and>
     (ka \<notin> K \<longrightarrow> names_left s w \<longrightarrow> names_left s w') \<and>
     (\<forall>k ch. w_chans w k = Some ch \<longrightarrow> (\<exists>ch'. w_chans w' k = Some ch' \<and> chan_frame ch' = chan_frame ch \<and>
        (k \<notin> H \<longrightarrow> ch_handling ch' = ch_handling ch))) \<and>
     (\<forall>k ch'. w_chans w k = None \<longrightarrow> w_chans w' k = Some ch' \<longrightarrow> k \<notin> H \<longrightarrow> \<not> ch_handling ch') \<and>
     (\<forall>p c. cw_conns w p = Some c \<longrightarrow> (\<exists>c'. cw_conns w' p = Some c' \<and> tc_channel c' = tc_channel c \<and>
        (up c \<longrightarrow> tc_channel c \<notin> K \<longrightarrow> up c')))"

lemma onward_refl [simp]: "onward l s ka H K w w"
  by (simp add: onward_def)

lemma onwardD:
  assumes "onward l s ka H K w w'"
  shows "el_eventHandling (w_loops w' l) = el_eventHandling (w_loops w l)"
    "ka \<notin> K \<Longrightarrow> names_left s w \<Longrightarrow> names_left s w'"
    "w_chans w k = Some ch \<Longrightarrow> \<exists>ch'. w_chans w' k = Some ch' \<and> chan_frame ch' = chan_frame ch \<and> (k \<notin> H \<longrightarrow> ch_handling ch' = ch_handling ch)"
    "w_chans w k = None \<Longrightarrow> w_chans w' k = Some ch' \<Longrightarrow> k \<notin> H \<Longrightarrow> \<not> ch_handling ch'"
    "cw_conns w p = Some c \<Longrightarrow> \<exists>c'. cw_conns w' p = Some c' \<and> tc_channel c' = tc_channel c \<and> (up c \<longrightarrow> tc_channel c \<notin> K \<longrightarrow> up c')"
  using assms unfolding onward_def by blast+

lemma onward_trans:
  assumes "onward l s ka H K u v" "onward l s ka H K v w"
  shows "onward l s ka H K u w"
  unfolding onward_def
proof (intro conjI allI impI)
  show "el_eventHandling (w_loops w l) = el_eventHandling (w_loops u l)"
    using onwardD(1) [OF assms(1)] onwardD(1) [OF assms(2)] by simp
  show "names_left s w" if "ka \<notin> K" "names_left s u"
    using that onwardD(2) [OF assms(1)] onwardD(2) [OF assms(2)] by blast
  show "\<exists>ch'. w_chans w k = Some ch' \<and> chan_frame ch' = chan_frame ch \<and> (k \<notin> H \<longrightarrow> ch_handling ch' = ch_handling ch)"
    if "w_chans u k = Some ch" for k ch
    using onwardD(3) [OF assms(1) that] onwardD(3) [OF assms(2)] by metis
  show "\<not> ch_handling ch'" if "w_chans u k = None" "w_chans w k = Some ch'" "k \<notin> H" for k ch'
  proof (cases "w_chans v k")
    case None
    with that onwardD(4) [OF assms(2)] show ?thesis by blast
  next
    case (Some dh)
    with that onwardD(4) [OF assms(1)] onwardD(3) [OF assms(2) Some] show ?thesis by auto
  qed
  show "\<exists>c'. cw_conns w p = Some c' \<and> tc_channel c' = tc_channel c \<and> (up c \<longrightarrow> tc_channel c \<notin> K \<longrightarrow> up c')"
    if "cw_conns u p = Some c" for p c
    using onwardD(5) [OF assms(1) that] onwardD(5) [OF assms(2)] by metis
qed

lemma onward_mono: "onward l s ka H K w w' \<Longrightarrow> H \<subseteq> H' \<Longrightarrow> K \<subseteq> K' \<Longrightarrow> onward l s ka H' K' w w'"
  unfolding onward_def by blast

lemma onward_quiet:
  assumes "evolves user_forward w w'" "quiet l w w'"
  shows "onward l s ka H K w w'"
  unfolding onward_def
proof (intro conjI allI impI)
  show "el_eventHandling (w_loops w' l) = el_eventHandling (w_loops w l)"
    using assms(1) by (simp add: evolves_def loop_frame_def)
  show "names_left s w'" if "names_left s w" using that quietD(1) [OF assms(2)] by (simp add: names_left_def)
  show "\<exists>ch'. w_chans w' k = Some ch' \<and> chan_frame ch' = chan_frame ch \<and> (k \<notin> H \<longrightarrow> ch_handling ch' = ch_handling ch)"
    if k: "w_chans w k = Some ch" for k ch
  proof -
    from assms(1) k obtain ch' where "w_chans w' k = Some ch'" "chan_frame ch' = chan_frame ch" by (rule evolves_channel)
    with quietD(4) [OF assms(2), of k] k show ?thesis by (simp add: chan_calm_def)
  qed
  show "\<not> ch_handling ch'" if "w_chans w k = None" "w_chans w' k = Some ch'" for k ch'
    using that quietD(4) [OF assms(2), of k] by simp
  show "\<exists>c'. cw_conns w' p = Some c' \<and> tc_channel c' = tc_channel c \<and> (up c \<longrightarrow> tc_channel c \<notin> K \<longrightarrow> up c')"
    if p: "cw_conns w p = Some c" for p c
  proof -
    from assms(1) p obtain c' where "cw_conns w' p = Some c'" "conn_frame c' = conn_frame c" "user_forward (tc_state c) (tc_state c')"
      by (rule evolves_conn)
    then show ?thesis using conn_tame_states(1) by (auto simp: conn_frame_def)
  qed
qed

text \<open>
  A channel the poller has reported: if it belongs to a connection then that is up, and events of the
  expected kinds only were received; if it is the acceptor's then there is a name for the next connection.
\<close>

definition ready :: "ptr \<Rightarrow> ptr \<Rightarrow> 'a sworld_scheme \<Rightarrow> ptr \<Rightarrow> bool" where
  "ready s ka w k \<longleftrightarrow> (k = ka \<longrightarrow> names_left s w) \<and> (\<exists>ch. w_chans w k = Some ch \<and> (\<forall>p c. cw_conns w p = Some c \<longrightarrow> tc_channel c = k \<longrightarrow>
     up c \<and> ch_revents ch AND NOT (POLLIN OR POLLOUT OR POLLERR OR POLLHUP) = 0))"

lemma expected_mask:
  assumes r: "r AND NOT (e OR POLLERR OR POLLHUP) = 0" and e: "plain_events e"
  shows "r AND NOT (POLLIN OR POLLOUT OR POLLERR OR POLLHUP) = 0"
proof (rule bit_eqI)
  fix n
  have "bit r n \<Longrightarrow> bit e n \<or> bit POLLERR n \<or> bit POLLHUP n"
    using r bit_imp_le_length [of r n] by (auto simp: bit_eq_iff bit_simps)
  moreover have "bit e n \<Longrightarrow> bit POLLIN n \<or> bit POLLOUT n"
    using e bit_imp_le_length [of e n] unfolding plain_events_def ReadEvent_def WriteEvent_def by (auto simp: bit_eq_iff bit_simps)
  ultimately show "bit (r AND NOT (POLLIN OR POLLOUT OR POLLERR OR POLLHUP)) n \<longleftrightarrow> bit 0 n"
    by (auto simp: bit_and_iff bit_or_iff bit_not_iff)
qed

text \<open>No event is being handled.\<close>

definition idle_chans :: "'a world_scheme \<Rightarrow> bool" where
  "idle_chans w \<longleftrightarrow> (\<forall>k ch. w_chans w k = Some ch \<longrightarrow> \<not> ch_handling ch)"

lemma expected_events:
  assumes "r AND NOT (POLLIN OR POLLOUT OR POLLERR OR POLLHUP) = 0"
  shows "\<not> (hup_only r \<and> readable r)"
proof (rule close_or_read)
  show "(ReadEvent OR WriteEvent) AND NOT (ReadEvent OR WriteEvent) = 0" by (simp only: bit_eq_iff) (auto simp: bit_simps)
  show "r AND NOT ((ReadEvent OR WriteEvent) OR POLLERR OR POLLHUP) = 0"
    using assms by (simp only: ReadEvent_def WriteEvent_def or.assoc)
qed

text \<open>An event of a channel that is not a connection's.\<close>

lemma handleEvent_read_only:
  assumes "w_chans w k = Some ch" "ch_writeCb ch = None" "ch_closeCb ch = None" "ch_errorCb ch = None" "ch_readCb ch = Some kb"
    and "\<And>u. run kb (put_chan k (ch\<lparr>ch_handling := True\<rparr>) w) = Inr u \<Longrightarrow> \<exists>chu. w_chans u k = Some chu \<and> chan_frame chu = chan_frame ch"
  shows "handleEvent run k w = bindR (if readable (ch_revents ch) then run kb (put_chan k (ch\<lparr>ch_handling := True\<rparr>) w)
      else Inr (put_chan k (ch\<lparr>ch_handling := True\<rparr>) w)) (upd_chan k (\<lambda>ch. ch\<lparr>ch_handling := False\<rparr>))"
proof -
  let ?w = "put_chan k (ch\<lparr>ch_handling := True\<rparr>) w"
  have skip: "bindR (fire run writable ch_writeCb k u) (\<lambda>v. bindR (fire run erroneous ch_errorCb k v) g) = g u"
    if "w_chans u k = Some chu" "chan_frame chu = chan_frame ch" for u chu and g :: "'a world_scheme \<Rightarrow> 'a world_scheme res"
    using that assms(2,4) by (simp add: fire_def chan_frame_def)
  show ?thesis
  proof (cases "readable (ch_revents ch)")
    case True
    show ?thesis
    proof (cases "run kb ?w")
      case (Inr u)
      with assms(6) obtain chu where "w_chans u k = Some chu" "chan_frame chu = chan_frame ch" by blast
      from skip [OF this] True Inr assms(1,3,5) show ?thesis by (simp add: handleEvent_def fire_def)
    qed (use True assms(1,3,5) in \<open>simp add: handleEvent_def fire_def\<close>)
  next
    case False
    with assms(1-5) show ?thesis by (simp add: handleEvent_def fire_def)
  qed
qed

lemma handleEvent_idle:
  assumes "handleEvent run k w = Inr w'" "idle_chans w" "onward l s ka {k} {k} w w'"
  shows "idle_chans w'"
  unfolding idle_chans_def
proof (intro allI impI)
  fix j ch' assume j: "w_chans w' j = Some ch'"
  show "\<not> ch_handling ch'"
  proof (cases "j = k")
    case True
    with assms(1) j show ?thesis by (auto simp: handleEvent_def upd_chan_def res_simps)
  next
    case False
    then show ?thesis
    proof (cases "w_chans w j")
      case None
      with onwardD(4) [OF assms(3) None j] False show ?thesis by simp
    next
      case (Some ch)
      with onwardD(3) [OF assms(3) Some] False j assms(2) show ?thesis by (auto simp: idle_chans_def)
    qed
  qed
qed

section \<open>The application\<close>

lemma server_env_remove: "server_env user os (cb_removeConnection s) p w = removeConnection os s p w"
  using cb_removeConnection_code [of s] by (simp add: server_env_def)

text \<open>A callback ends quietly and keeps the invariant \<open>J\<close>, or stops because a buffer would be too large.\<close>

definition works :: "('a sworld_scheme \<Rightarrow> bool) \<Rightarrow> ptr \<Rightarrow> 'a sworld_scheme \<Rightarrow> 'a sworld_scheme res \<Rightarrow> bool" where
  "works J l w r \<longleftrightarrow> calms l w r \<and> (\<forall>w'. r = Inr w' \<longrightarrow> J w')"

text \<open>
  What the library does between two callbacks, seen from the application: its own state is untouched,
  and a connection that is up either was up before, with the same message callback, or is new and has
  the message callback \<open>mb\<close> of the server.
\<close>

definition same_app :: "nat \<Rightarrow> 'a sworld_scheme \<Rightarrow> 'a sworld_scheme \<Rightarrow> bool" where
  "same_app mb w w' \<longleftrightarrow> sworld.more w' = sworld.more w \<and>
     (\<forall>p c'. cw_conns w' p = Some c' \<longrightarrow> up c' \<longrightarrow> tc_messageCb c' = Some mb \<or>
        (\<exists>c. cw_conns w p = Some c \<and> up c \<and> tc_messageCb c = tc_messageCb c'))"

lemma sworld_more: "cworld.more w = cworld.more w' \<Longrightarrow> sworld.more w = sworld.more w'"
  by (cases w, cases w') (simp add: sworld.defs)

lemma same_app_inner:
  assumes "inner w w'" "evolves user_forward w w'"
  shows "same_app mb w w'"
proof -
  have "\<exists>c. cw_conns w p = Some c \<and> up c \<and> tc_messageCb c = tc_messageCb c'" if p: "cw_conns w' p = Some c'" "up c'" for p c'
  proof -
    from assms(2) p(1) obtain c where c: "cw_conns w p = Some c" "user_forward (tc_state c) (tc_state c')" by (rule evolves_conn_back)
    moreover have "map_option tc_messageCb (cw_conns w' p) = map_option tc_messageCb (cw_conns w p)"
      using assms(1) by (simp add: inner_def)
    ultimately show ?thesis using p conn_tame_states(1) by fastforce
  qed
  then show ?thesis using assms(1) sworld_more by (auto simp: same_app_def inner_def)
qed

lemma same_app_conns: "sworld.more w' = sworld.more w \<Longrightarrow> cw_conns w' = cw_conns w \<Longrightarrow> same_app mb w w'"
  by (auto simp: same_app_def)

locale application =
  fixes os :: "'o net_os_scheme" and user :: "'a sworld_ext env" and l :: ptr and cb mb :: nat and wc :: "nat option" and J :: "'a sworld_scheme \<Rightarrow> bool"
  assumes connection: "sound l w \<Longrightarrow> J w \<Longrightarrow> cw_conns w p = Some c \<Longrightarrow> tc_state c = kConnected \<or> tc_state c = kDisconnected \<Longrightarrow>
      tc_connectionCb c = Some cb \<Longrightarrow> works J l w (server_env user os cb p w)"
    and message: "sound l w \<Longrightarrow> J w \<Longrightarrow> cw_conns w p = Some c \<Longrightarrow> up c \<Longrightarrow> tc_messageCb c = Some k \<Longrightarrow> k mod 4 \<noteq> 2 \<Longrightarrow>
      works J l w (server_env user os k p w)"
    and complete: "sound l w \<Longrightarrow> J w \<Longrightarrow> cw_conns w p = Some c \<Longrightarrow> wc = Some k \<Longrightarrow> k mod 4 \<noteq> 2 \<Longrightarrow>
      works J l w (server_env user os k p w)"
    and stable: "J w \<Longrightarrow> same_app mb w w' \<Longrightarrow> J w'"

section \<open>The kernel, and runs\<close>

text \<open>
  The kernel of a server. A descriptor from \<open>accept\<close> was not in use (neither open nor one of \<open>W\<close>), and
  the address that comes with it can be printed; \<open>open\<close> fails or gives a descriptor that was not in use.
\<close>

definition accept_contract :: "'o net_os_scheme \<Rightarrow> inet_lib \<Rightarrow> fd set \<Rightarrow> bool" where
  "accept_contract os lib W \<longleftrightarrow>
     (\<forall>tr fd f a. os_accept os tr fd = Inr (f, a) \<longrightarrow> 0 \<le> f \<and> f \<notin> open_fds tr \<and> f \<notin> W \<and> inet_ok lib a) \<and>
     (\<forall>tr. os_open_null os tr < 0 \<or> os_open_null os tr \<notin> open_fds tr)"

text \<open>New objects get addresses that are not in use.\<close>

definition fresh_alloc :: "('a sworld_scheme \<Rightarrow> ptr \<times> ptr) \<Rightarrow> bool" where
  "fresh_alloc alloc \<longleftrightarrow> (\<forall>w p k. finite (dom (cw_conns w)) \<longrightarrow> finite (dom (w_chans w)) \<longrightarrow> alloc w = (p, k) \<longrightarrow>
     cw_conns w p = None \<and> w_chans w k = None)"

text \<open>
  A run of the server: iterations of \<open>EventLoop::loop\<close> and destruction of connections nobody refers to
  any more. The list holds the states in which the iterations began, the latest first.
\<close>

inductive server_runs ::
  "'o net_os_scheme \<Rightarrow> inet_lib \<Rightarrow> ('a sworld_scheme \<Rightarrow> ptr \<times> ptr) \<Rightarrow> 'a sworld_ext env \<Rightarrow> ptr \<Rightarrow>
   'a sworld_scheme \<Rightarrow> 'a sworld_scheme list \<Rightarrow> 'a sworld_scheme res \<Rightarrow> bool"
  for os lib alloc user l w0 where
  start: "server_runs os lib alloc user l w0 [] (Inr w0)"
| iterate: "server_runs os lib alloc user l w0 ws (Inr w) \<Longrightarrow>
    server_runs os lib alloc user l w0 (w # ws) (loop_body os (server_run os lib alloc user) (server_runF os user) l w)"
| destroy: "server_runs os lib alloc user l w0 ws (Inr w) \<Longrightarrow> unreferenced l p w \<Longrightarrow>
    server_runs os lib alloc user l w0 ws (delete_TcpConnection p w)"

locale served = application os user l cb mb wc J
  for os :: "'o net_os_scheme" and user :: "'a sworld_ext env" and l cb mb wc J +
  fixes lib :: inet_lib and alloc :: "'a sworld_scheme \<Rightarrow> ptr \<times> ptr" and s ka :: ptr and B W :: "fd set"
  assumes ctl: "epoll_ctl_contract os" and wait: "epoll_wait_contract os" and reads: "readv_contract os" and writes: "write_contract os"
    and accept: "accept_contract os lib W" and fresh: "fresh_alloc alloc"
begin

definition live :: "Functor list \<Rightarrow> 'a sworld_scheme \<Rightarrow> bool" where
  "live todo w \<longleftrightarrow> J w \<and> (\<exists>sv ac. serves l s cb mb wc B W {} todo sv ac w \<and> ac_channel ac = ka)"

definition goes :: "Functor list \<Rightarrow> ptr set \<Rightarrow> ptr set \<Rightarrow> 'a sworld_scheme \<Rightarrow> 'a sworld_scheme res \<Rightarrow> bool" where
  "goes todo H K w r \<longleftrightarrow> r = Inl LengthError \<or> (\<exists>w'. r = Inr w' \<and> live todo w' \<and> onward l s ka H K w w')"

lemma goes_Inr: "live todo w' \<Longrightarrow> onward l s ka H K w w' \<Longrightarrow> goes todo H K w (Inr w')"
  by (simp add: goes_def)

lemma goes_after: "onward l s ka H K w u \<Longrightarrow> goes todo H K u r \<Longrightarrow> goes todo H K w r"
  by (auto simp: goes_def intro: onward_trans)

lemma goes_mono: "goes todo H K w r \<Longrightarrow> H \<subseteq> H' \<Longrightarrow> K \<subseteq> K' \<Longrightarrow> goes todo H' K' w r"
  by (auto simp: goes_def intro: onward_mono)

lemma goes_bind:
  assumes "goes todo H K w m" "\<And>u. live todo u \<Longrightarrow> onward l s ka H K w u \<Longrightarrow> goes todo' H K u (f u)"
  shows "goes todo' H K w (bindR m f)"
  using assms(1) unfolding goes_def [of todo]
proof
  assume "\<exists>w'. m = Inr w' \<and> live todo w' \<and> onward l s ka H K w w'"
  then obtain u where u: "m = Inr u" "live todo u" "onward l s ka H K w u" by blast
  from goes_after [OF u(3) assms(2) [OF u(2,3)]] u(1) show ?thesis by simp
qed (simp add: goes_def)

lemma live_sound: "live todo w \<Longrightarrow> sound l w \<and> J w"
  unfolding live_def using servesD(1) by blast

lemma goes_works:
  assumes "live todo w" "works J l w r"
  shows "goes todo H K w r"
proof -
  from assms(1) obtain sv ac where sv: "serves l s cb mb wc B W {} todo sv ac w" "ac_channel ac = ka" by (auto simp: live_def)
  from assms(2) have "calms l w r" by (simp add: works_def)
  then show ?thesis
  proof (cases rule: calms_cases)
    case (2 w')
    have "J w'" using assms(2) 2(1) by (simp add: works_def)
    moreover have "serves l s cb mb wc B W {} todo sv ac w'" by (rule serves_quiet [OF sv(1) 2(2-4)])
    ultimately have "live todo w'" using sv(2) by (auto simp: live_def)
    with 2 show ?thesis using onward_quiet by (auto simp: goes_def)
  qed (simp add: goes_def)
qed

lemma goes_inner:
  assumes "live todo w" "calms l w r" "\<And>w'. r = Inr w' \<Longrightarrow> inner w w'"
  shows "goes todo H K w r"
proof (rule goes_works [OF assms(1)])
  have J: "J w" using live_sound [OF assms(1)] by blast
  have "J w'" if "r = Inr w'" for w'
    using assms(2)
  proof (cases rule: calms_cases)
    case (2 v)
    with that stable [OF J same_app_inner [OF assms(3)]] show ?thesis by auto
  qed (use that in simp)
  with assms(2) show "works J l w r" by (simp add: works_def)
qed

lemma goes_handleWrite:
  assumes "live todo w" "cw_conns w p = Some c"
  shows "goes todo H K w (handleWrite_conn os p w)"
proof (rule goes_inner [OF assms(1)])
  have so: "conns_inv w" "reading w" using live_sound [OF assms(1)] soundD by blast+
  show "calms l w (handleWrite_conn os p w)"
    using effect_safe [OF effect_handleWrite_conn [OF ctl writes so(1) assms(2)]] quiet_handleWrite [OF so assms(2)] by (simp add: calms_def)
qed (rule inner_handleWrite)

lemma goes_handleError:
  assumes "live todo w" "cw_conns w p = Some c"
  shows "goes todo H K w (handleError_conn os p w)"
proof (rule goes_inner [OF assms(1)])
  have "conns_inv w" using live_sound [OF assms(1)] soundD by blast
  then show "calms l w (handleError_conn os p w)"
    using safe_handleError_conn [where os = os, OF _ assms(2) order_forward(2)] quiet_handleError [where os = os] by (simp add: calms_def)
qed (rule inner_handleError)

text \<open>A connection closes: it is marked, its channel disabled, and the application told.\<close>

lemma close_starts:
  assumes live: "live todo w" and p: "cw_conns w p = Some c" "up c"
  obtains sv ac u ch where "disableAll os (tc_channel c) (put_conn p (c\<lparr>tc_state := kDisconnected\<rparr>) w) = Inr u"
    "serves l s cb mb wc B W {p} todo sv ac u" "ac_channel ac = ka" "J u" "onward l s ka H {tc_channel c} w u"
    "cw_conns u p = Some (c\<lparr>tc_state := kDisconnected\<rparr>)" "w_chans u (tc_channel c) = Some ch" "ch_index ch = kDeleted" "ch_events ch = 0"
    "ts_connections sv (tc_name c) = Some p" "F_connectDestroyed p \<notin> set (todo @ el_pending (w_loops u l))"
    "tc_connectionCb c = Some cb" "tc_closeCb c = Some (cb_removeConnection s)"
proof -
  let ?c = "c\<lparr>tc_state := kDisconnected\<rparr>" and ?k = "tc_channel c"
  from live obtain sv ac where sv: "serves l s cb mb wc B W {} todo sv ac w" and ka: "ac_channel ac = ka" and J: "J w"
    by (auto simp: live_def)
  note S = servesD [OF sv]
  from S(8) [OF p(1)] S(5) have st: "tc_connectionCb c = Some cb" "tc_closeCb c = Some (cb_removeConnection s)"
    by (simp_all add: conn_static_def server_static_def)
  from S(9) [OF p(1)] p(2) have in_map: "ts_connections sv (tc_name c) = Some p"
    and nq: "F_connectDestroyed p \<notin> set (todo @ el_pending (w_loops w l))" by (auto simp: conn_served_def up_def split: if_splits)
  from soundD(1) [OF S(1)] p(1) obtain ch where ch: "w_chans w ?k = Some ch" by (rule conns_invE)
  from ctl S(1) p ch obtain u ch' where u: "disableAll os ?k (put_conn p ?c w) = Inr u" "conns_inv u" "tame l {p} w u"
    "cw_conns u = (cw_conns w)(p \<mapsto> ?c)" "w_chans u = (w_chans w)(?k \<mapsto> ch')" "ch_index ch' = kDeleted" "ch_events ch' = 0"
    "chan_frame ch' = chan_frame ch" "ch_handling ch' = ch_handling ch" "cworld.more u = cworld.more w"
    "el_eventHandling (w_loops u l) = el_eventHandling (w_loops w l)" "el_pending (w_loops u l) = el_pending (w_loops w l)"
    by (rule disableAll_tame)
  have "serves l s cb mb wc B W {p} todo sv ac u" using serves_tame [OF sv u(2,3)] by simp
  moreover have "same_app mb w u" using sworld_more [OF u(10)] by (auto simp: same_app_def u(4) up_def)
  then have "J u" by (rule stable [OF J])
  moreover have "names_left s w \<Longrightarrow> names_left s u" using tameD(3) [OF u(3)] by (simp add: names_left_def)
  then have "onward l s ka H {?k} w u" using ch p(1) u(11) by (auto simp: onward_def u(4,5,8,9))
  ultimately show thesis using u ka in_map nq st by (intro that [of u sv ac ch']) simp_all
qed

text \<open>Then it leaves the map of the server.\<close>

lemma goes_removeConnection:
  assumes sv: "serves l s cb mb wc B W {p} todo sv ac v" and ka: "ac_channel ac = ka" and J: "J v"
    and c: "cw_conns v p = Some c" "tc_state c = kDisconnected" "ts_connections sv (tc_name c) = Some p"
    and ch: "w_chans v (tc_channel c) = Some ch" "ch_index ch = kDeleted"
    and nq: "F_connectDestroyed p \<notin> set (todo @ el_pending (w_loops v l))"
  shows "goes todo H K v (removeConnection os s p v)"
proof -
  define sv' where "sv' = sv\<lparr>ts_connections := (ts_connections sv)(tc_name c := None)\<rparr>"
  define w' where "w' = queueInLoop os l (F_connectDestroyed p) (put_server s sv' v)"
  note fin = serves_removed [OF sv c ch nq sv'_def w'_def]
  have "names_left s v \<Longrightarrow> names_left s w'"
    using servesD(3) [OF sv] by (simp add: names_left_def w'_def sv'_def name_fits_def)
  then have on: "onward l s ka H K v w'" by (simp add: onward_def w'_def)
  have "same_app mb v w'"
    by (rule same_app_conns) (simp_all add: w'_def put_server_def queueInLoop_def Let_def wakeup_def log_call_def upd_loop_def)
  from stable [OF J this] fin(1) ka have "live todo w'" by (auto simp: live_def)
  with fin(2) on show ?thesis by (simp add: goes_def)
qed

lemma goes_close:
  assumes live: "live todo w" and p: "cw_conns w p = Some c" "up c"
  shows "goes todo H {tc_channel c} w (handleClose_conn (server_env user os) os p w)"
proof -
  let ?env = "server_env user os" and ?c = "c\<lparr>tc_state := kDisconnected\<rparr>" and ?k = "tc_channel c"
  from live p obtain sv ac u ch where u: "disableAll os ?k (put_conn p ?c w) = Inr u"
    "serves l s cb mb wc B W {p} todo sv ac u" "ac_channel ac = ka" "J u" "onward l s ka H {?k} w u"
    "cw_conns u p = Some ?c" "w_chans u ?k = Some ch" "ch_index ch = kDeleted" "ch_events ch = 0"
    "ts_connections sv (tc_name c) = Some p" "F_connectDestroyed p \<notin> set (todo @ el_pending (w_loops u l))"
    "tc_connectionCb c = Some cb" "tc_closeCb c = Some (cb_removeConnection s)" by (rule close_starts)
  have close: "handleClose_conn ?env os p w =
      bindR (?env cb p u) (\<lambda>v. bindR (get_conn p v) (\<lambda>c3. call_cb ?env (tc_closeCb c3) p v))"
    using u(1,12) by (simp add: handleClose_steps [OF p] call_cb_def)
  have "works J l u (?env cb p u)"
    by (rule connection [OF servesD(1) [OF u(2)] u(4), of p ?c]) (simp_all add: u)
  then have "calms l u (?env cb p u)" and Jv: "\<And>v. ?env cb p u = Inr v \<Longrightarrow> J v" by (simp_all add: works_def)
  from this(1) show ?thesis
  proof (cases rule: calms_cases)
    case (2 v)
    from 2(3) obtain cv where cv: "cw_conns v p = Some cv" "conn_frame cv = conn_frame ?c" "user_forward kDisconnected (tc_state cv)"
      by (rule evolves_conn [where p = p and c = ?c]) (simp_all add: u(6))
    have cvf: "tc_state cv = kDisconnected" "tc_name cv = tc_name c" "tc_channel cv = ?k" "tc_closeCb cv = Some (cb_removeConnection s)"
      using cv(2,3) u(13) by (simp_all add: user_forward_def conn_frame_def)
    from quietD(4) [OF 2(4), of ?k] obtain kv where kv: "w_chans v (tc_channel cv) = Some kv" "ch_index kv = kDeleted"
      using u(8,9) by (auto simp: u(7) option_rel_Some1 chan_calm_def cvf(3))
    from quietD(6) [OF 2(4)] obtain fs where fs: "el_pending (w_loops v l) = el_pending (w_loops u l) @ fs" "list_all (calm_functor v) fs"
      by auto
    have "F_connectDestroyed p \<notin> set fs" using fs(2) calm_not_destroy by (fastforce simp: list_all_iff)
    with u(11) fs(1) have nq: "F_connectDestroyed p \<notin> set (todo @ el_pending (w_loops v l))" by auto
    have "handleClose_conn ?env os p w = removeConnection os s p v"
      by (simp add: close 2(1) cv(1) cvf(4) call_cb_def server_env_remove)
    moreover have "goes todo H {?k} v (removeConnection os s p v)"
      by (rule goes_removeConnection [OF serves_quiet [OF u(2) 2(2-4)] u(3) Jv [OF 2(1)] cv(1) cvf(1) _ kv nq]) (simp add: cvf(2) u(10))
    moreover have "onward l s ka H {?k} w v" by (rule onward_trans [OF u(5) onward_quiet [OF 2(3,4)]])
    ultimately show ?thesis using goes_after by simp
  qed (simp add: goes_def close)
qed

text \<open>A connection is read: what arrives is handed to the application.\<close>

lemma live_inner:
  assumes "live todo w" "conns_inv w'" "evolves user_forward w w'" "quiet l w w'" "inner w w'"
  shows "live todo w'"
  using goes_inner [OF assms(1), of "Inr w'" "{}"] assms(2-5) by (simp add: goes_def calms_def safe_def)

lemma goes_read:
  assumes live: "live todo w" and p: "cw_conns w p = Some c" "up c"
  shows "goes todo H {tc_channel c} w (handleRead_conn (server_env user os) os p w)"
proof -
  let ?env = "server_env user os"
  from live obtain sv ac where sv: "serves l s cb mb wc B W {} todo sv ac w" by (auto simp: live_def)
  have inv: "conns_inv w" using soundD(1) [OF servesD(1) [OF sv]] .
  from servesD(8) [OF sv p(1)] obtain k where k: "tc_messageCb c = Some k" "k mod 4 \<noteq> 2"
    by (auto simp: conn_static_def msg_ok_def)
  from inv p(1) obtain ch where ch: "w_chans w (tc_channel c) = Some ch" and bi: "buffer_inv (tc_inputBuffer c)" by (rule conns_invE)
  let ?readv = "os_readv os (w_trace w) (ch_fd ch)"
  let ?w1 = "log_call (SysReadv (ch_fd ch) (iov_lens (tc_inputBuffer c)) (?readv (iov_lens (tc_inputBuffer c)))) w"
  have "?readv v = Inr d \<Longrightarrow> length d \<le> sum_list v" for v d using reads unfolding readv_contract_def by blast
  from readFd_outcome [where readv = ?readv, OF bi this] consider (err) "readFd ?readv (tc_inputBuffer c) = Inl LengthError"
    | (ok) n e b where "readFd ?readv (tc_inputBuffer c) = Inr (n, e, b)" "buffer_inv b" by blast
  then show ?thesis
  proof cases
    case err
    with p(1) ch show ?thesis by (simp add: handleRead_conn_def Let_def goes_def)
  next
    case ok
    let ?c = "c\<lparr>tc_inputBuffer := b\<rparr>" and ?w2 = "put_conn p (c\<lparr>tc_inputBuffer := b\<rparr>) ?w1"
    have p1: "cw_conns ?w1 p = Some c" using p(1) by simp
    have inv2: "conns_inv ?w2" by (rule conns_inv_input [OF _ p1 ok(2)]) (use inv in simp)
    have ev: "evolves user_forward w ?w2"
      by (rule evolves_trans [OF _ evolves_log evolves_put_conn [OF _ p1]]) (auto simp: conn_frame_def user_forward_def)
    have qu: "quiet l w ?w2" by (rule quiet_trans [OF quiet_log quiet_put_conn [OF p1]]) simp_all
    have "inner w ?w2" by (rule inner_trans [OF inner_simps(2) inner_put_conn [OF p1]]) simp
    with live_inner [OF live inv2 ev qu] have live2: "live todo ?w2" .
    have p2: "cw_conns ?w2 p = Some ?c" "up ?c" "tc_messageCb ?c = Some k" using p(2) k(1) by (simp_all add: up_def)
    have "goes todo H {tc_channel c} ?w2 (?env k p ?w2)"
      using message [OF _ _ p2 k(2)] live_sound [OF live2] goes_works [OF live2] by blast
    moreover have "goes todo H {tc_channel c} ?w2 (handleClose_conn ?env os p ?w2)" using goes_close [OF live2 p2(1,2)] by simp
    moreover have "goes todo H {tc_channel c} ?w2 (handleError_conn os p ?w2)" using goes_handleError [OF live2 p2(1)] .
    ultimately have "goes todo H {tc_channel c} ?w2 (handleRead_conn ?env os p w)"
      using p(1) ch ok(1) k(1) by (simp add: handleRead_conn_def Let_def call_cb_def)
    then show ?thesis by (rule goes_after [OF onward_quiet [OF ev qu]])
  qed
qed

text \<open>The flag of a channel whose event is handled.\<close>

lemma live_handling:
  assumes live: "live todo w" and k: "w_chans w k = Some ch"
  shows "live todo (put_chan k (ch\<lparr>ch_handling := b\<rparr>) w)" "onward l s ka {k} {k} w (put_chan k (ch\<lparr>ch_handling := b\<rparr>) w)"
proof -
  let ?w = "put_chan k (ch\<lparr>ch_handling := b\<rparr>) w"
  from live obtain sv ac where sv: "serves l s cb mb wc B W {} todo sv ac w" "ac_channel ac = ka" and J: "J w" by (auto simp: live_def)
  have inv: "conns_inv ?w" using conns_inv_handling(1) [OF soundD(1) [OF servesD(1) [OF sv(1)]] k] .
  have "conn_change {} p c c" for p c by (simp add: conn_change_def user_forward_def)
  then have "tame l {} w ?w"
    using k by (auto simp: tame_def option.rel_refl chan_change_def chan_static_def chan_tame_def isReading_def)
  from serves_tame [OF sv(1) inv this] have "serves l s cb mb wc B W {} todo sv ac ?w" by simp
  moreover have "J ?w" by (rule stable [OF J same_app_conns]) (simp_all add: put_chan_def)
  ultimately show "live todo ?w" using sv(2) by (auto simp: live_def)
  show "onward l s ka {k} {k} w ?w" using k by (auto simp: onward_def names_left_def chan_frame_def)
qed

lemma goes_handling:
  assumes "live todo w" "w_chans w k = Some ch"
  shows "goes todo {k} {k} w (upd_chan k (\<lambda>ch. ch\<lparr>ch_handling := b\<rparr>) w)"
  using live_handling [OF assms] assms(2) by (simp add: goes_def)

lemma goes_fire:
  assumes "live todo w" "w_chans w k = Some ch" "\<And>kb. sel ch = Some kb \<Longrightarrow> test (ch_revents ch) \<Longrightarrow> goes todo H K w (run kb w)"
  shows "goes todo H K w (fire run test sel k w)"
  using assms by (simp add: fire_def goes_def split: option.splits)

text \<open>An event of a connection.\<close>

lemma conn_channel:
  assumes live: "live todo u" and p: "cw_conns w p = Some c" and k: "w_chans w (tc_channel c) = Some ch"
    and on: "onward l s ka {tc_channel c} {tc_channel c} w u"
  obtains cu chu where "cw_conns u p = Some cu" "tc_channel cu = tc_channel c" "w_chans u (tc_channel c) = Some chu" "linked p cu chu"
    "ch_revents chu = ch_revents ch"
proof -
  from onwardD(5) [OF on p] obtain cu where cu: "cw_conns u p = Some cu" "tc_channel cu = tc_channel c" by blast
  have "conns_inv u" using live_sound [OF live] soundD(1) by blast
  from this cu(1) obtain chu where "w_chans u (tc_channel cu) = Some chu" "linked p cu chu" by (rule conns_invE)
  with cu onwardD(3) [OF on k] that show thesis by (auto simp: chan_frame_def)
qed

lemma goes_event_tail:
  assumes live: "live todo u" and p: "cw_conns w p = Some c" and ch: "w_chans w (tc_channel c) = Some ch"
    and on: "onward l s ka {tc_channel c} {tc_channel c} w u"
  shows "goes todo {tc_channel c} {tc_channel c} u (bindR (fire (server_run os lib alloc user) writable ch_writeCb (tc_channel c) u) (\<lambda>v.
    bindR (fire (server_run os lib alloc user) erroneous ch_errorCb (tc_channel c) v)
      (upd_chan (tc_channel c) (\<lambda>ch. ch\<lparr>ch_handling := False\<rparr>))))"
proof (rule goes_bind)
  from live p ch on obtain cu chu where u: "cw_conns u p = Some cu" "tc_channel cu = tc_channel c" "w_chans u (tc_channel c) = Some chu"
    "linked p cu chu" by (rule conn_channel)
  show "goes todo {tc_channel c} {tc_channel c} u (fire (server_run os lib alloc user) writable ch_writeCb (tc_channel c) u)"
    using goes_handleWrite [OF live u(1)] u(4) by (intro goes_fire [OF live u(3)]) (auto simp: linked_def)
  fix v assume v: "live todo v" "onward l s ka {tc_channel c} {tc_channel c} u v"
  from v(1) p ch onward_trans [OF on v(2)] obtain cv chv where cv: "cw_conns v p = Some cv" "w_chans v (tc_channel c) = Some chv"
    "linked p cv chv" by (rule conn_channel)
  show "goes todo {tc_channel c} {tc_channel c} v (bindR (fire (server_run os lib alloc user) erroneous ch_errorCb (tc_channel c) v)
      (upd_chan (tc_channel c) (\<lambda>ch. ch\<lparr>ch_handling := False\<rparr>)))"
  proof (rule goes_bind)
    show "goes todo {tc_channel c} {tc_channel c} v (fire (server_run os lib alloc user) erroneous ch_errorCb (tc_channel c) v)"
      using goes_handleError [OF v(1) cv(1)] cv(3) by (intro goes_fire [OF v(1) cv(2)]) (auto simp: linked_def)
    fix x assume x: "live todo x" "onward l s ka {tc_channel c} {tc_channel c} v x"
    from onwardD(3) [OF x(2) cv(2)] goes_handling [OF x(1)]
    show "goes todo {tc_channel c} {tc_channel c} x (upd_chan (tc_channel c) (\<lambda>ch. ch\<lparr>ch_handling := False\<rparr>) x)" by blast
  qed
qed

lemma goes_event_conn:
  assumes live: "live todo w" and p: "cw_conns w p = Some c" "up c" and ch: "w_chans w (tc_channel c) = Some ch"
    and r: "ch_revents ch AND NOT (POLLIN OR POLLOUT OR POLLERR OR POLLHUP) = 0"
  shows "goes todo {tc_channel c} {tc_channel c} w (handleEvent (server_run os lib alloc user) (tc_channel c) w)"
proof -
  let ?k = "tc_channel c" and ?run = "server_run os lib alloc user" and ?w0 = "put_chan (tc_channel c) (ch\<lparr>ch_handling := True\<rparr>) w"
  let ?tail = "\<lambda>u. bindR (fire ?run writable ch_writeCb ?k u) (\<lambda>v.
    bindR (fire ?run erroneous ch_errorCb ?k v) (upd_chan ?k (\<lambda>ch. ch\<lparr>ch_handling := False\<rparr>)))"
  note w0 = live_handling [OF live ch, of True]
  have tail: "goes todo {?k} {?k} u (?tail u)" if "live todo u" "onward l s ka {?k} {?k} ?w0 u" for u
    by (rule goes_event_tail [OF that(1) p(1) ch onward_trans [OF w0(2) that(2)]])
  from w0(1) p(1) ch w0(2) obtain c0 ch0 where c0: "cw_conns ?w0 p = Some c0" "w_chans ?w0 ?k = Some ch0" "linked p c0 ch0"
    "ch_revents ch0 = ch_revents ch" by (rule conn_channel)
  have c: "c0 = c" using c0(1) p(1) by simp
  have "goes todo {?k} {?k} ?w0 (bindR (fire ?run hup_only ch_closeCb ?k ?w0) (\<lambda>u. bindR (fire ?run readable ch_readCb ?k u) ?tail))"
  proof (cases "readable (ch_revents ch)")
    case True
    have skip: "fire ?run hup_only ch_closeCb ?k ?w0 = Inr ?w0"
      using expected_events [OF r] True c0(2,4) by (simp add: fire_def)
    have "goes todo {?k} {?k} ?w0 (fire ?run readable ch_readCb ?k ?w0)"
      using goes_read [OF w0(1) c0(1)] p(2) c0(3) by (intro goes_fire [OF w0(1) c0(2)]) (auto simp: linked_def c)
    from goes_bind [OF this tail] skip show ?thesis by simp
  next
    case False
    have "goes todo {?k} {?k} ?w0 (fire ?run hup_only ch_closeCb ?k ?w0)"
      using goes_close [OF w0(1) c0(1)] p(2) c0(3) by (intro goes_fire [OF w0(1) c0(2)]) (auto simp: linked_def c)
    then show ?thesis
    proof (rule goes_bind)
      fix u assume u: "live todo u" "onward l s ka {?k} {?k} ?w0 u"
      from onwardD(3) [OF onward_trans [OF w0(2) u(2)] ch] False have "fire ?run readable ch_readCb ?k u = Inr u"
        by (auto simp: fire_def chan_frame_def)
      with tail [OF u] show "goes todo {?k} {?k} u (bindR (fire ?run readable ch_readCb ?k u) ?tail)" by simp
    qed
  qed
  from goes_after [OF w0(2) this] ch show ?thesis by (simp add: handleEvent_def)
qed

text \<open>Plain channels: the wake-up channel of the loop, and the acceptor.\<close>

lemma goes_log:
  assumes "live todo w" "fd_effect c = id" "\<And>l m. ctl_effect l c m = m"
  shows "goes todo H K w (Inr (log_call c w))"
proof (rule goes_inner [OF assms(1)])
  have "conns_inv w" using live_sound [OF assms(1)] soundD(1) by blast
  then show "calms l w (Inr (log_call c w))" using assms(2,3) by (simp add: calms_def safe_def quiet_log)
qed auto

lemma goes_wakeup: "live todo w \<Longrightarrow> goes todo H K w (handleRead_loop os l w)"
  by (simp add: handleRead_loop_def Let_def goes_log)

text \<open>A new connection is registered and established.\<close>

lemma accept_registers:
  assumes sv: "serves l s cb mb wc B W {} todo sv ac w" and names: "names_left s w"
    and f: "f \<notin> open_fds (w_trace w)" "f \<notin> W" "inet_ok lib a" and w1: "w1 = log_call (SysAccept lfd (Inr f)) w"
  obtains p k c w3 c0 ch where "newConnection os lib alloc (server_env user os) s f a w1 = connectEstablished (server_env user os) os p w3"
    "cw_conns w p = None" "w_chans w k = None" "conns_inv w3" "server_inv s w3" "\<not> ch_handling ch"
    "w3 = put_conn p c (put_server s (registered sv p) (put_conn p c0 (put_chan k ch w1)))"
    "tc_state c = kConnecting" "tc_sockfd c = f" "tc_channel c = k" "tc_name c = conn_name sv (ts_nextConnId sv)" "tc_loop c = l"
    "tc_connectionCb c = Some cb" "tc_messageCb c = Some mb" "tc_closeCb c = Some (cb_removeConnection s)"
    "tc_writeCompleteCb c = ts_writeCompleteCb sv" "ts_connections sv (conn_name sv (ts_nextConnId sv)) = None"
proof -
  let ?env = "server_env user os"
  note S = servesD [OF sv]
  obtain p k where al: "alloc w1 = (p, k)" by fastforce
  have "finite (dom (cw_conns w1))" "finite (dom (w_chans w1))" using S(16,17) by (simp_all add: w1)
  with fresh al have new1: "cw_conns w1 p = None" "w_chans w1 k = None" unfolding fresh_alloc_def by blast+
  have inv1: "conns_inv w1" "server_inv s w1" "sw_servers w1 s = Some sv"
    using soundD(1) [OF S(1)] S(2,3) by (simp_all add: w1 server_inv_def)
  have free: "\<And>l. l \<in> set (pool_loops (ts_pool sv)) \<Longrightarrow> fd_free l f w1" using serves_fd_free [OF sv f(1,2)] by (simp add: w1 fd_free_def)
  have fits: "name_fits sv (ts_nextConnId sv)" using names S(3) by (simp add: names_left_def)
  have pool: "pool_loops (ts_pool sv) = [l]" and cbs: "ts_connectionCb sv = Some cb" "ts_messageCb sv = Some mb"
    using S(5) by (simp_all add: server_static_def)
  have "pool_inv (ts_pool sv)" using S(2,3) by (auto simp: server_inv_def)
  from pool_inv_next [OF this] have nl: "pool_loops (ts_pool sv) ! nat (tp_next (ts_pool sv)) = l" by (simp add: pool)
  have lp: "isInLoopThread l w" using soundD(3) [OF S(1)] .
  from inv1 al new1 f(3) free fits
  obtain c w3 l' where r: "newConnection os lib alloc ?env s f a w1 =
      runInLoop os (\<lambda>_. connectEstablished ?env os p) l' (F_connectEstablished p) w3"
    and w3: "conns_inv w3" "server_inv s w3" "cw_conns w3 p = Some c" "w_tid w3 = w_tid w1" "w_loops w3 = w_loops w1"
    and l': "l' = pool_loops (ts_pool sv) ! nat (tp_next (ts_pool sv))" "tc_loop c = l'" and c: "tc_state c = kConnecting" "tc_sockfd c = f"
      "tc_connectionCb c = ts_connectionCb sv" "tc_messageCb c = ts_messageCb sv" "tc_closeCb c = Some (cb_removeConnection s)"
    and reg: "sw_servers w3 s = Some (registered sv p)" "ts_connections sv (conn_name sv (ts_nextConnId sv)) = None"
      "tc_name c = conn_name sv (ts_nextConnId sv)" "tc_channel c = k" "tc_writeCompleteCb c = ts_writeCompleteCb sv"
    and w3': "\<exists>c0 ch. \<not> ch_handling ch \<and> w3 = put_conn p c (put_server s (registered sv p) (put_conn p c0 (put_chan k ch w1)))"
    by (rule server_registers)
  from w3' obtain c0 ch where ch: "\<not> ch_handling ch" "w3 = put_conn p c (put_server s (registered sv p) (put_conn p c0 (put_chan k ch w1)))"
    by blast
  have "isInLoopThread l w3" using lp w3(4,5) by (simp add: isInLoopThread_def w1)
  with r l' nl have "newConnection os lib alloc ?env s f a w1 = connectEstablished ?env os p w3" by (simp add: runInLoop_def)
  then show thesis
    by (rule that [of p w3 k ch c c0]) (use new1 w3 ch c reg cbs l' nl in \<open>simp_all add: w1\<close>)
qed

lemma accept_establishes:
  assumes sv: "serves l s cb mb wc B W {} todo sv ac w" and ka: "ac_channel ac = ka" and J: "J w" and names: "names_left s w"
    and f: "0 \<le> f" "f \<notin> open_fds (w_trace w)" "f \<notin> W" "inet_ok lib a" and w1: "w1 = log_call (SysAccept lfd (Inr f)) w"
  obtains p c u where "newConnection os lib alloc (server_env user os) s f a w1 = server_env user os cb p u"
    "live todo u" "onward l s ka H {ka} w u" "cw_conns u p = Some c" "tc_state c = kConnected" "tc_connectionCb c = Some cb"
proof -
  let ?env = "server_env user os"
  note S = servesD [OF sv]
  from sv names f(2-4) w1 obtain p k c w3 c0 ch where
    r: "newConnection os lib alloc ?env s f a w1 = connectEstablished ?env os p w3"
    and new: "cw_conns w p = None" "w_chans w k = None" and inv3: "conns_inv w3" "server_inv s w3" and ch: "\<not> ch_handling ch"
    and w3: "w3 = put_conn p c (put_server s (registered sv p) (put_conn p c0 (put_chan k ch w1)))"
    and c: "tc_state c = kConnecting" "tc_sockfd c = f" "tc_channel c = k" "tc_name c = conn_name sv (ts_nextConnId sv)" "tc_loop c = l"
      "tc_connectionCb c = Some cb" "tc_messageCb c = Some mb" "tc_closeCb c = Some (cb_removeConnection s)"
      "tc_writeCompleteCb c = ts_writeCompleteCb sv" "ts_connections sv (conn_name sv (ts_nextConnId sv)) = None"
    by (rule accept_registers)
  let ?sv = "registered sv p" and ?c = "c\<lparr>tc_state := kConnected\<rparr>" and ?ch = "ch\<lparr>ch_events := ch_events ch OR ReadEvent, ch_added := True\<rparr>"
  have p3: "cw_conns w3 p = Some c" "w_chans w3 (tc_channel c) = Some ch" by (simp_all add: w3 c(3))
  from ctl inv3(1) p3(1) c(1) obtain u where u: "connectEstablished ?env os p w3 = call_cb ?env (tc_connectionCb c) p u" "conns_inv u"
    "evolves forward w3 u" "cworld.more u = cworld.more w3"
    "\<And>ch. w_chans w3 (tc_channel c) = Some ch \<Longrightarrow> u = updated_world (tc_loop c) (tc_channel c)
       (ch\<lparr>ch_events := ch_events ch OR ReadEvent, ch_added := True\<rparr>) (put_conn p ?c w3)"
    by (rule connectEstablished_up) blast
  note ue = u(5) [OF p3(2), unfolded c(3,5)]
  have sinv: "server_inv s u" by (rule server_inv_evolves [OF inv3(2) u(3) sw_servers_more [OF u(4)]])
  have conns: "cw_conns u = (cw_conns w)(p \<mapsto> ?c)" by (simp add: ue w3 w1)
  have chans: "w_chans u = (w_chans w)(k \<mapsto> ?ch\<lparr>ch_index := next_index ?ch\<rparr>)" by (simp add: ue w3 w1)
  have static: "conn_static l s sv ?c" using c S(5) by (simp add: conn_static_def server_static_def msg_ok_def)
  have acc: "sw_acceptors u = sw_acceptors w" by (simp add: ue w3 w1 updated_world_def put_conn_def put_server_def put_chan_def log_call_def)
  have more: "sworld.more u = sworld.more w" by (simp add: ue w3 w1 updated_world_def put_conn_def put_server_def put_chan_def log_call_def)
  have srv: "sw_servers u s = Some ?sv" by (simp add: sw_servers_more [OF u(4)] w3)
  have tr: "open_fds (w_trace u) = insert f (open_fds (w_trace w))" "closes_open (w_trace u)" using S(18) by (simp_all add: ue w3 w1)
  have su: "serves l s cb mb wc B W {} todo ?sv ac u"
    by (rule serves_accepted [OF sv new f(1,2) c(10) u(2) sinv conns chans _ _ _ _ _ static _ _ _ srv acc tr])
      (use c in \<open>simp_all add: ue w3 w1 updated_world_def isReading_bit bit_simps\<close>)
  have "same_app mb w u" using more c(7) by (auto simp: same_app_def conns split: if_splits)
  with su ka have "live todo u" using stable [OF J] by (auto simp: live_def)
  moreover have "onward l s ka H {ka} w u"
    using new ch by (auto simp: onward_def conns chans) (simp_all add: ue w3 w1 updated_world_def)
  ultimately show thesis
    using that [of p u ?c] r u(1) c(6) by (simp add: conns call_cb_def)
qed

text \<open>Out of descriptors: the idle one is given up to take the connection and close it.\<close>

lemma goes_emfile:
  assumes sv: "serves l s cb mb wc B W {} todo sv ac w" and ka: "ac_channel ac = ka" and J: "J w"
    and emfile: "os_accept os (w_trace w) (ac_sockfd ac) = Inl EMFILE"
  shows "goes todo H K w (handleRead_acceptor os newConn (ts_acceptor sv) w)"
proof -
  let ?lfd = "ac_sockfd ac"
  note S = servesD [OF sv]
  define w2 where "w2 = log_call (SysClose (ac_idleFd ac)) (log_call (SysAccept ?lfd (Inl EMFILE)) w)"
  define r where "r = os_accept os (w_trace w2) ?lfd"
  define i where "i = (case r of Inr (f, _) \<Rightarrow> f | Inl _ \<Rightarrow> - 1)"
  define w4 where "w4 = log_call (SysClose i) (log_call (SysAccept ?lfd (map_sum id fst r)) w2)"
  define j where "j = os_open_null os (w_trace w4)"
  define w' where "w' = put_acceptor (ts_acceptor sv) (ac\<lparr>ac_idleFd := j\<rparr>) (log_call (SysOpenDevNull j) w4)"
  have run: "handleRead_acceptor os newConn (ts_acceptor sv) w = Inr w'"
    using S(4) emfile by (simp add: handleRead_acceptor_def accept_socket_def open_null_def Let_def w'_def j_def w4_def i_def r_def w2_def)
  have o2: "open_fds (w_trace w2) = B \<union> conn_fds w" using S(10,11) by (simp add: w2_def)
  have "open_fds (w_trace w4) = B \<union> conn_fds w"
  proof (cases r)
    case (Inl e)
    with S(13) [of "- 1"] o2 show ?thesis by (auto simp: w4_def i_def)
  next
    case (Inr fa)
    then obtain f a where fa: "r = Inr (f, a)" by (cases fa) simp
    with accept have "f \<notin> open_fds (w_trace w2)" unfolding accept_contract_def r_def by blast
    with fa o2 show ?thesis by (simp add: w4_def i_def)
  qed
  moreover have "j < 0 \<or> j \<notin> open_fds (w_trace w4)" using accept unfolding accept_contract_def j_def by blast
  moreover have "closes_open (w_trace w4)"
    using S(10,18) by (cases r) (auto simp: w4_def i_def w2_def)
  ultimately have fd: "open_fds (w_trace w') = insert j (B \<union> conn_fds w)" "j \<notin> B \<union> conn_fds w" "closes_open (w_trace w')"
    using S(13) [of j] by (auto simp: w'_def put_acceptor_def)
  have same: "w_chans w' = w_chans w" "cw_conns w' = cw_conns w" "w_loops w' = w_loops w" "w_tid w' = w_tid w" "sw_servers w' = sw_servers w"
    "sworld.more w' = sworld.more w" "interest l' (w_trace w') = interest l' (w_trace w)" for l'
    by (simp_all add: w'_def put_acceptor_def w4_def w2_def log_call_def interest_def)
  have inv: "conns_inv w'" by (rule conns_inv_cong [OF soundD(1) [OF S(1)]]) (simp_all add: same)
  have "serves l s cb mb wc B W {} todo sv (ac\<lparr>ac_idleFd := j\<rparr>) w'"
    by (rule serves_idle [OF sv inv same(1-5) _ fd]) (simp add: w'_def put_acceptor_def)
  moreover have "J w'" by (rule stable [OF J same_app_conns]) (simp_all add: same)
  ultimately have "live todo w'"
    unfolding live_def using ka by (intro conjI exI [of _ sv] exI [of _ "ac\<lparr>ac_idleFd := j\<rparr>"]) simp_all
  then show ?thesis by (simp add: run goes_def onward_def same names_left_def)
qed

lemma goes_accept:
  assumes sv: "serves l s cb mb wc B W {} todo sv ac w" and ka: "ac_channel ac = ka" and J: "J w" and names: "names_left s w"
  shows "goes todo H {ka} w (handleRead_acceptor os (newConnection os lib alloc (server_env user os)) (ts_acceptor sv) w)"
proof -
  let ?env = "server_env user os" and ?lfd = "ac_sockfd ac"
  note S = servesD [OF sv]
  have live: "live todo w" using sv ka J by (auto simp: live_def)
  consider (conn) f a where "os_accept os (w_trace w) ?lfd = Inr (f, a)" | (emfile) "os_accept os (w_trace w) ?lfd = Inl EMFILE"
    | (err) e where "os_accept os (w_trace w) ?lfd = Inl e" "e \<noteq> EMFILE" by (metis old.sum.exhaust surj_pair)
  then show ?thesis
  proof cases
    case conn
    have f: "0 \<le> f" "f \<notin> open_fds (w_trace w)" "f \<notin> W" "inet_ok lib a" using accept conn unfolding accept_contract_def by blast+
    from sv ka J names f refl obtain p c u where u: "newConnection os lib alloc ?env s f a (log_call (SysAccept ?lfd (Inr f)) w) = ?env cb p u"
      "live todo u" "onward l s ka H {ka} w u" "cw_conns u p = Some c" "tc_state c = kConnected" "tc_connectionCb c = Some cb"
      by (rule accept_establishes)
    have "works J l u (?env cb p u)" using connection [OF _ _ u(4) _ u(6)] live_sound [OF u(2)] u(5) by blast
    from goes_after [OF u(3) goes_works [OF u(2) this]] u(1) S(4,6) conn show ?thesis
      by (simp add: handleRead_acceptor_def accept_socket_def Let_def)
  next
    case emfile
    show ?thesis by (rule goes_emfile [OF sv ka J emfile])
  next
    case err
    with S(4) goes_log [OF live] show ?thesis
      by (simp add: handleRead_acceptor_def accept_socket_def Let_def fun_eq_iff)
  qed
qed

lemma goes_event_plain:
  assumes live: "live todo w" and ch: "w_chans w k = Some ch"
    and cbs: "ch_writeCb ch = None" "ch_closeCb ch = None" "ch_errorCb ch = None" "ch_readCb ch = Some kb"
    and run: "\<And>u. live todo u \<Longrightarrow> onward l s ka {k} {k} w u \<Longrightarrow> cw_conns u = cw_conns w \<Longrightarrow> sw_servers u = sw_servers w \<Longrightarrow>
      sw_acceptors u = sw_acceptors w \<Longrightarrow> goes todo {k} {k} u (server_run os lib alloc user kb u)"
  shows "goes todo {k} {k} w (handleEvent (server_run os lib alloc user) k w)"
proof -
  let ?w = "put_chan k (ch\<lparr>ch_handling := True\<rparr>) w" and ?run = "server_run os lib alloc user"
  note w0 = live_handling [OF live ch, of True]
  have go: "goes todo {k} {k} ?w (?run kb ?w)" by (rule run [OF w0]) simp_all
  have "\<exists>chu. w_chans u k = Some chu \<and> chan_frame chu = chan_frame ch" if "?run kb ?w = Inr u" for u
    using go that onwardD(3) [of l s ka "{k}" "{k}" ?w u k "ch\<lparr>ch_handling := True\<rparr>"] by (auto simp: goes_def chan_frame_def)
  then have ev: "handleEvent ?run k w =
      bindR (if readable (ch_revents ch) then ?run kb ?w else Inr ?w) (upd_chan k (\<lambda>ch. ch\<lparr>ch_handling := False\<rparr>))"
    by (rule handleEvent_read_only [OF ch cbs])
  have "goes todo {k} {k} ?w (if readable (ch_revents ch) then ?run kb ?w else Inr ?w)" using go w0(1) by (simp add: goes_def)
  then have "goes todo {k} {k} ?w (handleEvent ?run k w)"
    unfolding ev
  proof (rule goes_bind)
    fix u assume u: "live todo u" "onward l s ka {k} {k} ?w u"
    from onwardD(3) [OF onward_trans [OF w0(2) u(2)] ch] goes_handling [OF u(1)]
    show "goes todo {k} {k} u (upd_chan k (\<lambda>ch. ch\<lparr>ch_handling := False\<rparr>) u)" by blast
  qed
  then show ?thesis by (rule goes_after [OF w0(2)])
qed

lemma goes_event:
  assumes live: "live todo w" and k: "ready s ka w k"
  shows "goes todo {k} {k} w (handleEvent (server_run os lib alloc user) k w)"
proof -
  from live obtain sv ac where sv: "serves l s cb mb wc B W {} todo sv ac w" "ac_channel ac = ka" by (auto simp: live_def)
  note S = servesD [OF sv(1)]
  from k obtain ch where ch: "w_chans w k = Some ch" and c: "\<And>p c. cw_conns w p = Some c \<Longrightarrow> tc_channel c = k \<Longrightarrow>
      up c \<and> ch_revents ch AND NOT (POLLIN OR POLLOUT OR POLLERR OR POLLHUP) = 0" by (auto simp: ready_def)
  from S(7) [OF ch] show ?thesis
  proof
    assume "\<exists>p c. cw_conns w p = Some c \<and> tc_channel c = k"
    then obtain p d where d: "cw_conns w p = Some d" "tc_channel d = k" by blast
    with c [OF d] ch goes_event_conn [OF live d(1)] show ?thesis by simp
  next
    assume pl: "plain_channel l (ts_acceptor sv) ac (W \<union> B) k ch"
    then have cbs: "ch_writeCb ch = None" "ch_closeCb ch = None" "ch_errorCb ch = None"
      "ch_readCb ch = Some (if k = ka then AcceptorHandleRead (ts_acceptor sv) else LoopHandleRead l)"
      by (simp_all add: plain_channel_def sv(2))
    show ?thesis
    proof (rule goes_event_plain [OF live ch cbs])
      fix u assume u: "live todo u" "sw_servers u = sw_servers w" "sw_acceptors u = sw_acceptors w"
      from u(1) obtain sv' ac' where "serves l s cb mb wc B W {} todo sv' ac' u" "ac_channel ac' = ka" and J: "J u" by (auto simp: live_def)
      moreover from servesD(3,4) [OF this(1)] u(2,3) S(3,4) have "sv' = sv" "ac' = ac" by auto
      ultimately have su: "serves l s cb mb wc B W {} todo sv ac u" "ac_channel ac = ka" by simp_all
      have "k = ka \<Longrightarrow> names_left s u" using k u(2) by (simp add: ready_def names_left_def)
      with goes_accept [OF su J] goes_wakeup [OF u(1)]
      show "goes todo {k} {k} u (server_run os lib alloc user (if k = ka then AcceptorHandleRead (ts_acceptor sv) else LoopHandleRead l) u)"
        by (cases "k = ka") simp_all
    qed
  qed
qed

text \<open>What the other channels were reported for stays valid.\<close>

lemma ready_onward:
  assumes "live todo w" "live todo' u" "ready s ka w j" "onward l s ka H K w u" "j \<notin> K"
  shows "ready s ka u j"
proof -
  from assms(1) obtain sv ac where sv: "serves l s cb mb wc B W {} todo sv ac w" by (auto simp: live_def)
  from assms(3) obtain ch where ch: "w_chans w j = Some ch" and c: "\<And>p c. cw_conns w p = Some c \<Longrightarrow> tc_channel c = j \<Longrightarrow>
      up c \<and> ch_revents ch AND NOT (POLLIN OR POLLOUT OR POLLERR OR POLLHUP) = 0" by (auto simp: ready_def)
  from onwardD(3) [OF assms(4) ch] obtain chu where chu: "w_chans u j = Some chu" "chan_frame chu = chan_frame ch" by blast
  have "up d \<and> ch_revents chu AND NOT (POLLIN OR POLLOUT OR POLLERR OR POLLHUP) = 0" if d: "cw_conns u p = Some d" "tc_channel d = j" for p d
  proof -
    have "conns_inv u" using live_sound [OF assms(2)] soundD(1) by blast
    from this d(1) obtain dh where "w_chans u (tc_channel d) = Some dh" "linked p d dh" by (rule conns_invE)
    with d(2) chu have cb: "ch_readCb ch = Some (ConnHandleRead p)" by (simp add: linked_def chan_frame_def)
    then have "\<not> plain_channel l (ts_acceptor sv) ac (W \<union> B) j ch" by (simp add: plain_channel_def)
    with servesD(7) [OF sv ch] obtain q e where e: "cw_conns w q = Some e" "tc_channel e = j" by blast
    from soundD(1) [OF servesD(1) [OF sv]] e(1) obtain eh where "w_chans w (tc_channel e) = Some eh" "linked q e eh" by (rule conns_invE)
    with e(2) ch cb have "q = p" by (simp add: linked_def)
    with onwardD(5) [OF assms(4) e(1)] d e(2) assms(5) c [OF e] chu(2) show ?thesis by (auto simp: chan_frame_def)
  qed
  moreover have "j = ka \<Longrightarrow> names_left s u" using assms(3-5) onwardD(2) [OF assms(4)] by (auto simp: ready_def)
  ultimately show ?thesis using chu(1) by (auto simp: ready_def)
qed

text \<open>Updates of the loop that keep its thread, its queue and the map of its poller.\<close>

lemma live_upd_loop:
  assumes live: "live todo w" and "todo' @ el_pending (f (w_loops w l)) = todo @ el_pending (w_loops w l)"
    and "el_threadId (f (w_loops w l)) = el_threadId (w_loops w l)" "pl_channels (el_poller (f (w_loops w l))) = pl_channels (el_poller (w_loops w l))"
  shows "live todo' (upd_loop l f w)"
proof -
  let ?w = "upd_loop l f w"
  from live obtain sv ac where sv: "serves l s cb mb wc B W {} todo sv ac w" "ac_channel ac = ka" and J: "J w" by (auto simp: live_def)
  note S = servesD [OF sv(1)]
  have inv: "conns_inv ?w" by (rule conns_inv_cong [OF soundD(1) [OF S(1)]]) (use assms(4) in simp_all)
  then have "sound l ?w" using S(1) assms(3) by (simp add: sound_def reading_def isInLoopThread_def)
  moreover have "conn_served sv (todo' @ el_pending (w_loops ?w l)) p c ?w" if "cw_conns ?w p = Some c" for p c
    using S(9) [of p c] that assms(2) by (simp add: conn_served_def)
  moreover have "functor_ok ?w = functor_ok w" by (rule ext) (simp add: functor_ok_def calm_functor_def)
  moreover have "server_inv s ?w" using S(2) by (simp add: server_inv_def)
  moreover have "conn_fds ?w = conn_fds w" by (simp add: conn_fds_def)
  moreover have "list_all (functor_ok w) (todo' @ el_pending (f (w_loops w l)))" "distinct (filter is_destroy (todo' @ el_pending (f (w_loops w l))))"
    unfolding assms(2) by (rule S(14), rule S(15))
  ultimately have "serves l s cb mb wc B W {} todo' sv ac ?w"
    unfolding serves_def using S(3-8,10-13,16-18) by simp
  moreover have "J ?w" by (rule stable [OF J same_app_conns]) (simp_all add: upd_loop_def)
  ultimately show ?thesis using sv(2) by (auto simp: live_def)
qed

lemma onward_upd_loop:
  "el_eventHandling (f (w_loops w l)) = el_eventHandling (w_loops w l) \<Longrightarrow> onward l s ka H K w (upd_loop l f w)"
  by (simp add: onward_def names_left_def)

text \<open>All events of one iteration.\<close>

lemma goes_active:
  assumes "live todo w" "distinct ks" "\<forall>k \<in> set ks. ready s ka w k" "idle_chans w"
  shows "handleActive (server_run os lib alloc user) l ks w = Inl LengthError \<or>
    (\<exists>w'. handleActive (server_run os lib alloc user) l ks w = Inr w' \<and> live todo w' \<and> idle_chans w')"
  using assms
proof (induction ks arbitrary: w)
  case Nil
  then show ?case by (simp add: handleActive_def)
next
  case (Cons k ks)
  let ?u = "upd_loop l (\<lambda>lp. lp\<lparr>el_current := Some k\<rparr>) w" and ?run = "server_run os lib alloc user"
  have u: "live todo ?u" by (rule live_upd_loop [OF Cons.prems(1)]) simp_all
  have on: "onward l s ka {} {} w ?u" by (rule onward_upd_loop) simp
  have ready: "ready s ka ?u j" if "j \<in> set (k # ks)" for j
    by (rule ready_onward [OF Cons.prems(1) u _ on]) (use Cons.prems(3) that in auto)
  have idle: "idle_chans ?u" using Cons.prems(4) by (simp add: idle_chans_def)
  from goes_event [OF u ready [of k]] consider "handleEvent ?run k ?u = Inl LengthError"
    | (ok) v where "handleEvent ?run k ?u = Inr v" "live todo v" "onward l s ka {k} {k} ?u v" by (auto simp: goes_def)
  then show ?case
  proof cases
    case ok
    have "ready s ka v j" if "j \<in> set ks" for j
      by (rule ready_onward [OF u ok(2) ready ok(3)]) (use Cons.prems(2) that in auto)
    with Cons.IH [OF ok(2)] Cons.prems(2) handleEvent_idle [OF ok(1) idle ok(3)] show ?thesis
      by (simp add: handleActive_def ok(1))
  qed (simp add: handleActive_def)
qed

text \<open>The functors.\<close>

lemma live_drop:
  assumes "live (f # todo) w" "\<not> is_destroy f"
  shows "live todo w"
proof -
  from assms(1) obtain sv ac where sv: "serves l s cb mb wc B W {} (f # todo) sv ac w" "ac_channel ac = ka" and J: "J w" by (auto simp: live_def)
  note S = servesD [OF sv(1)]
  have "conn_served sv (todo @ el_pending (w_loops w l)) p c w" if "cw_conns w p = Some c" for p c
  proof -
    have "conn_served sv ((f # todo) @ el_pending (w_loops w l)) p c w" using S(9) [OF that] by simp
    then show ?thesis by (rule conn_served_cong) (use assms(2) in auto)
  qed
  with S assms(2) have "serves l s cb mb wc B W {} todo sv ac w" unfolding serves_def by simp
  with sv(2) J show ?thesis by (auto simp: live_def)
qed

lemma goes_calm:
  assumes live: "live (f # todo) w" and f: "calm_functor w f"
  shows "goes todo H UNIV w (server_runF os user f w)"
proof -
  have live': "live todo w" by (rule live_drop [OF live calm_not_destroy [OF f]])
  from live' obtain sv ac where sv: "serves l s cb mb wc B W {} todo sv ac w" by (auto simp: live_def)
  from f obtain p c where c: "cw_conns w p = Some c" and "f = F_forceCloseInLoop p \<or> (\<exists>k. tc_writeCompleteCb c = Some k \<and> f = F_writeComplete k p)"
    by (auto simp: calm_functor_def)
  then consider (force) "f = F_forceCloseInLoop p" | (wc) k where "tc_writeCompleteCb c = Some k" "f = F_writeComplete k p" by blast
  then show ?thesis
  proof cases
    case force
    show ?thesis
    proof (cases "up c")
      case True
      have "goes todo H UNIV w (handleClose_conn (server_env user os) os p w)"
        by (rule goes_mono [OF goes_close [OF live' c True], of H]) simp_all
      with c force live' show ?thesis by (simp add: forceCloseInLoop_def goes_def)
    next
      case False
      with c force live' show ?thesis by (auto simp: forceCloseInLoop_def up_def goes_def)
    qed
  next
    case wc
    have k: "wc = Some k" "k mod 4 \<noteq> 2" using servesD(5) [OF sv] servesD(8) [OF sv c] wc(1) by (auto simp: conn_static_def server_static_def)
    with complete [OF _ _ c k] live_sound [OF live'] have "works J l w (server_env user os k p w)" by blast
    from goes_works [OF live' this] wc(2) show ?thesis by simp
  qed
qed

lemma goes_destroy:
  assumes live: "live (F_connectDestroyed p # todo) w" and idle: "\<not> el_eventHandling (w_loops w l)"
  shows "goes todo H UNIV w (connectDestroyed (server_env user os) os p w)"
proof -
  from live obtain sv ac where sv: "serves l s cb mb wc B W {} (F_connectDestroyed p # todo) sv ac w" and ka: "ac_channel ac = ka" and J: "J w"
    by (auto simp: live_def)
  note S = servesD [OF sv]
  from S(14) obtain c where c: "cw_conns w p = Some c" by (auto simp: functor_ok_def calm_functor_def)
  from S(9) [OF c] obtain ch where st: "tc_state c = kDisconnected" and map: "ts_connections sv (tc_name c) \<noteq> Some p"
    and ch: "w_chans w (tc_channel c) = Some ch" "ch_index ch = kDeleted" by (auto simp: conn_served_def split: if_splits)
  from ctl S(1) c st ch idle obtain u ch' where u: "connectDestroyed (server_env user os) os p w = Inr u" "conns_inv u" "tame l {p} w u" "cw_conns u = cw_conns w"
    "w_chans u = (w_chans w)(tc_channel c \<mapsto> ch')" "ch_index ch' = kNew" "\<not> ch_added ch'" "chan_frame ch' = chan_frame ch"
    "ch_handling ch' = ch_handling ch" "el_eventHandling (w_loops u l) = el_eventHandling (w_loops w l)"
    "el_pending (w_loops u l) = el_pending (w_loops w l)" "world.more u = world.more w" by (rule connectDestroyed_tame)
  have "serves l s cb mb wc B W {p} (F_connectDestroyed p # todo) sv ac u" using serves_tame [OF sv u(2,3)] by simp
  then have "serves l s cb mb wc B W {} todo sv ac u"
    by (rule serves_destroyed) (use c st map u(4-7) in simp_all)
  moreover have "sworld.more u = sworld.more w" using u(12) by (cases u; cases w) (simp add: world.defs cworld.defs sworld.defs)
  then have "J u" using u(4) by (intro stable [OF J] same_app_conns)
  ultimately have "live todo u" using ka by (auto simp: live_def)
  moreover have "onward l s ka H UNIV w u" using ch u(8-10) by (auto simp: onward_def u(4,5))
  ultimately show ?thesis by (simp add: goes_def u(1))
qed

lemma goes_functors:
  assumes "live fs w" "\<not> el_eventHandling (w_loops w l)"
  shows "goes [] H UNIV w (foldR (server_runF os user) fs w)"
  using assms
proof (induction fs arbitrary: w)
  case Nil
  then show ?case by (simp add: goes_def)
next
  case (Cons f fs)
  from Cons.prems(1) obtain sv ac where "serves l s cb mb wc B W {} (f # fs) sv ac w" by (auto simp: live_def)
  from servesD(14) [OF this] have "functor_ok w f" by simp
  then have "goes fs H UNIV w (server_runF os user f w)"
    using goes_calm [OF Cons.prems(1)] goes_destroy Cons.prems by (auto simp: functor_ok_def)
  then have "goes [] H UNIV w (bindR (server_runF os user f w) (foldR (server_runF os user) fs))"
  proof (rule goes_bind)
    fix u assume u: "live fs u" "onward l s ka H UNIV w u"
    show "goes [] H UNIV u (foldR (server_runF os user) fs u)"
      using Cons.IH [OF u(1)] onwardD(1) [OF u(2)] Cons.prems(2) by simp
  qed
  then show ?case by simp
qed

lemma idle_onward: 
  assumes "idle_chans w" "onward l s ka {} K w u"
  shows "idle_chans u"
  unfolding idle_chans_def
proof (intro allI impI)
  fix k ch assume k: "w_chans u k = Some ch"
  show "\<not> ch_handling ch"
  proof (cases "w_chans w k")
    case None
    with k onwardD(4) [OF assms(2)] show ?thesis by simp
  next
    case (Some dh)
    with k onwardD(3) [OF assms(2) Some] assms(1) show ?thesis by (auto simp: idle_chans_def)
  qed
qed

lemma live_registry: "live todo w \<Longrightarrow> registry_inv l w"
  using live_sound [of todo w] soundD(1) [of l w] by (simp add: conns_inv_def reactor_inv_def)

text \<open>Polling stores the events and finds the channels ready.\<close>

lemma live_polled:
  assumes live: "live todo w"
  shows "live todo (polled_world l evs w)"
proof -
  let ?w = "polled_world l evs w"
  from live obtain sv ac where sv: "serves l s cb mb wc B W {} todo sv ac w" and ka: "ac_channel ac = ka" and J: "J w" by (auto simp: live_def)
  have inv: "conns_inv ?w" by (rule conns_inv_polled [OF soundD(1) [OF servesD(1) [OF sv]]])
  from serves_tame [OF sv inv tame_polled] have "serves l s cb mb wc B W {} todo sv ac ?w" by simp
  moreover have "sworld.more ?w = sworld.more w" by (simp add: polled_world_def Let_def upd_poller_def upd_loop_def log_call_def)
  then have "J ?w" by (intro stable [OF J] same_app_conns) (simp_all add: polled_frame)
  ultimately show ?thesis using ka by (auto simp: live_def)
qed

lemma ready_polled:
  assumes live: "live todo w" and names: "names_left s w"
    and evs: "os_epoll_wait os (w_trace w) l (size_to_int32 (pl_eventsSize (el_poller (w_loops w l)))) = Inr evs" and k: "k \<in> fst ` set evs"
  shows "ready s ka (polled_world l evs w) k"
proof -
  let ?w = "polled_world l evs w"
  from live_polled [OF live, of evs] obtain sv ac where sv: "serves l s cb mb wc B W {} todo sv ac ?w" by (auto simp: live_def)
  have "registry_inv l w" by (rule live_registry [OF live])
  from poll_ok(3) [OF this wait evs k] obtain ch where ch: "w_chans ?w k = Some ch" "ch_index ch = kAdded"
    "ch_revents ch AND NOT (ch_events ch OR POLLERR OR POLLHUP) = 0" by (auto simp: active_ok_def simp del: polled_world_simps)
  have "up c \<and> ch_revents ch AND NOT (POLLIN OR POLLOUT OR POLLERR OR POLLHUP) = 0" if c: "cw_conns ?w p = Some c" "tc_channel c = k" for p c
  proof
    from servesD(9) [OF sv c(1)] c(2) ch(1,2) show "up c" by (auto simp: conn_served_def index_defs split: if_splits)
    have "conns_inv ?w" using soundD(1) [OF servesD(1) [OF sv]] .
    from this c(1) obtain dh where "w_chans ?w (tc_channel c) = Some dh" "linked p c dh" by (rule conns_invE)
    with c(2) ch(1) have "plain_events (ch_events ch)" by (simp add: linked_def)
    with ch(3) show "ch_revents ch AND NOT (POLLIN OR POLLOUT OR POLLERR OR POLLHUP) = 0"
      by (rule expected_mask)
  qed
  moreover have "names_left s ?w" using names by (simp add: names_left_def polled_world_def Let_def upd_poller_def upd_loop_def log_call_def)
  ultimately show ?thesis using ch(1) by (auto simp: ready_def)
qed

text \<open>The whole body of the loop.\<close>

lemma polls:
  assumes live: "live todo w" and names: "names_left s w" and idle: "idle_chans w"
  obtains acs u where "poll os l [] w = Inr (acs, u)" "live todo u" "distinct acs" "\<forall>k \<in> set acs. ready s ka u k" "idle_chans u"
proof (cases "os_epoll_wait os (w_trace w) l (size_to_int32 (pl_eventsSize (el_poller (w_loops w l))))")
  case (Inl e)
  let ?u = "log_call (SysEpollWait l (size_to_int32 (pl_eventsSize (el_poller (w_loops w l)))) (Inl e)) w"
  have "live todo ?u" using goes_log [OF live, of "SysEpollWait l (size_to_int32 (pl_eventsSize (el_poller (w_loops w l)))) (Inl e)"] by (simp add: goes_def)
  with Inl idle show thesis by (intro that [of "[]" ?u]) (simp_all add: poll_def Let_def idle_chans_def)
next
  case (Inr evs)
  let ?u = "polled_world l evs w"
  have "registry_inv l w" by (rule live_registry [OF live])
  note ok = poll_ok [OF this wait Inr]
  have "idle_chans ?u"
    unfolding idle_chans_def
  proof (intro allI impI)
    fix k ch assume k: "w_chans ?u k = Some ch"
    with polled_channel(2) [of l evs w k] obtain ch0 where ch0: "w_chans w k = Some ch0" by (cases "w_chans w k") simp_all
    from polled_channel(1) [OF this, of l evs] k idle ch0 show "\<not> ch_handling ch" by (auto simp: idle_chans_def simp del: polled_world_simps)
  qed
  then show thesis
    using ok(1) [of "[]"] ok(4) live_polled [OF live] ready_polled [OF live names Inr] by (intro that [of "map fst evs" ?u]) auto
qed

lemma iterates:
  assumes live: "live [] w" and names: "names_left s w" and idle: "idle_chans w"
  shows "loop_body os (server_run os lib alloc user) (server_runF os user) l w = Inl LengthError \<or>
    (\<exists>w'. loop_body os (server_run os lib alloc user) (server_runF os user) l w = Inr w' \<and> live [] w' \<and> idle_chans w')"
proof -
  let ?w = "upd_loop l (\<lambda>lp. lp\<lparr>el_active := []\<rparr>) w" and ?run = "server_run os lib alloc user" and ?runF = "server_runF os user"
  have w: "live [] ?w" "names_left s ?w" "idle_chans ?w"
    using live_upd_loop [OF live] names idle by (simp_all add: names_left_def idle_chans_def)
  from w obtain acs u where u: "poll os l [] ?w = Inr (acs, u)" "live [] u" "distinct acs" "\<forall>k \<in> set acs. ready s ka u k" "idle_chans u"
    by (rule polls)
  let ?v = "upd_loop l (\<lambda>lp. lp\<lparr>el_active := acs, el_iteration := el_iteration lp + 1, el_eventHandling := True\<rparr>) u"
  have v: "live [] ?v" "idle_chans ?v" using live_upd_loop [OF u(2)] u(5) by (simp_all add: idle_chans_def)
  have "ready s ka ?v k" if "k \<in> set acs" for k using u(4) that by (simp add: ready_def names_left_def)
  with goes_active [OF v(1) u(3) _ v(2)] consider "handleActive ?run l acs ?v = Inl LengthError"
    | (ok) x where "handleActive ?run l acs ?v = Inr x" "live [] x" "idle_chans x" by auto
  then show ?thesis
  proof cases
    case ok
    let ?x = "upd_loop l (\<lambda>lp. lp\<lparr>el_current := None, el_eventHandling := False\<rparr>) x" and ?fs = "el_pending (w_loops x l)"
    let ?y = "upd_loop l (\<lambda>lp. lp\<lparr>el_pending := []\<rparr>) (upd_loop l (\<lambda>lp. lp\<lparr>el_calling := True\<rparr>) ?x)"
    have y: "live ?fs ?y" "idle_chans ?y" "\<not> el_eventHandling (w_loops ?y l)"
    proof -
      have "live [] ?x" by (rule live_upd_loop [OF ok(2)]) simp_all
      then have "live [] (upd_loop l (\<lambda>lp. lp\<lparr>el_calling := True\<rparr>) ?x)" by (rule live_upd_loop) simp_all
      then show "live ?fs ?y" by (rule live_upd_loop) simp_all
    qed (use ok(3) in \<open>simp_all add: idle_chans_def\<close>)
    from goes_functors [OF y(1,3), of "{}"] consider "foldR ?runF ?fs ?y = Inl LengthError"
      | (ran) z where "foldR ?runF ?fs ?y = Inr z" "live [] z" "onward l s ka {} UNIV ?y z" by (auto simp: goes_def)
    then show ?thesis
    proof cases
      case ran
      let ?z = "upd_loop l (\<lambda>lp. lp\<lparr>el_calling := False\<rparr>) z"
      have "live [] ?z" by (rule live_upd_loop [OF ran(2)]) simp_all
      moreover have "idle_chans ?z" using idle_onward [OF y(2) ran(3)] by (simp add: idle_chans_def)
      ultimately show ?thesis using u(1) ok(1) ran(1) by (simp add: loop_body_def doPendingFunctors_def Let_def)
    qed (use u(1) ok(1) in \<open>simp add: loop_body_def doPendingFunctors_def Let_def\<close>)
  qed (use u(1) in \<open>simp add: loop_body_def\<close>)
qed

text \<open>A connection is destroyed.\<close>

lemma deletes:
  assumes live: "live [] w" and idle: "idle_chans w" and un: "unreferenced l p w"
  obtains w' where "delete_TcpConnection p w = Inr w'" "live [] w'" "idle_chans w'"
proof -
  from live obtain sv ac where sv: "serves l s cb mb wc B W {} [] sv ac w" and ka: "ac_channel ac = ka" and J: "J w" by (auto simp: live_def)
  from un obtain c where c: "cw_conns w p = Some c" by (auto simp: unreferenced_def)
  from sv c un obtain ch where ch: "w_chans w (tc_channel c) = Some ch" "tc_state c = kDisconnected" "ch_index ch = kNew" "\<not> ch_added ch"
    by (rule unreferenced_closed)
  let ?w1 = "w\<lparr>w_chans := (w_chans w)(tc_channel c := None)\<rparr>"
  let ?w = "(log_call (SysClose (tc_sockfd c)) ?w1)\<lparr>cw_conns := (cw_conns ?w1)(p := None)\<rparr>"
  have "reactor_inv w" using live_sound [OF live] soundD(1) [of l w] by (simp add: conns_inv_def)
  moreover have "\<not> ch_handling ch" using idle ch(1) by (simp add: idle_chans_def)
  ultimately have "delete_Channel (tc_channel c) w = Inr ?w1" by (intro delete_Channel_ok [OF ch(1) _ ch(4,3)])
  then have del: "delete_TcpConnection p w = Inr ?w" using c ch(2) by (simp add: delete_TcpConnection_def)
  have "serves l s cb mb wc B W {} [] sv ac ?w"
    by (rule serves_deleted [OF sv c un]) (simp_all add: log_call_def)
  moreover have "same_app mb w ?w" by (auto simp: same_app_def log_call_def split: if_splits)
  then have "J ?w" by (rule stable [OF J])
  ultimately have "live [] ?w" using ka by (auto simp: live_def)
  moreover have "idle_chans ?w" using idle by (simp add: idle_chans_def log_call_def)
  ultimately show thesis using del by (rule that [rotated])
qed

lemma live_serving: "live [] w \<longleftrightarrow> J w \<and> serving l s cb mb wc B W ka w"
  by (auto simp: live_def serving_def)

lemma runs_live:
  assumes "server_runs os lib alloc user l w0 ws r" "J w0" "serving l s cb mb wc B W ka w0" "idle_chans w0"
    and "\<forall>v \<in> set ws. names_left s v"
  shows "r = Inl LengthError \<or> (\<exists>w. r = Inr w \<and> J w \<and> serving l s cb mb wc B W ka w \<and> idle_chans w)"
  using assms
proof (induction rule: server_runs.induct)
  case (iterate ws w)
  then show ?case using iterates [of w] by (simp add: live_serving)
next
  case (destroy ws w p)
  then have "live [] w" "idle_chans w" by (simp_all add: live_serving)
  from this destroy(2) obtain w' where "delete_TcpConnection p w = Inr w'" "live [] w'" "idle_chans w'" by (rule deletes)
  then show ?case by (simp add: live_serving)
qed simp

end

end
