(* ===== verification/Startup.thy ===== *)
theory Startup
  imports ServerRun
begin

text \<open>
  How a server comes up: the constructors of \<open>EventLoop\<close>, \<open>Acceptor\<close> and \<open>TcpServer\<close> and
  \<open>TcpServer::start\<close>, run one after the other in a new process, lead to a state in which the server
  serves.
\<close>

section \<open>The loop\<close>

text \<open>A channel that only reads: the wake-up channel and the acceptor's.\<close>

definition reader :: "ptr \<Rightarrow> fd \<Rightarrow> callback \<Rightarrow> channel \<Rightarrow> bool" where
  "reader l fd kb ch \<longleftrightarrow> ch_loop ch = l \<and> ch_fd ch = fd \<and> ch_readCb ch = Some kb \<and> ch_writeCb ch = None \<and>
     ch_closeCb ch = None \<and> ch_errorCb ch = None \<and> \<not> ch_handling ch"

lemma reader_frame: "chan_frame ch' = chan_frame ch \<Longrightarrow> ch_handling ch' = ch_handling ch \<Longrightarrow> reader l fd kb ch \<Longrightarrow> reader l fd kb ch'"
  by (simp add: reader_def chan_frame_def)

lemma mk_EventLoop_effect:
  assumes "mk_EventLoop os None junk l c fd w = Inr w'"
  obtains ch where "w_chans w' = (w_chans w)(c \<mapsto> ch)" "reader l fd (LoopHandleRead l) ch" "el_pending (w_loops w' l) = []"
    "isInLoopThread l w'" "open_fds (w_trace w') = open_fds (w_trace w)" "world.more w' = world.more w" "w_tid w' = w_tid w"
    "closes_open (w_trace w') = closes_open (w_trace w)"
proof -
  let ?ch = "setReadCallback (LoopHandleRead l) (mk_Channel l fd)"
  define w2 where "w2 = put_chan c ?ch (put_chan c (mk_Channel l fd) (upd_loop l (\<lambda>_. \<lparr>el_looping = False, el_quit = False,
     el_eventHandling = False, el_calling = False, el_iteration = 0, el_threadId = junk, el_poller = mk_Poller,
     el_wakeupFd = fd, el_active = [], el_current = None, el_pending = []\<rparr>) w))"
  from assms obtain w3 where w3: "set_events os (\<lambda>e. e OR ReadEvent) c w2 = Inr w3"
    "w' = upd_loop l (\<lambda>lp. lp\<lparr>el_threadId := w_tid w3\<rparr>) w3"
    by (auto simp: mk_EventLoop_def Let_def enableReading_def w2_def res_simps)
  have c2: "w_chans w2 c = Some ?ch" by (simp add: w2_def)
  from w3(1) c2 obtain ch where ch: "w_chans w3 = (w_chans w2)(c \<mapsto> ch)" "ch_handling ch = ch_handling ?ch"
    "world.more w3 = world.more w2" "\<And>l. el_pending (w_loops w3 l) = el_pending (w_loops w2 l)"
    "open_fds (w_trace w3) = open_fds (w_trace w2)" "chan_frame ch = chan_frame ?ch" "w_tid w3 = w_tid w2" "closes_open (w_trace w3) = closes_open (w_trace w2)"
    by (rule set_events_effect) blast
  have "reader l fd (LoopHandleRead l) ?ch" by (simp add: reader_def setReadCallback_def mk_Channel_def)
  then have "reader l fd (LoopHandleRead l) ch" by (rule reader_frame [OF ch(6,2)])
  with ch show thesis by (intro that [of ch]) (simp_all add: w3(2) w2_def isInLoopThread_def)
qed

section \<open>The server\<close>

text \<open>A server that has been constructed and not started; \<open>wk\<close> and \<open>ka\<close> are the channels of the loop and of the acceptor.\<close>

definition constructed :: "ptr \<Rightarrow> ptr \<Rightarrow> ptr \<Rightarrow> ptr \<Rightarrow> ptr \<Rightarrow> fd \<Rightarrow> fd \<Rightarrow> 'a sworld_scheme \<Rightarrow> bool" where
  "constructed l s a wk ka wfd lfd w \<longleftrightarrow> reactor_inv w \<and> cw_conns w = Map.empty \<and> isInLoopThread l w \<and> el_pending (w_loops w l) = [] \<and>
     (\<exists>c1 c2. w_chans w = [wk \<mapsto> c1, ka \<mapsto> c2] \<and> wk \<noteq> ka \<and> reader l wfd (LoopHandleRead l) c1 \<and> reader l lfd (AcceptorHandleRead a) c2) \<and>
     (\<exists>ac. sw_acceptors w a = Some ac \<and> ac_channel ac = ka \<and> ac_sockfd ac = lfd \<and> ac_newConnectionCb ac = Some s \<and> \<not> ac_listening ac \<and>
        ac_idleFd ac \<noteq> lfd \<and> 0 \<le> lfd \<and> open_fds (w_trace w) = {lfd, ac_idleFd ac} \<and> closes_open (w_trace w)) \<and>
     (\<exists>sv. sw_servers w s = Some sv \<and> ts_loop sv = l \<and> ts_acceptor sv = a \<and> ts_pool sv = mk_EventLoopThreadPool l (ts_name sv) \<and>
        ts_nextConnId sv = 1 \<and> ts_connections sv = Map.empty)"

text \<open>The calls that set a server up succeed, with descriptors that are not in use.\<close>

definition startup_contract :: "'o net_os_scheme \<Rightarrow> fd \<Rightarrow> bool" where
  "startup_contract os wfd \<longleftrightarrow> (\<forall>tr. 0 \<le> os_socket os tr \<and> os_socket os tr \<notin> open_fds tr \<and> os_socket os tr \<noteq> wfd) \<and>
     (\<forall>tr. 0 \<le> os_open_null os tr \<and> os_open_null os tr \<notin> open_fds tr) \<and>
     (\<forall>tr fd. 0 \<le> os_bind os tr fd) \<and> (\<forall>tr fd. 0 \<le> os_listen os tr fd)"

lemma mk_TcpServer_constructed:
  assumes os: "startup_contract os wfd" and w: "reactor_inv w" "cw_conns w = Map.empty" "isInLoopThread l w" "el_pending (w_loops w l) = []"
      "w_chans w = [wk \<mapsto> c1]" "wk \<noteq> ka" "reader l wfd (LoopHandleRead l) c1" "open_fds (w_trace w) = {}" "closes_open (w_trace w)"
    and addr: "inet_ok lib listenAddr" and lfd: "lfd = os_socket os (w_trace w)"
  shows "\<exists>w' sv. mk_TcpServer os lib s a ka l listenAddr name w = Inr w' \<and> constructed l s a wk ka wfd lfd w' \<and> sworld.more w' = sworld.more w \<and>
    sw_servers w' s = Some sv \<and> ts_messageCb sv = Some 4 \<and> ts_writeCompleteCb sv = None \<and> ts_connectionCb sv = Some 0 \<and>
    toIpPort lib listenAddr = Inr (ts_ipPort sv)"
proof -
  define w1 where "w1 = put_chan ka (mk_Channel l lfd) (log_call (SysSocket lfd) w)"
  define idle where "idle = os_open_null os (w_trace w1)"
  define c2 where "c2 = setReadCallback (AcceptorHandleRead a) (mk_Channel l lfd)"
  define ac where "ac = \<lparr>ac_loop = l, ac_sockfd = lfd, ac_channel = ka, ac_newConnectionCb = Some s, ac_listening = False, ac_idleFd = idle\<rparr>"
  obtain ipPort where ip: "toIpPort lib listenAddr = Inr ipPort" using toIpPort_ok [OF addr] by blast
  define sv where "sv = \<lparr>ts_loop = l, ts_ipPort = ipPort, ts_name = name, ts_acceptor = a, ts_pool = mk_EventLoopThreadPool l name,
     ts_connectionCb = Some 0, ts_messageCb = Some 4, ts_writeCompleteCb = None, ts_started = False, ts_nextConnId = 1, ts_connections = Map.empty\<rparr>"
  define w4 where "w4 = put_chan ka c2 (log_call (SysBind lfd) (log_call (SysOpenDevNull idle) w1))"
  define w' where "w' = put_server s sv (put_acceptor a ac (put_acceptor a (ac\<lparr>ac_newConnectionCb := None\<rparr>) w4))"
  have sock: "0 \<le> lfd" "lfd \<noteq> wfd" "lfd \<notin> open_fds (w_trace w)" and nul: "0 \<le> idle" "idle \<notin> open_fds (w_trace w1)"
    and oks: "\<And>tr fd. \<not> os_bind os tr fd < 0" "\<not> lfd < 0"
    using os unfolding startup_contract_def lfd idle_def by (simp_all add: not_less)
  have run: "mk_TcpServer os lib s a ka l listenAddr name w = Inr w'"
    using oks nul(1) ip
    by (simp add: mk_TcpServer_def mk_Acceptor_def createNonblockingOrDie_def lfd [symmetric] open_null_def bindAddress_def Let_def
        idle_def w1_def w'_def w4_def ac_def sv_def c2_def put_acceptor_def setNewConnectionCallback_acceptor_def)
  have chans: "w_chans w' = [wk \<mapsto> c1, ka \<mapsto> c2]" using w(5) by (simp add: w'_def w4_def w1_def put_acceptor_def)
  have same: "w_loops w' = w_loops w" "w_tid w' = w_tid w" "cw_conns w' = cw_conns w" "sworld.more w' = sworld.more w"
    "interest l' (w_trace w') = interest l' (w_trace w)" for l'
    by (simp_all add: w'_def w4_def w1_def put_acceptor_def put_server_def log_call_def put_chan_def interest_def)
  have c2: "reader l lfd (AcceptorHandleRead a) c2" "ch_index c2 = kNew" by (simp_all add: c2_def reader_def setReadCallback_def mk_Channel_def kNew_def)
  have "reactor_inv (put_chan ka c2 w)"
    by (rule reactor_inv_new_channel [OF w(1) _ c2(2)]) (use w(5-7) c2(1) sock(2) in \<open>auto simp: reader_def split: if_splits\<close>)
  then have "reactor_inv w'" by (rule reactor_inv_cong) (simp_all add: same chans w(5))
  moreover have "open_fds (w_trace w') = {lfd, idle}" "idle \<noteq> lfd" "closes_open (w_trace w')"
    using w(8,9) nul(2) by (auto simp: w'_def w4_def w1_def put_acceptor_def)
  moreover have "sw_servers w' s = Some sv" "sw_acceptors w' a = Some ac" by (simp_all add: w'_def put_acceptor_def put_server_def)
  moreover have "isInLoopThread l w'" using w(3) by (simp add: isInLoopThread_def same)
  ultimately have "constructed l s a wk ka wfd lfd w'"
    unfolding constructed_def using w(2,4,6,7) c2(1) sock(1)
    by (auto simp: chans same ac_def sv_def)
  then show ?thesis
    using run same(4) ip \<open>sw_servers w' s = Some sv\<close> by (intro exI [of _ w'] exI [of _ sv]) (simp add: sv_def)
qed

lemma start_serving:
  assumes os: "epoll_ctl_contract os" "startup_contract os wfd" and con: "constructed l s a wk ka wfd lfd w"
    and sv: "sw_servers w s = Some sv" "ts_connectionCb sv = Some cb" "cb mod 4 \<noteq> 2" "ts_messageCb sv = Some mb" "mb mod 4 \<noteq> 2"
      "ts_writeCompleteCb sv = wc" "\<And>k. wc = Some k \<Longrightarrow> k mod 4 \<noteq> 2"
  shows "\<exists>w'. start_server os starter None s w = Inr w' \<and> serving l s cb mb wc {lfd} {wfd} ka w' \<and> idle_chans w' \<and>
    sworld.more w' = sworld.more w \<and> cw_conns w' = Map.empty \<and>
    (\<exists>sv'. sw_servers w' s = Some sv' \<and> ts_ipPort sv' = ts_ipPort sv \<and> ts_nextConnId sv' = 1)"
proof -
  from con obtain c1 c2 ac where w: "reactor_inv w" "cw_conns w = Map.empty" "isInLoopThread l w" "el_pending (w_loops w l) = []"
    and ch: "w_chans w = [wk \<mapsto> c1, ka \<mapsto> c2]" "wk \<noteq> ka" "reader l wfd (LoopHandleRead l) c1" "reader l lfd (AcceptorHandleRead a) c2"
    and ac: "sw_acceptors w a = Some ac" "ac_channel ac = ka" "ac_sockfd ac = lfd" "ac_newConnectionCb ac = Some s" "\<not> ac_listening ac"
      "ac_idleFd ac \<noteq> lfd" "0 \<le> lfd" "open_fds (w_trace w) = {lfd, ac_idleFd ac}" "closes_open (w_trace w)"
    and svf: "ts_loop sv = l" "ts_acceptor sv = a" "ts_pool sv = mk_EventLoopThreadPool l (ts_name sv)" "ts_nextConnId sv = 1" "ts_connections sv = Map.empty"
    using sv(1) by (auto simp: constructed_def)
  define sv' where "sv' = sv\<lparr>ts_pool := (ts_pool sv)\<lparr>tp_started := True\<rparr>\<rparr>"
  define ac' where "ac' = ac\<lparr>ac_listening := True\<rparr>"
  define u where "u = log_call (SysListen lfd) (put_acceptor a ac' (put_server s sv' w))"
  have u: "w_chans u = w_chans w" "w_loops u = w_loops w" "w_tid u = w_tid w" "cw_conns u = cw_conns w" "sworld.more u = sworld.more w"
    "interest l' (w_trace u) = interest l' (w_trace w)" "open_fds (w_trace u) = open_fds (w_trace w)" "closes_open (w_trace u) = closes_open (w_trace w)"
    "sw_servers u s = Some sv'" "sw_acceptors u a = Some ac'" for l'
    by (simp_all add: u_def put_acceptor_def)  (simp_all add: put_server_def log_call_def)
  have ru: "reactor_inv u" by (rule reactor_inv_cong [OF w(1)]) (simp_all add: u)
  have uka: "w_chans u ka = Some c2" by (simp add: u ch)
  from os(1) ru uka obtain w' where w': "set_events os (\<lambda>e. e OR ReadEvent) ka u = Inr w'" "reactor_inv w'" by (rule set_events_reactor)
  from w'(1) uka obtain c3 where c3: "w_chans w' = (w_chans u)(ka \<mapsto> c3)" "ch_handling c3 = ch_handling c2" "world.more w' = world.more u"
    "\<And>l. el_pending (w_loops w' l) = el_pending (w_loops u l)" "open_fds (w_trace w') = open_fds (w_trace u)" "chan_frame c3 = chan_frame c2"
    "w_tid w' = w_tid u" "\<And>l. el_threadId (w_loops w' l) = el_threadId (w_loops u l)" "closes_open (w_trace w') = closes_open (w_trace u)"
    by (rule set_events_effect) blast
  have more: "cw_conns w' = Map.empty" "sw_servers w' s = Some sv'" "sw_acceptors w' a = Some ac'" "sworld.more w' = sworld.more w"
    using c3(3) u(4,5,9,10) w(2) by (cases w'; cases u; simp add: world.defs cworld.defs sworld.defs)+
  have "\<not> os_listen os tr fd < 0" for tr fd using os(2) unfolding startup_contract_def by (simp add: not_less)
  then have run: "start_server os starter None s w = Inr w'"
    using sv(1) svf ac(1,3,5) w(3) w'(1) ac(2)
    by (simp add: start_server_def start_pool_def mk_EventLoopThreadPool_def runInLoop_def listen_def listen_socket_def isInLoopThread_def
        enableReading_def u_def ac'_def sv'_def put_acceptor_def put_server_def Let_def)
  have r3: "reader l lfd (AcceptorHandleRead a) c3" by (rule reader_frame [OF c3(6,2) ch(4)])
  have chans: "w_chans w' = [wk \<mapsto> c1, ka \<mapsto> c3]" by (simp add: c3(1) u ch(1))
  have so: "sound l w'" using w'(2) w(3) by (simp add: sound_def conns_inv_def reading_def more isInLoopThread_def c3 u)
  have pool: "pool_inv (ts_pool sv')" "tp_started (ts_pool sv')" "pool_loops (ts_pool sv') = [l]"
    by (simp_all add: sv'_def svf pool_inv_def mk_EventLoopThreadPool_def pool_loops_def)
  have sinv: "server_inv s w'" unfolding server_inv_def using pool more(2) by (intro exI [of _ sv']) (simp add: sv'_def svf)
  have static: "server_static l s cb mb wc sv'" using pool sv svf by (simp add: server_static_def sv'_def)
  have plain: "plain_channel l a ac' ({wfd} \<union> {lfd}) k kh" if "w_chans w' k = Some kh" for k kh
    using that ch(2,3) r3 ac(2) by (auto simp: chans plain_channel_def reader_def ac'_def split: if_splits)
  have "serves l s cb mb wc {lfd} {wfd} {} [] sv' ac' w'"
    unfolding serves_def
    using so sinv static plain more ac w(4) by (simp add: svf conn_fds_def c3(4,5,9) u chans) (simp add: sv'_def ac'_def svf insert_commute)
  then have "serving l s cb mb wc {lfd} {wfd} ka w'" unfolding serving_def using ac(2) by (intro exI [of _ sv'] exI [of _ ac']) (simp add: ac'_def)
  moreover have "idle_chans w'" using ch(3) r3 by (auto simp: idle_chans_def chans reader_def split: if_splits)
  moreover have "ts_ipPort sv' = ts_ipPort sv" "ts_nextConnId sv' = 1" by (simp_all add: sv'_def svf)
  ultimately show ?thesis using run more by blast
qed

text \<open>
  The calls a program makes to bring a server up in one thread: \<open>l\<close>, \<open>s\<close>, \<open>a\<close>, \<open>wk\<close> and \<open>ka\<close> are the addresses
  of the loop, the server, the acceptor and the channels of the loop and the acceptor.
\<close>

definition boot_server ::
  "'o net_os_scheme \<Rightarrow> inet_lib \<Rightarrow> ('a sworld_scheme \<Rightarrow> ((ptr \<times> ptr) \<times> 'a sworld_scheme) res) \<Rightarrow> int \<Rightarrow> fd \<Rightarrow> ptr \<Rightarrow> ptr \<Rightarrow> ptr \<Rightarrow> ptr \<Rightarrow> ptr \<Rightarrow>
   inet_address \<Rightarrow> string \<Rightarrow> nat \<Rightarrow> nat \<Rightarrow> nat option \<Rightarrow> 'a sworld_scheme \<Rightarrow> 'a sworld_scheme res" where
  "boot_server os lib starter junk wfd l wk s a ka listenAddr name cb mb wc w =
     bindR (mk_EventLoop os None junk l wk wfd w) (\<lambda>w1.
     bindR (mk_TcpServer os lib s a ka l listenAddr name w1) (\<lambda>w2.
     bindR (derefR (sw_servers w2 s)) (\<lambda>sv.
       start_server os starter None s (put_server s (setWriteCompleteCallback_server wc
         (setMessageCallback_server (Some mb) (setConnectionCallback_server (Some cb) sv))) w2))))"

text \<open>A process that has just started.\<close>

definition new_process :: "'a sworld_scheme \<Rightarrow> bool" where
  "new_process w \<longleftrightarrow> w_chans w = Map.empty \<and> cw_conns w = Map.empty \<and> w_trace w = [] \<and> (\<forall>l. chan_map l w = Map.empty)"

lemma constructed_callbacks:
  assumes "constructed l s a wk ka wfd lfd w" "sw_servers w s = Some sv"
  shows "constructed l s a wk ka wfd lfd (put_server s (setWriteCompleteCallback_server wc
    (setMessageCallback_server m (setConnectionCallback_server c sv))) w)"
proof -
  have "reactor_inv (put_server s sv' w)" if "reactor_inv w" for sv' by (rule reactor_inv_cong [OF that]) simp_all
  with assms show ?thesis
    by (simp add: constructed_def isInLoopThread_def setWriteCompleteCallback_server_def setMessageCallback_server_def
        setConnectionCallback_server_def)
qed

lemma mk_EventLoop_new:
  assumes os: "epoll_ctl_contract os" and w: "new_process w"
  obtains w1 c1 where "mk_EventLoop os None junk l wk wfd w = Inr w1" "reactor_inv w1" "cw_conns w1 = Map.empty" "isInLoopThread l w1"
    "el_pending (w_loops w1 l) = []" "w_chans w1 = [wk \<mapsto> c1]" "reader l wfd (LoopHandleRead l) c1" "open_fds (w_trace w1) = {}"
    "closes_open (w_trace w1)" "sworld.more w1 = sworld.more w"
proof -
  have p: "w_chans w = Map.empty" "cw_conns w = Map.empty" "w_trace w = []" "chan_map l' w = Map.empty" for l'
    using w by (simp_all add: new_process_def)
  have "registry_inv l' w" for l' by (rule registry_inv_intro) (simp_all add: p)
  then have "reactor_inv w" by (simp add: reactor_inv_def fds_unique_def p)
  moreover have "w_chans w wk = None" "loop_unused l w" by (simp_all add: p loop_unused_def)
  ultimately obtain w1 where w1: "mk_EventLoop os None junk l wk wfd w = Inr w1" "idle_loop l wk wfd w1"
    using mk_EventLoop_ok [OF os] by blast
  from w1(1) obtain c1 where c1: "w_chans w1 = (w_chans w)(wk \<mapsto> c1)" "reader l wfd (LoopHandleRead l) c1" "el_pending (w_loops w1 l) = []"
    "isInLoopThread l w1" "open_fds (w_trace w1) = open_fds (w_trace w)" "world.more w1 = world.more w" "closes_open (w_trace w1) = closes_open (w_trace w)" by (rule mk_EventLoop_effect)
  have "cw_conns w1 = Map.empty" "sworld.more w1 = sworld.more w"
    using c1(6) p(2) by (cases w1; cases w; simp add: world.defs cworld.defs sworld.defs)+
  moreover have "reactor_inv w1" using w1(2) by (simp add: idle_loop_def)
  moreover have "open_fds [] = {}" by (simp add: open_fds_def)
  ultimately show thesis using w1(1) c1 p by (intro that [of w1 c1]) simp_all
qed

lemma boots:
  assumes os: "epoll_ctl_contract os" "startup_contract os wfd" and w: "new_process w" and wk: "wk \<noteq> ka" and addr: "inet_ok lib listenAddr"
    and cbs: "cb mod 4 \<noteq> 2" "mb mod 4 \<noteq> 2" "\<And>k. wc = Some k \<Longrightarrow> k mod 4 \<noteq> 2"
  obtains lfd w' sv where "boot_server os lib starter junk wfd l wk s a ka listenAddr name cb mb wc w = Inr w'"
    "serving l s cb mb wc {lfd} {wfd} ka w'" "idle_chans w'" "sw_servers w' s = Some sv" "toIpPort lib listenAddr = Inr (ts_ipPort sv)" "ts_nextConnId sv = 1"
proof -
  from os(1) w obtain w1 c1 where w1: "mk_EventLoop os None junk l wk wfd w = Inr w1" "reactor_inv w1" "cw_conns w1 = Map.empty" "isInLoopThread l w1"
    "el_pending (w_loops w1 l) = []" "w_chans w1 = [wk \<mapsto> c1]" "reader l wfd (LoopHandleRead l) c1" "open_fds (w_trace w1) = {}"
    "closes_open (w_trace w1)" by (rule mk_EventLoop_new)
  define lfd where "lfd = os_socket os (w_trace w1)"
  from mk_TcpServer_constructed [where s = s and a = a and name = name, OF os(2) w1(2-6) wk w1(7-9) addr lfd_def]
  obtain w2 sv where w2: "mk_TcpServer os lib s a ka l listenAddr name w1 = Inr w2" "constructed l s a wk ka wfd lfd w2" "sw_servers w2 s = Some sv"
    "toIpPort lib listenAddr = Inr (ts_ipPort sv)" by blast
  let ?sv = "setWriteCompleteCallback_server wc (setMessageCallback_server (Some mb) (setConnectionCallback_server (Some cb) sv))"
  have sv: "ts_connectionCb ?sv = Some cb" "ts_messageCb ?sv = Some mb" "ts_writeCompleteCb ?sv = wc" "ts_ipPort ?sv = ts_ipPort sv"
    by (simp_all add: setWriteCompleteCallback_server_def setMessageCallback_server_def setConnectionCallback_server_def)
  note con = constructed_callbacks [OF w2(2,3), of wc "Some mb" "Some cb"]
  have "sw_servers (put_server s ?sv w2) s = Some ?sv" by simp
  from start_serving [where starter = starter, OF os con this sv(1) cbs(1) sv(2) cbs(2) sv(3) cbs(3)] sv(4)
  obtain w' sv' where "start_server os starter None s (put_server s ?sv w2) = Inr w'" "serving l s cb mb wc {lfd} {wfd} ka w'" "idle_chans w'"
    "sw_servers w' s = Some sv'" "ts_ipPort sv' = ts_ipPort sv" "ts_nextConnId sv' = 1" by auto
  with w1(1) w2 show thesis by (intro that [of w' lfd sv']) (simp_all add: boot_server_def)
qed

end
