(* ===== verification/ServerSafety.thy ===== *)
theory ServerSafety
  imports Startup
begin

text \<open>
  A server whose callbacks do any sequence of operations on any connections, from the constructors on
  and through any number of iterations.
\<close>

section \<open>Callbacks that are scripts\<close>

text \<open>The operations that are quiet: reading is not switched off, and no foreign functor is queued.\<close>

fun calm_op :: "user_op \<Rightarrow> bool" where
  "calm_op (USetMessageCallback k) = (k mod 4 \<noteq> 2)"
| "calm_op UStartRead = False"
| "calm_op UStopRead = False"
| "calm_op (UQueue f) = False"
| "calm_op _ = True"

definition script_env ::
  "'o os_scheme \<Rightarrow> (nat \<Rightarrow> ptr \<Rightarrow> 'a sworld_scheme \<Rightarrow> (ptr \<times> user_op) list) \<Rightarrow> 'a sworld_ext env" where
  "script_env os script k p w = foldR (user_call os) (script k p w) w"

lemma quiet_retrieve: "quiet_res l w (user_step os p (URetrieve n) w)"
  by (auto simp: get_conn_def derefR_eq_Inr quiet_put_conn intro!: quiet_res_bind)

lemma quiet_user_step:
  assumes "sound l w" "cw_conns w p = Some c" "calm_op x"
  shows "quiet_res l w (user_step os p x w)"
proof -
  have so: "reading w" "isInLoopThread (tc_loop c) w" using soundD(2-4) [OF assms(1)] assms(2) by simp_all
  show ?thesis
  proof (cases x)
    case (USend buf)
    with quiet_send [OF so(1) assms(2) so(2)] show ?thesis by simp
  next
    case (USetMessageCallback k)
    with assms(2,3) show ?thesis
      by (simp add: setMessageCallback_conn_def) (rule quiet_put_conn, simp_all add: conn_calm_def msg_ok_def)
  next
    case UShutdown
    with quiet_shutdown [OF assms(2) so(2)] show ?thesis by simp
  qed (use assms quiet_retrieve quiet_forceClose quiet_forceCloseWithDelay in \<open>simp_all del: user_step.simps(7)\<close>)
qed

lemma sound_quiet:
  assumes "sound l w" "conns_inv w'" "evolves user_forward w w'" "quiet l w w'"
  shows "sound l w'"
  by (rule sound_tame [OF assms(1,2) quiet_tame [OF assms(3,4)]])

lemma calms_user_call:
  assumes "epoll_ctl_contract os" "write_contract os" "sound l w" "calm_op (snd x)"
  shows "calms l w (user_call os x w)"
proof -
  obtain p y where x: "x = (p, y)" by force
  have inv: "conns_inv w" using soundD(1) [OF assms(3)] .
  show ?thesis
  proof (cases "cw_conns w p")
    case (Some c)
    have "calms l w (user_step os p y w)" if "user_ok y c"
      using effect_safe [OF effect_user_step [OF assms(1,2) inv Some that]] quiet_user_step [OF assms(3) Some] assms(4)
      by (simp add: calms_def x)
    with Some calms_refl [OF inv] show ?thesis by (simp add: user_call_def x)
  qed (simp add: user_call_def x calms_refl [OF inv])
qed

lemma calms_foldR:
  assumes "sound l w" "\<And>x u. x \<in> set xs \<Longrightarrow> sound l u \<Longrightarrow> calms l u (f x u)"
  shows "calms l w (foldR f xs w)"
  using assms
proof (induction xs arbitrary: w)
  case Nil
  then show ?case using calms_refl soundD(1) by auto
next
  case (Cons x xs)
  have "calms l w (bindR (f x w) (foldR f xs))"
  proof (rule calms_bind)
    show "calms l w (f x w)" using Cons.prems by simp
    fix u assume u: "conns_inv u" "evolves user_forward w u" "quiet l w u"
    show "calms l u (foldR f xs u)"
      by (rule Cons.IH [OF sound_quiet [OF Cons.prems(1) u]]) (simp add: Cons.prems(2))
  qed
  then show ?case by simp
qed

lemma calms_defaultMessage:
  assumes "conns_inv w" "cw_conns w p = Some c"
  shows "calms l w (defaultMessageCallback p w)"
proof -
  let ?w = "put_conn p (c\<lparr>tc_inputBuffer := retrieveAll (tc_inputBuffer c)\<rparr>) w"
  have "buffer_inv (tc_inputBuffer c)" using assms by (rule conns_invE)
  then have "conns_inv ?w" by (intro conns_inv_input [OF assms]) (simp add: retrieveAll_inv)
  moreover have "evolves user_forward w ?w"
    by (rule evolves_put_conn [OF _ assms(2)]) (simp_all add: conn_frame_def user_forward_def)
  ultimately show ?thesis
    using quiet_defaultMessage [of l w p] assms(2) by (simp add: calms_def safe_def defaultMessageCallback_def)
qed

lemma calms_server_env:
  assumes "k mod 4 \<noteq> 2" "sound l w" "cw_conns w p = Some c" "calms l w (user k p w)"
  shows "calms l w (server_env user os k p w)"
  using assms calms_refl calms_defaultMessage soundD(1) [OF assms(2)] by (auto simp: server_env_def)

locale scripted =
  fixes os :: "'o net_os_scheme" and script :: "nat \<Rightarrow> ptr \<Rightarrow> 'a sworld_scheme \<Rightarrow> (ptr \<times> user_op) list" and l :: ptr and cb mb :: nat and wc :: "nat option"
  assumes ctl_ok: "epoll_ctl_contract os" and write_ok: "write_contract os" and cb_ok: "cb mod 4 \<noteq> 2"
    and calm: "x \<in> set (script k p w) \<Longrightarrow> calm_op (snd x)"
begin

lemma script_works:
  assumes "k mod 4 \<noteq> 2" "sound l w" "cw_conns w p = Some c"
  shows "works (\<lambda>_. True) l w (server_env (script_env os script) os k p w)"
proof -
  have "calms l w (script_env os script k p w)"
    unfolding script_env_def using calms_user_call [OF ctl_ok write_ok] calm by (intro calms_foldR [OF assms(2)]) blast
  from calms_server_env [where user = "script_env os script", OF assms this] show ?thesis by (simp add: works_def)
qed

end

sublocale scripted \<subseteq> scripts: application os "script_env os script" l cb mb wc "\<lambda>_. True"
  by unfold_locales (use script_works cb_ok in auto)

locale scripted_server = scripted os script l cb mb wc
  for os :: "'o net_os_scheme" and script :: "nat \<Rightarrow> ptr \<Rightarrow> 'a sworld_scheme \<Rightarrow> (ptr \<times> user_op) list" and l cb mb wc +
  fixes lib :: inet_lib and alloc :: "'a sworld_scheme \<Rightarrow> ptr \<times> ptr" and s ka :: ptr and B W :: "fd set"
  assumes wait_ok: "epoll_wait_contract os" and readv_ok: "readv_contract os" and accept_ok: "accept_contract os lib W"
    and alloc_ok: "fresh_alloc alloc"

sublocale scripted_server \<subseteq> running: served os "script_env os script" l cb mb wc "\<lambda>_. True" lib alloc s ka B W
  by unfold_locales (fact ctl_ok wait_ok readv_ok write_ok accept_ok alloc_ok)+

context scripted_server begin

lemma runs_serving:
  assumes "server_runs os lib alloc (script_env os script) l w ws r" "serving l s cb mb wc B W ka w" "idle_chans w"
    and "\<forall>v \<in> set ws. names_left s v"
  shows "r = Inl LengthError \<or> (\<exists>w'. r = Inr w' \<and> serving l s cb mb wc B W ka w' \<and> idle_chans w')"
  using running.runs_live [OF assms(1) _ assms(2-4)] by simp

end

section \<open>Runs from the start\<close>

text \<open>
  The state of a server whose listening socket is \<open>lfd\<close>: a connection is up and in the map of the server
  under its name, or disconnected and not in the map; the open descriptors are the listening
  socket, the idle descriptor of the acceptor and one for each connection, and every \<open>close\<close> so far was
  of a descriptor that was open.
\<close>

definition well_served :: "ptr \<Rightarrow> fd \<Rightarrow> 'a sworld_scheme \<Rightarrow> bool" where
  "well_served s lfd w \<longleftrightarrow> conns_inv w \<and> server_inv s w \<and>
     closes_open (w_trace w) \<and>
     (\<exists>sv ac. sw_servers w s = Some sv \<and> sw_acceptors w (ts_acceptor sv) = Some ac \<and>
        (\<forall>p c. cw_conns w p = Some c \<longrightarrow> (if tc_state c = kDisconnected then ts_connections sv (tc_name c) \<noteq> Some p
           else up c \<and> ts_connections sv (tc_name c) = Some p)) \<and>
        open_fds (w_trace w) = {lfd, ac_idleFd ac} \<union> conn_fds w \<and> ac_idleFd ac \<noteq> lfd \<and> {lfd, ac_idleFd ac} \<inter> conn_fds w = {} \<and>
        inj_on (\<lambda>p. map_option tc_sockfd (cw_conns w p)) (dom (cw_conns w)))"

lemma serving_well:
  assumes "serving l s cb mb wc {lfd} W ka w"
  shows "well_served s lfd w"
proof -
  from assms obtain sv ac where sv: "serves l s cb mb wc {lfd} W {} [] sv ac w" by (auto simp: serving_def)
  note S = servesD [OF sv]
  have "inj_on (\<lambda>p. map_option tc_sockfd (cw_conns w p)) (dom (cw_conns w))"
    using sockfd_owner [OF S(1)] by (auto simp: inj_on_def)
  moreover have "if tc_state c = kDisconnected then ts_connections sv (tc_name c) \<noteq> Some p else up c \<and> ts_connections sv (tc_name c) = Some p"
    if "cw_conns w p = Some c" for p c using S(9) [OF that] by (auto simp: conn_served_def split: if_splits)
  ultimately show ?thesis
    unfolding well_served_def using S(2-4,10-12,18) soundD(1) [OF S(1)] by (auto simp: insert_commute)
qed


section \<open>A kernel and a server to evaluate on\<close>

text \<open>
  \<open>busy_os\<close> hands out descriptors in increasing order from 11 on, always has another connection to
  accept, and reports descriptor 11, which is the listening socket, whenever it is asked.
\<close>

fun fd_of :: "syscall \<Rightarrow> fd" where
  "fd_of (SysSocket fd) = fd"
| "fd_of (SysAccept lfd (Inr fd)) = fd"
| "fd_of (SysOpenDevNull fd) = fd"
| "fd_of _ = 0"

definition next_fd :: "syscall list \<Rightarrow> fd" where
  "next_fd tr = 1 + foldl (\<lambda>m s. max m (fd_of s)) 10 tr"

lemma next_fd_append [simp]: "next_fd (tr @ [s]) = max (next_fd tr) (1 + fd_of s)"
  by (simp add: next_fd_def)

lemma next_fd_large: "11 \<le> next_fd tr"
  by (induction tr rule: rev_induct) (simp_all add: next_fd_def [of "[]"])

lemma next_fd_fresh: "fd \<in> open_fds tr \<Longrightarrow> fd < next_fd tr"
proof (induction tr rule: rev_induct)
  case (snoc c tr)
  then show ?case by (cases "(c, open_fds tr)" rule: fd_effect.cases) auto
qed (simp add: open_fds_def)

definition busy_os :: net_os where
  "busy_os = (os.extend model_os (net_os.fields next_fd (\<lambda>tr fd. 0) (\<lambda>tr fd. 0)
     (\<lambda>tr fd. Inr (next_fd tr, mk_InetAddress_port zero6 99 True False)) (\<lambda>tr fd. 0) next_fd (\<lambda>tr fd. Some zero6) (\<lambda>tr fd. Some zero6)))
     \<lparr>os_epoll_wait := (\<lambda>tr l n. if n \<le> 0 then Inl 22 else Inr (case interest l tr 11 of None \<Rightarrow> [] | Some (ev, c) \<Rightarrow> [(c, ev)]))\<rparr>"

lemma busy_os_simps:
  "os_epoll_ctl busy_os = os_epoll_ctl model_os" "os_readv busy_os = os_readv model_os" "os_write busy_os = os_write model_os"
  "os_epoll_wait busy_os tr l n = (if n \<le> 0 then Inl 22 else Inr (case interest l tr 11 of None \<Rightarrow> [] | Some (ev, c) \<Rightarrow> [(c, ev)]))"
  "os_socket busy_os = next_fd" "os_bind busy_os tr fd = 0" "os_listen busy_os tr fd = 0" "os_open_null busy_os = next_fd"
  "os_accept busy_os tr fd = Inr (next_fd tr, mk_InetAddress_port zero6 99 True False)"
  by (simp_all add: busy_os_def os.defs net_os.defs)

lemma busy_os_contracts:
  "epoll_ctl_contract busy_os" "epoll_wait_contract busy_os" "readv_contract busy_os" "write_contract busy_os"
  "accept_contract busy_os model_lib {5}" "startup_contract busy_os 5"
proof -
  show "epoll_ctl_contract busy_os" by (simp add: epoll_ctl_contract_def busy_os_simps model_os_def)
  show "readv_contract busy_os" "write_contract busy_os"
    using model_os_contracts by (simp_all add: readv_contract_def write_contract_def busy_os_simps)
  show "epoll_wait_contract busy_os"
    unfolding epoll_wait_contract_def busy_os_simps by (auto split: option.splits if_splits intro!: exI [of _ "11 :: int"])
  have n: "next_fd tr \<notin> open_fds tr" "0 \<le> next_fd tr" "next_fd tr \<noteq> 5" for tr
    using next_fd_fresh [of "next_fd tr" tr] next_fd_large [of tr] by auto
  then show "accept_contract busy_os model_lib {5}" "startup_contract busy_os 5"
    by (simp_all add: accept_contract_def startup_contract_def busy_os_simps model_lib_ok)
qed

text \<open>An echo of one byte that closes its side of the connection afterwards.\<close>

definition once_script :: "nat \<Rightarrow> ptr \<Rightarrow> sworld \<Rightarrow> (ptr \<times> user_op) list" where
  "once_script k p w = (if k = 7 then [(p, URetrieve 1), (p, USend hello), (p, UShutdown)] else [])"

definition new_ptr :: "(ptr \<rightharpoonup> 'b) \<Rightarrow> ptr" where
  "new_ptr m = Suc (Max (insert 0 (dom m)))"

lemma new_ptr_fresh: "finite (dom m) \<Longrightarrow> m (new_ptr m) = None"
proof (rule ccontr)
  assume "finite (dom m)" "m (new_ptr m) \<noteq> None"
  then have "new_ptr m \<le> Max (insert 0 (dom m))" by (intro Max_ge) auto
  then show False by (simp add: new_ptr_def)
qed

definition new_ptrs :: "'a sworld_scheme \<Rightarrow> ptr \<times> ptr" where
  "new_ptrs w = (new_ptr (cw_conns w), new_ptr (w_chans w))"

lemma new_ptrs_fresh: "fresh_alloc new_ptrs"
  by (auto simp: fresh_alloc_def new_ptrs_def new_ptr_fresh)

interpretation once: scripted_server busy_os once_script 0 5 7 None model_lib new_ptrs 20 22 "{11}" "{5}"
  by unfold_locales (use busy_os_contracts new_ptrs_fresh in \<open>auto simp: once_script_def split: if_splits\<close>)

definition empty_process :: sworld where
  "empty_process = \<lparr>w_tid = 1, w_chans = Map.empty, w_loops = (\<lambda>_. model_loop\<lparr>el_poller := mk_Poller\<rparr>), w_trace = [],
     cw_conns = Map.empty, sw_acceptors = Map.empty, sw_servers = Map.empty\<rparr>"

lemma empty_process_new: "new_process empty_process"
  by (simp add: new_process_def empty_process_def mk_Poller_def)

text \<open>A server that has just come up has a name for the first connection.\<close>

lemma toIpPort_short:
  assumes "inet_ok lib a" "toIpPort lib a = Inr str"
  shows "length str \<le> 60"
  using assms(1) assms(2) [unfolded toIpPort_ok [OF assms(1)]] length_decimal_port [of "port a"]
  by (auto simp: inet_ok_def INET_ADDRSTRLEN_def INET6_ADDRSTRLEN_def split: if_splits)

lemma names_left_first:
  assumes "sw_servers w s = Some sv" "ts_nextConnId sv = 1" "length (ts_ipPort sv) \<le> 60"
  shows "names_left s w"
  using assms by (simp add: names_left_def name_fits_def signed_decimal_def decimal.simps)

lemma booted_names:
  assumes "epoll_ctl_contract os" "startup_contract os wfd" "new_process w" "wk \<noteq> ka" "inet_ok lib listenAddr"
    and "cb mod 4 \<noteq> 2" "mb mod 4 \<noteq> 2" "\<And>k. wc = Some k \<Longrightarrow> k mod 4 \<noteq> 2"
    and "boot_server os lib starter junk wfd l wk s a ka listenAddr name cb mb wc w = Inr w'"
  shows "names_left s w'"
proof -
  from assms(1-8) obtain v sv where "boot_server os lib starter junk wfd l wk s a ka listenAddr name cb mb wc w = Inr v"
    "sw_servers v s = Some sv" "toIpPort lib listenAddr = Inr (ts_ipPort sv)" "ts_nextConnId sv = 1"
    by (rule boots [where starter = starter and junk = junk and l = l and s = s and a = a and name = name]) blast
  with assms(9) names_left_first toIpPort_short [OF assms(5)] show ?thesis by auto
qed


end
