(* ===== verification/RpcServer.thy ===== *)
theory RpcServer
  imports RpcChannel Server
begin

text \<open>
  \<open>RpcServer.h\<close> and \<open>RpcServer.cc\<close>: a \<open>TcpServer\<close> whose connections carry remote procedure calls. The
  context of a connection holds the only reference to its channel, so that the channel is destroyed
  when the context is cleared. Callbacks of a connection: \<open>4 * rs + 1\<close> is \<open>RpcServer::onConnection\<close> bound
  to server \<open>rs\<close>, \<open>4 * q + 3\<close> is \<open>RpcChannel::onMessage\<close> bound to the bare pointer of channel \<open>q\<close>. The channel
  of a connection sees the services that are registered when the connection comes up; the sources
  register all services before the server is started.
\<close>

section \<open>State\<close>

record 'v rpc_server =
  rsv_server :: ptr
  rsv_services :: "string \<rightharpoonup> 'v option"

record ('r, 'd, 'v) rworld = sworld +
  rw_channels :: "ptr \<rightharpoonup> ('r, 'd, 'v) rpc_channel"
  rw_context :: "ptr \<rightharpoonup> ptr"
  rw_rpcs :: "ptr \<rightharpoonup> 'v rpc_server"

type_synonym ('r, 'd, 'v, 'a) rpc_env = "('r, 'd, 'v, 'a) rworld_ext sworld_ext env"

definition put_rpc :: "ptr \<Rightarrow> 'v rpc_server \<Rightarrow> ('r, 'd, 'v, 'a) rworld_scheme \<Rightarrow> ('r, 'd, 'v, 'a) rworld_scheme" where
  "put_rpc rs r w = w\<lparr>rw_rpcs := (rw_rpcs w)(rs \<mapsto> r)\<rparr>"

definition put_channel ::
  "ptr \<Rightarrow> ('r, 'd, 'v) rpc_channel \<Rightarrow> ('r, 'd, 'v, 'a) rworld_scheme \<Rightarrow> ('r, 'd, 'v, 'a) rworld_scheme" where
  "put_channel q rc w = w\<lparr>rw_channels := (rw_channels w)(q \<mapsto> rc)\<rparr>"

definition cb_onConnection :: "ptr \<Rightarrow> nat" where
  "cb_onConnection rs = 4 * rs + 1"

definition cb_onMessage :: "ptr \<Rightarrow> nat" where
  "cb_onMessage q = 4 * q + 3"

section \<open>RpcServer.cc\<close>

definition mk_RpcServer ::
  "'o net_os_scheme \<Rightarrow> inet_lib \<Rightarrow> ptr \<Rightarrow> ptr \<Rightarrow> ptr \<Rightarrow> ptr \<Rightarrow> ptr \<Rightarrow> inet_address \<Rightarrow>
   ('r, 'd, 'v, 'a) rworld_scheme \<Rightarrow> ('r, 'd, 'v, 'a) rworld_scheme res" where
  "mk_RpcServer os lib rs s a ch l listenAddr w =
     bindR (mk_TcpServer os lib s a ch l listenAddr ''RpcServer'' w) (\<lambda>w1.
     bindR (derefR (sw_servers w1 s)) (\<lambda>sv.
       Inr (put_rpc rs \<lparr>rsv_server = s, rsv_services = Map.empty\<rparr>
              (put_server s (setConnectionCallback_server (Some (cb_onConnection rs)) sv) w1))))"

definition setThreadNum_rpc ::
  "ptr \<Rightarrow> int \<Rightarrow> ('r, 'd, 'v, 'a) rworld_scheme \<Rightarrow> ('r, 'd, 'v, 'a) rworld_scheme res" where
  "setThreadNum_rpc rs numThreads w = bindR (derefR (rw_rpcs w rs)) (\<lambda>r. setThreadNum (rsv_server r) numThreads w)"

definition registerService ::
  "ptr \<Rightarrow> string \<Rightarrow> 'v option \<Rightarrow> ('r, 'd, 'v, 'a) rworld_scheme \<Rightarrow> ('r, 'd, 'v, 'a) rworld_scheme res" where
  "registerService rs full_name service w =
     bindR (derefR (rw_rpcs w rs)) (\<lambda>r. bindR (derefR service) (\<lambda>_.
       Inr (put_rpc rs (r\<lparr>rsv_services := (rsv_services r)(full_name \<mapsto> service)\<rparr>) w)))"

definition start_rpc ::
  "'o net_os_scheme \<Rightarrow> (('r, 'd, 'v, 'a) rworld_scheme \<Rightarrow> ((ptr \<times> ptr) \<times> ('r, 'd, 'v, 'a) rworld_scheme) res) \<Rightarrow> ptr \<Rightarrow>
   ('r, 'd, 'v, 'a) rworld_scheme \<Rightarrow> ('r, 'd, 'v, 'a) rworld_scheme res" where
  "start_rpc os starter rs w = bindR (derefR (rw_rpcs w rs)) (\<lambda>r. start_server os starter None (rsv_server r) w)"

text \<open>Clearing a context destroys the channel it held.\<close>

definition clear_context :: "ptr \<Rightarrow> ('r, 'd, 'v, 'a) rworld_scheme \<Rightarrow> ('r, 'd, 'v, 'a) rworld_scheme" where
  "clear_context p w =
     (case rw_context w p of
        None \<Rightarrow> w
      | Some q \<Rightarrow> w\<lparr>rw_context := (rw_context w)(p := None), rw_channels := (rw_channels w)(q := None)\<rparr>)"

definition onConnection ::
  "64 word \<Rightarrow> (('r, 'd, 'v, 'a) rworld_scheme \<Rightarrow> ptr) \<Rightarrow> ptr \<Rightarrow> ptr \<Rightarrow>
   ('r, 'd, 'v, 'a) rworld_scheme \<Rightarrow> ('r, 'd, 'v, 'a) rworld_scheme res" where
  "onConnection junk alloc rs p w =
     bindR (derefR (rw_rpcs w rs)) (\<lambda>r. bindR (get_conn p w) (\<lambda>c.
       if tc_state c = kConnected then
         let q = alloc w; channel = setServices (Some (rsv_services r)) (mk_RpcChannel junk (Some p)) in
         bindR (upd_conn p (setMessageCallback_conn (Some (cb_onMessage q))) (put_channel q channel w)) (\<lambda>w1.
           let w2 = clear_context p w1 in
           Inr (w2\<lparr>rw_context := (rw_context w2)(p \<mapsto> q)\<rparr>))
       else Inr (clear_context p w)))"

section \<open>Dispatch\<close>

text \<open>\<open>RpcChannel::onMessage\<close> on the input buffer of the connection; replies go out by \<open>TcpConnection::send\<close>.\<close>

definition rpc_onMessage ::
  "'o os_scheme \<Rightarrow> (32 word \<Rightarrow> byte list \<Rightarrow> 32 word) \<Rightarrow> (RpcMessage \<Rightarrow> byte list) \<Rightarrow> (byte list \<Rightarrow> RpcMessage option) \<Rightarrow>
   ('v, 'q, ('r, 'd, 'v) rpc_channel \<times> ('r, 'd, 'v, 'a) rworld_scheme) service_ops \<Rightarrow> ('r \<Rightarrow> byte list \<Rightarrow> 'r) \<Rightarrow>
   ('d \<Rightarrow> 'r \<Rightarrow> ('r, 'd, 'v) rpc_channel \<times> ('r, 'd, 'v, 'a) rworld_scheme \<Rightarrow>
      (('r, 'd, 'v) rpc_channel \<times> ('r, 'd, 'v, 'a) rworld_scheme) res) \<Rightarrow>
   ptr \<Rightarrow> ptr \<Rightarrow> ('r, 'd, 'v, 'a) rworld_scheme \<Rightarrow> ('r, 'd, 'v, 'a) rworld_scheme res" where
  "rpc_onMessage os adler ser pfa ops pfs run_done q p w =
     bindR (derefR (rw_channels w q)) (\<lambda>rc. bindR (get_conn p w) (\<lambda>c.
     bindR (onMessage_channel adler pfa (codec_send adler ser (tcp_send os)) ops pfs run_done p (tc_inputBuffer c) (rc, w))
       (\<lambda>(b, rc1, w1). upd_conn p (\<lambda>c. c\<lparr>tc_inputBuffer := b\<rparr>) (put_channel q rc1 w1))))"

definition rpc_callbacks ::
  "64 word \<Rightarrow> (('r, 'd, 'v, 'a) rworld_scheme \<Rightarrow> ptr) \<Rightarrow>
   (ptr \<Rightarrow> ptr \<Rightarrow> ('r, 'd, 'v, 'a) rworld_scheme \<Rightarrow> ('r, 'd, 'v, 'a) rworld_scheme res) \<Rightarrow> ('r, 'd, 'v, 'a) rpc_env" where
  "rpc_callbacks junk alloc onMsg n p w =
     (if n mod 4 = 1 then onConnection junk alloc (n div 4) p w
      else if n mod 4 = 3 then onMsg (n div 4) p w
      else Inr w)"

section \<open>Replies\<close>

lemma rpc_world_frame [simp]:
  "w_tid (put_channel q rc w) = w_tid w" "w_chans (put_channel q rc w) = w_chans w" "w_loops (put_channel q rc w) = w_loops w"
  "w_trace (put_channel q rc w) = w_trace w" "cw_conns (put_channel q rc w) = cw_conns w"
  by (simp_all add: put_channel_def)

lemma tcp_send_ok:
  assumes os: "epoll_ctl_contract os" "write_contract os" "peer_alive os" and inv: "conns_inv w"
    and p: "cw_conns w p = Some c" "tc_state c = kConnected" "isInLoopThread (tc_loop c) w" "own_fd p w" and buf: "buffer_inv buf"
  shows "tcp_send os p buf w = Inl LengthError \<or>
    (\<exists>w'. tcp_send os p buf w = Inr w' \<and> conns_inv w' \<and> evolves user_forward w w' \<and> stream p w' = stream p w @ content buf \<and>
       (\<exists>b. cw_conns w' p = Some (c\<lparr>tc_outputBuffer := b\<rparr>)) \<and> cworld.more w' = cworld.more w)"
proof -
  have "tcp_send os p buf w = sendInLoop os p (content buf) w"
    using p peek_all [OF buf] by (cases "sendInLoop os p (content buf) w") (simp_all add: tcp_send_def send_def)
  moreover have "up c" using p(2) by (simp add: up_def)
  ultimately show ?thesis
    using sendInLoop_effect [OF os(1,2) inv p(1) _ content_small [OF buf]] p(1,4) os(3) by (auto simp: own_fd_def)
qed

lemma requests_over_tcp:
  assumes os: "epoll_ctl_contract os" "write_contract os" "peer_alive os"
    and rc: "prompt ops serve" "no_null (rc_services rc)" "rc_conn rc = Some p"
    and ms: "\<forall>m \<in> set ms. rm_type m = REQUEST \<and> length (ser (reply (rc_services rc) ops serve m)) + 8 < 2 ^ 31"
    and inv: "conns_inv w" and p: "cw_conns w p = Some c" "tc_state c = kConnected" "isInLoopThread (tc_loop c) w" "own_fd p w"
    and r: "r = foldR (onRpcMessage (codec_send adler ser (tcp_send os)) ops pfs run_done p) ms (rc, w)"
  shows "r = Inl LengthError \<or> (\<exists>w'. r = Inr (rc, w') \<and> conns_inv w' \<and> evolves user_forward w w' \<and>
    stream p w' = stream p w @ concat (map (frame adler ser) (map (reply (rc_services rc) ops serve) ms)) \<and>
    (\<exists>b. cw_conns w' p = Some (c\<lparr>tc_outputBuffer := b\<rparr>)) \<and> cworld.more w' = cworld.more w)"
  using ms inv p r
proof (induction ms arbitrary: w c r)
  case Nil
  then show ?case by (auto intro: exI [of _ "tc_outputBuffer c"])
next
  case (Cons m ms)
  let ?f = "onRpcMessage (codec_send adler ser (tcp_send os)) ops pfs run_done p"
  let ?rep = "reply (rc_services rc) ops serve"
  have short: "length (ser (?rep m)) + 8 < 2 ^ 31" using Cons.prems(1) by simp
  from short obtain buf where buf: "encode_message adler ser (?rep m) = Inr buf" "buffer_inv buf" "content buf = frame adler ser (?rep m)"
    by (rule encode_message_ok)
  have step: "?f m (rc, w) = bindR (tcp_send os p buf w) (\<lambda>w'. Inr (rc, w'))"
    using Cons.prems(1) rc buf(1) handle_request_reply [where csend = "codec_send adler ser (tcp_send os)", OF rc(1,2)]
    by (simp add: onRpcMessage_def codec_send_def)
  from tcp_send_ok [OF os Cons.prems(2-6) buf(2)] consider "tcp_send os p buf w = Inl LengthError"
    | (ok) w1 b where "tcp_send os p buf w = Inr w1" "conns_inv w1" "evolves user_forward w w1" "stream p w1 = stream p w @ content buf"
        "cw_conns w1 p = Some (c\<lparr>tc_outputBuffer := b\<rparr>)" "cworld.more w1 = cworld.more w" by blast
  then show ?case
  proof cases
    case 1
    with step Cons.prems(7) show ?thesis by simp
  next
    case ok
    let ?c = "c\<lparr>tc_outputBuffer := b\<rparr>"
    have "isInLoopThread (tc_loop ?c) w1"
      by (rule evolves_thread [OF ok(3) _ Cons.prems(5)]) (simp add: conn_frame_def)
    moreover have "r = foldR ?f ms (rc, w1)" using step ok(1) Cons.prems(7) by simp
    ultimately have "r = Inl LengthError \<or> (\<exists>w'. r = Inr (rc, w') \<and> conns_inv w' \<and> evolves user_forward w1 w' \<and>
        stream p w' = stream p w1 @ concat (map (frame adler ser) (map ?rep ms)) \<and>
        (\<exists>b. cw_conns w' p = Some (?c\<lparr>tc_outputBuffer := b\<rparr>)) \<and> cworld.more w' = cworld.more w1)"
      using Cons.IH [of w1 ?c r] Cons.prems(1,4) ok(2,5) own_fd_evolves [OF ok(3) Cons.prems(6)] by simp
    then show ?thesis
      using evolves_trans [OF order_forward(2) ok(3)] ok(4,6) buf(3) by auto
  qed
qed

lemma cb_onMessage_env:
  "server_env (rpc_callbacks junk alloc onMsg) os (cb_onMessage q) p w = onMsg q p w"
  "server_env (rpc_callbacks junk alloc onMsg) os (cb_onConnection rs) p w = onConnection junk alloc rs p w"
proof -
  have "cb_onMessage q mod 4 = 3" "cb_onMessage q div 4 = q" "cb_onConnection rs mod 4 = 1" "cb_onConnection rs div 4 = rs"
    "cb_onMessage q \<noteq> 0" "cb_onMessage q \<noteq> 4" "cb_onConnection rs \<noteq> 0" "cb_onConnection rs \<noteq> 4"
    unfolding cb_onMessage_def cb_onConnection_def by presburger+
  then show "server_env (rpc_callbacks junk alloc onMsg) os (cb_onMessage q) p w = onMsg q p w"
    "server_env (rpc_callbacks junk alloc onMsg) os (cb_onConnection rs) p w = onConnection junk alloc rs p w"
    by (simp_all add: server_env_def rpc_callbacks_def)
qed

lemma conns_inv_put_channel [simp]: "conns_inv (put_channel q rc w) \<longleftrightarrow> conns_inv w"
  using conns_inv_cong [of w "put_channel q rc w"] conns_inv_cong [of "put_channel q rc w" w] by auto

text \<open>The message callback of a connection of the server, on input that has been read.\<close>

lemma rpc_onMessage_ok:
  assumes os: "epoll_ctl_contract os" "write_contract os" "peer_alive os" and adler: "is_adler32 adler"
    and rc: "prompt ops serve" "no_null (rc_services rc)" "rc_conn rc = Some p" "rw_channels w q = Some rc"
    and inv: "conns_inv w" and p: "cw_conns w p = Some c" "tc_state c = kConnected" "isInLoopThread (tc_loop c) w" "own_fd p w"
    and dr: "drain (decode_step adler pfa) (content (tc_inputBuffer c)) = (ms, rest)"
    and ms: "\<forall>m \<in> set ms. rm_type m = REQUEST \<and> length (ser (reply (rc_services rc) ops serve m)) + 8 < 2 ^ 31"
    and r: "r = rpc_onMessage os adler ser pfa ops pfs run_done q p w"
  shows "r = Inl LengthError \<or> (\<exists>w' c'. r = Inr w' \<and> conns_inv w' \<and> cw_conns w' p = Some c' \<and> tc_state c' = kConnected \<and>
    content (tc_inputBuffer c') = rest \<and> rw_channels w' = rw_channels w \<and>
    stream p w' = stream p w @ concat (map (frame adler ser) (map (reply (rc_services rc) ops serve) ms)))"
proof -
  let ?f = "onRpcMessage (codec_send adler ser (tcp_send os)) ops pfs run_done p"
  have bi: "buffer_inv (tc_inputBuffer c)" using inv p(1) by (rule conns_invE)
  from onMessage_drain [OF adler bi, of pfa ?f "(rc, w)"] dr obtain b' where b': "buffer_inv b'" "content b' = rest"
    "onMessage adler pfa ?f (tc_inputBuffer c) (rc, w) = bindR (foldR ?f ms (rc, w)) (\<lambda>s. Inr (b', s))" by auto
  have run: "r = bindR (foldR ?f ms (rc, w)) (\<lambda>(rc1, w1). upd_conn p (\<lambda>c. c\<lparr>tc_inputBuffer := b'\<rparr>) (put_channel q rc1 w1))"
    using p(1) rc(4) b'(3) by (simp add: r rpc_onMessage_def onMessage_channel_def bindR_assoc case_prod_unfold)
  from requests_over_tcp [OF os rc(1-3) ms inv p refl] consider "foldR ?f ms (rc, w) = Inl LengthError"
    | (ok) w1 b where "foldR ?f ms (rc, w) = Inr (rc, w1)" "conns_inv w1" "cworld.more w1 = cworld.more w"
        "stream p w1 = stream p w @ concat (map (frame adler ser) (map (reply (rc_services rc) ops serve) ms))"
        "cw_conns w1 p = Some (c\<lparr>tc_outputBuffer := b\<rparr>)" by blast
  then show ?thesis
  proof cases
    case 1
    with run show ?thesis by simp
  next
    case ok
    let ?c = "c\<lparr>tc_outputBuffer := b\<rparr>" and ?c' = "c\<lparr>tc_outputBuffer := b, tc_inputBuffer := b'\<rparr>"
    let ?w = "put_conn p ?c' (put_channel q rc w1)"
    have chans: "rw_channels w1 = rw_channels w" using ok(3) by (cases w1, cases w) (simp add: sworld.defs rworld.defs)
    have "r = Inr ?w" using run ok(1,5) by simp
    moreover have "conns_inv (put_channel q rc w1)" "cw_conns (put_channel q rc w1) p = Some ?c" using ok(2,5) by simp_all
    from conns_inv_input [OF this b'(1)] have "conns_inv ?w" .
    moreover note this
    moreover have "stream p ?w = stream p w1" using ok(5) by (simp add: stream_def)
    moreover have "rw_channels ?w = rw_channels w" using chans rc(4) by (simp add: put_channel_def put_conn_def fun_upd_idem)
    ultimately show ?thesis
      using ok(4) p(2) b'(2) by (intro disjI2 exI [of _ ?w] exI [of _ ?c']) simp
  qed
qed

text \<open>
  C2: a server answers over its connections. When a connection whose message callback is the \<open>onMessage\<close>
  of its channel becomes readable, \<open>handleRead\<close> reads what the kernel has, runs every complete request of
  the input received so far, partial frames of earlier reads included, and hands the replies to
  \<open>TcpConnection::send\<close>: the stream of the connection (what the kernel has accepted and what waits in the
  output buffer) grows by exactly the frames of the replies, in order. The incomplete rest of the input
  stays in the buffer, the connection stays up, and no assertion fails; the only other outcome is
  \<open>std::length_error\<close> when the replies exceed the largest vector.
\<close>

theorem rpc_server_answers:
  assumes "epoll_ctl_contract os" "write_contract os" "peer_alive os" "readv_contract os" "is_adler32 adler"
    and "prompt ops serve" "no_null (rc_services rc)" "rc_conn rc = Some p" "rw_channels w q = Some rc"
    and "conns_inv w" "cw_conns w p = Some c" "tc_state c = kConnected" "isInLoopThread (tc_loop c) w" "own_fd p w"
    and "tc_messageCb c = Some (cb_onMessage q)" "has_room (tc_inputBuffer c) extrabuf_size"
    and "os_readv os (w_trace w) (tc_sockfd c) (iov_lens (tc_inputBuffer c)) = Inr d" "d \<noteq> []"
    and "drain (decode_step adler pfa) (content (tc_inputBuffer c) @ d) = (ms, rest)"
    and "\<forall>m \<in> set ms. rm_type m = REQUEST \<and> length (ser (reply (rc_services rc) ops serve m)) + 8 < 2 ^ 31"
    and "env = server_env (rpc_callbacks junk alloc (rpc_onMessage os adler ser pfa ops pfs run_done)) os"
  shows "handleRead_conn env os p w = Inl LengthError \<or>
    (\<exists>w' c'. handleRead_conn env os p w = Inr w' \<and> conns_inv w' \<and> cw_conns w' p = Some c' \<and> tc_state c' = kConnected \<and>
       content (tc_inputBuffer c') = rest \<and> rw_channels w' = rw_channels w \<and>
       stream p w' = stream p w @ concat (map (frame adler ser) (map (reply (rc_services rc) ops serve) ms)))"
proof -
  from assms(10,11) obtain ch where ch: "w_chans w (tc_channel c) = Some ch" "linked p c ch" and bi: "buffer_inv (tc_inputBuffer c)"
    by (rule conns_invE)
  have fd: "ch_fd ch = tc_sockfd c" using ch(2) by (simp add: linked_def)
  have "length d \<le> sum_list (iov_lens (tc_inputBuffer c))" using assms(4,17) unfolding readv_contract_def by blast
  with bi assms(16,17) obtain b where b: "readFd (os_readv os (w_trace w) (tc_sockfd c)) (tc_inputBuffer c) = Inr (int (length d), None, b)"
    "buffer_inv b" "content b = content (tc_inputBuffer c) @ d"
    by (rule readFd_ok [where readv = "os_readv os (w_trace w) (tc_sockfd c)"])
  let ?w1 = "log_call (SysReadv (tc_sockfd c) (iov_lens (tc_inputBuffer c)) (Inr d)) w" and ?c = "c\<lparr>tc_inputBuffer := b\<rparr>"
  let ?w2 = "put_conn p ?c ?w1"
  have read: "handleRead_conn env os p w = rpc_onMessage os adler ser pfa ops pfs run_done q p ?w2"
    using assms(11,15,17,18,21) ch(1) fd b(1) by (simp add: handleRead_conn_def Let_def call_cb_def cb_onMessage_env)
  have "conns_inv ?w1" "cw_conns ?w1 p = Some c" using assms(10,11) by simp_all
  from conns_inv_input [OF this b(2)] have inv2: "conns_inv ?w2" .
  have p2: "cw_conns ?w2 p = Some ?c" "tc_state ?c = kConnected" "isInLoopThread (tc_loop ?c) ?w2" "own_fd p ?w2"
    using assms(11-14) by (simp_all add: isInLoopThread_def own_fd_def)
  have ch2: "rw_channels ?w2 = rw_channels w" by (simp add: put_conn_def log_call_def)
  have str: "stream p ?w2 = stream p w" using assms(11) by (simp add: stream_def)
  have dr: "drain (decode_step adler pfa) (content (tc_inputBuffer ?c)) = (ms, rest)" using assms(19) b(3) by simp
  from rpc_onMessage_ok [OF assms(1-3,5-8) _ inv2 p2 dr assms(20) refl, of q pfs run_done] assms(9)
  show ?thesis by (simp only: read ch2 str)
qed

text \<open>A connection that comes up gets a channel with the services of the server, and its messages go there.\<close>

lemma onConnection_up:
  assumes "rw_rpcs w rs = Some r" "cw_conns w p = Some c" "tc_state c = kConnected" "rw_context w p = None"
  shows "\<exists>w'. onConnection junk alloc rs p w = Inr w' \<and> cw_conns w' = (cw_conns w)(p \<mapsto> c\<lparr>tc_messageCb := Some (cb_onMessage (alloc w))\<rparr>) \<and>
    rw_channels w' (alloc w) = Some \<lparr>rc_conn = Some p, rc_id = junk, rc_outstandings = Map.empty, rc_services = Some (rsv_services r)\<rparr> \<and>
    rw_context w' p = Some (alloc w)"
  using assms
  by (simp add: onConnection_def Let_def clear_context_def put_channel_def put_conn_def setMessageCallback_conn_def
      setServices_def mk_RpcChannel_def)

text \<open>When it goes down the channel is destroyed, and no message is ever handed to it again.\<close>

lemma onConnection_down:
  assumes "rw_rpcs w rs = Some r" "cw_conns w p = Some c" "tc_state c \<noteq> kConnected" "rw_context w p = Some q"
  shows "\<exists>w'. onConnection junk alloc rs p w = Inr w' \<and> cw_conns w' = cw_conns w \<and> rw_channels w' = (rw_channels w)(q := None) \<and>
    rw_context w' p = None"
  using assms by (simp add: onConnection_def clear_context_def)

section \<open>A server to evaluate on\<close>

definition echo_ser :: "RpcMessage \<Rightarrow> byte list" where
  "echo_ser m = (if rm_type m = REQUEST then [0] else [1])"

definition echo_pfa :: "byte list \<Rightarrow> RpcMessage option" where
  "echo_pfa d = (if d = [0] then Some (model_request 1 ''echo'' [7]) else None)"

definition echo_conn :: tcp_connection where
  "echo_conn = model_conn\<lparr>tc_messageCb := Some (cb_onMessage 60)\<rparr>"

definition echo_channel :: "(byte list, nat, nat) rpc_channel" where
  "echo_channel = echo_rc\<lparr>rc_conn := Some 3\<rparr>"

definition model_rworld :: "(byte list, nat, nat) rworld" where
  "model_rworld = \<lparr>w_tid = 1, w_chans = [7 \<mapsto> model_conn_channel], w_loops = w_loops model_world, w_trace = w_trace model_world,
     cw_conns = [3 \<mapsto> echo_conn], sw_acceptors = Map.empty, sw_servers = Map.empty,
     rw_channels = [60 \<mapsto> echo_channel], rw_context = [3 \<mapsto> 60], rw_rpcs = Map.empty\<rparr>"

definition request_os :: os where
  "request_os = model_os\<lparr>os_readv := (\<lambda>tr fd vec.
     if 13 \<le> sum_list vec then Inr (frame adler32_ref echo_ser (model_request 1 ''echo'' [7])) else Inl 11)\<rparr>"

lemma length_echo_ser [simp]: "length (echo_ser m) = 1"
  by (simp add: echo_ser_def)

lemma request_os_contracts:
  "epoll_ctl_contract request_os" "write_contract request_os" "peer_alive request_os" "readv_contract request_os"
  using model_os_ctl model_os_contracts
  by (simp_all add: request_os_def epoll_ctl_contract_def write_contract_def peer_alive_def readv_contract_def
      split: if_splits)

lemma model_rworld_inv: "conns_inv model_rworld"
proof -
  have r: "registry_inv l model_rworld" for l
    by (rule registry_inv_intro)
      (auto simp: model_rworld_def model_conn_defs model_defs mk_Poller_def interest_def index_defs split: if_splits)
  then have "reactor_inv model_rworld"
    by (auto simp: reactor_inv_def fds_unique_def model_rworld_def split: if_splits)
  moreover have "conn_ok 3 echo_conn model_rworld"
    by (simp add: model_rworld_def echo_conn_def conn_ok_def model_conn_defs model_channel_def linked_def state_ok_def
        isWriting_bit plain_events_def ReadEvent_def WriteEvent_def poll_defs index_defs bit_1_iff)
  ultimately show ?thesis by (auto simp: conns_inv_def model_rworld_def split: if_splits)
qed

theorem rpc_server_answers_witness:
  "let r = handleRead_conn (server_env (rpc_callbacks 0 (\<lambda>_. 0)
       (rpc_onMessage request_os adler32_ref echo_ser echo_pfa echo_ops (\<lambda>r d. d) (\<lambda>d r. Inr))) request_os) request_os 3 model_rworld in
   r = Inl LengthError \<or> (\<exists>w'. r = Inr w' \<and>
     stream 3 w' = stream 3 model_rworld @ frame adler32_ref echo_ser (result_reply [7] (model_request 1 ''echo'' [7])))"
proof -
  let ?m = "model_request 1 ''echo'' [7]" and ?serve = "\<lambda>v m q. q"
  have send: "\<forall>m \<in> set [?m]. sendable echo_ser echo_pfa m"
    by (simp add: sendable_def echo_ser_def echo_pfa_def kMaxMessageLen_def model_request_def new_RpcMessage_def)
  have dr: "drain (decode_step adler32_ref echo_pfa) (frame adler32_ref echo_ser ?m) = ([?m], [])"
    using drain_frames [OF send, of adler32_ref "[]"] rpcdec.drain_None by simp
  have world: "rw_channels model_rworld 60 = Some echo_channel" "cw_conns model_rworld 3 = Some echo_conn" "tc_state echo_conn = kConnected"
    "isInLoopThread (tc_loop echo_conn) model_rworld" "own_fd 3 model_rworld" "tc_messageCb echo_conn = Some (cb_onMessage 60)"
    "tc_inputBuffer echo_conn = empty_buffer" "tc_sockfd echo_conn = 5"
    by (simp_all add: model_rworld_def echo_conn_def model_conn_def isInLoopThread_def own_fd_def model_defs)
  have chan: "no_null (rc_services echo_channel)" "rc_conn echo_channel = Some 3" "rc_services echo_channel = rc_services echo_rc"
    using echo_facts(2) by (simp_all add: echo_channel_def)
  have room: "has_room (tc_inputBuffer echo_conn) extrabuf_size" "13 \<le> sum_list (iov_lens (tc_inputBuffer echo_conn))"
    by (simp_all add: world(7) empty_buffer_def has_room_def extrabuf_size_def max_size_def iov_lens_def)
  have rd: "os_readv request_os (w_trace model_rworld) (tc_sockfd echo_conn) (iov_lens (tc_inputBuffer echo_conn)) = Inr (frame adler32_ref echo_ser ?m)"
    using room(2) by (simp add: request_os_def)
  have reply: "reply (rc_services echo_channel) echo_ops ?serve ?m = result_reply [7] ?m"
    by (simp add: chan(3) reply_def echo_rc_def echo_ops_def model_request_def)
  have ms: "\<forall>m \<in> set [?m]. rm_type m = REQUEST \<and> length (echo_ser (reply (rc_services echo_channel) echo_ops ?serve m)) + 8 < 2 ^ 31"
    by (simp add: model_request_def new_RpcMessage_def)
  have ne: "frame adler32_ref echo_ser ?m \<noteq> []" by (metis length_frame list.size(3) add_is_0 numeral_eq_iff zero_neq_numeral)
  have dr': "drain (decode_step adler32_ref echo_pfa) (content (tc_inputBuffer echo_conn) @ frame adler32_ref echo_ser ?m) = ([?m], [])"
    using dr by (simp add: world(7))
  show ?thesis
    using rpc_server_answers [where ser = echo_ser and junk = 0 and alloc = "\<lambda>_. 0" and pfs = "\<lambda>r d. d" and run_done = "\<lambda>d r. Inr",
        OF request_os_contracts adler32_ref_ok echo_facts(1) chan(1,2) world(1) model_rworld_inv world(2-6) room(1) rd ne dr' ms refl]
    by (auto simp: Let_def reply)
qed

end
