(* ===== verification/RpcLoop.thy ===== *)
theory RpcLoop
  imports ServerSafety RpcServer
begin

text \<open>
  \<open>RpcServer\<close> as an application of the server that runs in one thread: whatever bytes arrive on its
  connections, the callbacks \<open>RpcServer::onConnection\<close> and \<open>RpcChannel::onMessage\<close> keep the channels and the
  contexts of the connections in order and do nothing a callback must not do.
\<close>

section \<open>Messages of any kind\<close>

lemma inner_tcp_send:
  assumes "epoll_ctl_contract os" "write_contract os" "sound l w" "cw_conns w p = Some c" "buffer_inv buf" "tcp_send os p buf w = Inr w'"
  shows "inner w w'"
proof (cases "tc_state c = kConnected")
  case True
  have thr: "isInLoopThread (tc_loop c) w" using soundD(3,4) [OF assms(3)] assms(4) by simp
  have "tcp_send os p buf w = sendInLoop os p (content buf) w"
    using assms(4) True thr peek_all [OF assms(5)] by (cases "sendInLoop os p (content buf) w") (simp_all add: tcp_send_def send_def)
  moreover have "up c" using True by (simp add: up_def)
  ultimately obtain b where "cw_conns w' = (cw_conns w)(p \<mapsto> c\<lparr>tc_outputBuffer := b\<rparr>)" "cworld.more w' = cworld.more w"
    using sendInLoop_effect [OF assms(1,2) soundD(1) [OF assms(3)] assms(4) _ content_small [OF assms(5)]] assms(6) by fastforce
  with assms(4) show ?thesis by (simp add: inner_def)
next
  case False
  with assms(4,6) show ?thesis by (simp add: tcp_send_def send_def)
qed

lemma calms_tcp_send:
  assumes "epoll_ctl_contract os" "write_contract os" "sound l w" "cw_conns w p = Some c" "buffer_inv buf"
  shows "calms l w (tcp_send os p buf w)"
proof -
  have "tcp_send os p buf w = user_call os (p, USend buf) w" using assms(4,5) by (simp add: user_call_def tcp_send_def)
  with calms_user_call [OF assms(1-3), of "(p, USend buf)"] show ?thesis by simp
qed

text \<open>One message, and then many, on a channel that has made no calls itself.\<close>

definition rides :: "ptr \<Rightarrow> 'rc \<Rightarrow> 'a sworld_scheme \<Rightarrow> ('rc \<times> 'a sworld_scheme) res \<Rightarrow> bool" where
  "rides l rc w r \<longleftrightarrow> r = Inl LengthError \<or>
     (\<exists>w'. r = Inr (rc, w') \<and> conns_inv w' \<and> evolves user_forward w w' \<and> quiet l w w' \<and> inner w w')"

lemma rides_refl: "conns_inv w \<Longrightarrow> rides l rc w (Inr (rc, w))"
  by (simp add: rides_def)

lemma rides_send:
  assumes "calms l w r" "\<And>w'. r = Inr w' \<Longrightarrow> inner w w'"
  shows "rides l rc w (bindR r (\<lambda>w'. Inr (rc, w')))"
  using assms(1) by (cases rule: calms_cases) (use assms(2) in \<open>auto simp: rides_def\<close>)

lemma rides_onRpcMessage:
  assumes "epoll_ctl_contract os" "write_contract os" "sound l w" "cw_conns w p = Some c"
    and "prompt ops serve" "no_null (rc_services rc)" "rc_conn rc = Some p" "rc_outstandings rc = Map.empty"
    and "\<And>m. length (ser (reply (rc_services rc) ops serve m)) + 8 < 2 ^ 31"
  shows "rides l rc w (onRpcMessage (codec_send adler ser (tcp_send os)) ops pfs run_done p m (rc, w))"
proof -
  have inv: "conns_inv w" using soundD(1) [OF assms(3)] .
  from assms(9) [of m] obtain buf where buf: "encode_message adler ser (reply (rc_services rc) ops serve m) = Inr buf" "buffer_inv buf"
    by (rule encode_message_ok)
  have "rides l rc w (bindR (tcp_send os p buf w) (\<lambda>w'. Inr (rc, w')))"
    using calms_tcp_send [OF assms(1-4) buf(2)] inner_tcp_send [OF assms(1-4) buf(2)] by (rule rides_send)
  then have req: "rides l rc w (handle_request_msg (codec_send adler ser (tcp_send os)) ops m (rc, w))"
    using handle_request_reply [where csend = "codec_send adler ser (tcp_send os)", OF assms(5,6)] assms(7) buf(1)
    by (simp add: codec_send_def)
  have "handle_response_msg pfs run_done m (rc, w) = Inr (rc, w)" using assms(8) by (intro handle_response_msg_miss) simp
  with req rides_refl [OF inv, of l rc] assms(7) show ?thesis by (simp add: onRpcMessage_def)
qed

lemma rides_foldR:
  assumes "sound l w" "cw_conns w p = Some c"
    and "\<And>m u c. sound l u \<Longrightarrow> cw_conns u p = Some c \<Longrightarrow> rides l rc u (f m (rc, u))"
  shows "rides l rc w (foldR f ms (rc, w))"
  using assms(1,2)
proof (induction ms arbitrary: w c)
  case Nil
  then show ?case by (simp add: rides_refl soundD(1))
next
  case (Cons m ms)
  from assms(3) [OF Cons.prems, of m] consider "f m (rc, w) = Inl LengthError"
    | (ok) u where "f m (rc, w) = Inr (rc, u)" "conns_inv u" "evolves user_forward w u" "quiet l w u" "inner w u"
    unfolding rides_def by blast
  then show ?case
  proof cases
    case ok
    from ok(3) Cons.prems(2) obtain d where d: "cw_conns u p = Some d" by (rule evolves_conn)
    from Cons.IH [OF sound_quiet [OF Cons.prems(1) ok(2-4)] d] have "rides l rc u (foldR f ms (rc, u))" .
    then show ?thesis
      using ok evolves_trans [OF order_forward(2) ok(3)] quiet_trans [OF ok(4)] inner_trans [OF ok(5)] by (auto simp: rides_def)
  qed (simp add: rides_def)
qed

section \<open>Channels and contexts\<close>

text \<open>
  The context of a connection holds the channel of this connection, which has the services of the server;
  the message callback of a connection that is up is the default one or bound to this channel.
\<close>

definition rpc_inv :: "ptr \<Rightarrow> 'v rpc_server \<Rightarrow> ('r, 'd, 'v, 'a) rworld_scheme \<Rightarrow> bool" where
  "rpc_inv rs r w \<longleftrightarrow> rw_rpcs w rs = Some r \<and> finite (dom (rw_channels w)) \<and>
     (\<forall>p q. rw_context w p = Some q \<longrightarrow> (\<exists>rc. rw_channels w q = Some rc \<and> rc_conn rc = Some p \<and>
        rc_outstandings rc = Map.empty \<and> rc_services rc = Some (rsv_services r))) \<and>
     (\<forall>p c. cw_conns w p = Some c \<longrightarrow> up c \<longrightarrow> tc_messageCb c = Some 4 \<or>
        (\<exists>q. tc_messageCb c = Some (cb_onMessage q) \<and> rw_context w p = Some q))"

lemma rpc_invD:
  assumes "rpc_inv rs r w"
  shows "rw_rpcs w rs = Some r" "finite (dom (rw_channels w))"
    "rw_context w p = Some q \<Longrightarrow> \<exists>rc. rw_channels w q = Some rc \<and> rc_conn rc = Some p \<and>
        rc_outstandings rc = Map.empty \<and> rc_services rc = Some (rsv_services r)"
    "cw_conns w p = Some c \<Longrightarrow> up c \<Longrightarrow> tc_messageCb c = Some 4 \<or> (\<exists>q. tc_messageCb c = Some (cb_onMessage q) \<and> rw_context w p = Some q)"
  using assms unfolding rpc_inv_def by blast+

lemma rpc_fields_more:
  assumes "sworld.more w' = sworld.more w"
  shows "rw_channels w' = rw_channels w" "rw_context w' = rw_context w" "rw_rpcs w' = rw_rpcs w"
  using assms by (cases w, cases w', simp add: sworld.defs rworld.defs)+

lemma rpc_inv_stable:
  assumes "rpc_inv rs r w" "same_app 4 w w'"
  shows "rpc_inv rs r w'"
proof -
  have f: "rw_channels w' = rw_channels w" "rw_context w' = rw_context w" "rw_rpcs w' = rw_rpcs w"
    using assms(2) rpc_fields_more by (auto simp: same_app_def)
  have "tc_messageCb c = Some 4 \<or> (\<exists>q. tc_messageCb c = Some (cb_onMessage q) \<and> rw_context w p = Some q)"
    if "cw_conns w' p = Some c" "up c" for p c
    using that assms(2) rpc_invD(4) [OF assms(1)] unfolding same_app_def by metis
  with assms(1) f show ?thesis unfolding rpc_inv_def by simp
qed

text \<open>Changes of the fields of the RPC layer are invisible below.\<close>

lemma rpc_layer [simp]:
  "w_tid (w\<lparr>rw_context := x\<rparr>) = w_tid w" "w_chans (w\<lparr>rw_context := x\<rparr>) = w_chans w" "w_loops (w\<lparr>rw_context := x\<rparr>) = w_loops w"
  "w_trace (w\<lparr>rw_context := x\<rparr>) = w_trace w" "cw_conns (w\<lparr>rw_context := x\<rparr>) = cw_conns w"
  "w_tid (clear_context p w) = w_tid w" "w_chans (clear_context p w) = w_chans w" "w_loops (clear_context p w) = w_loops w"
  "w_trace (clear_context p w) = w_trace w" "cw_conns (clear_context p w) = cw_conns w"
  "sw_servers (clear_context p w) = sw_servers w" "sw_acceptors (clear_context p w) = sw_acceptors w"
  "sw_servers (put_channel q rc w) = sw_servers w" "sw_acceptors (put_channel q rc w) = sw_acceptors w"
  "rw_rpcs (clear_context p w) = rw_rpcs w" "rw_rpcs (put_channel q rc w) = rw_rpcs w" "rw_rpcs (put_conn p c w) = rw_rpcs w"
  "rw_context (put_channel q rc w) = rw_context w" "rw_context (put_conn p c w) = rw_context w"
  "rw_channels (put_channel q rc w) = (rw_channels w)(q \<mapsto> rc)" "rw_channels (put_conn p c w) = rw_channels w"
  by (simp_all add: clear_context_def put_channel_def put_conn_def split: option.splits)

lemma rw_context_clear [simp]: "rw_context (clear_context p w) = (rw_context w)(p := None)"
  by (auto simp: clear_context_def split: option.splits)

lemma rw_channels_clear: "rw_channels (clear_context p w) q = (if rw_context w p = Some q then None else rw_channels w q)"
  by (auto simp: clear_context_def split: option.splits)

lemma calms_layer:
  assumes "calms l w (Inr u)" "w_tid v = w_tid u" "w_chans v = w_chans u" "w_loops v = w_loops u" "w_trace v = w_trace u"
    "cw_conns v = cw_conns u" "sw_servers v = sw_servers u" "sw_acceptors v = sw_acceptors u"
  shows "calms l w (Inr v)"
proof -
  have u: "conns_inv u" "evolves user_forward w u" "quiet l w u" using assms(1) by (auto simp: calms_def safe_def)
  have "conns_inv v" using u(1) by (rule conns_inv_cong) (simp_all add: assms)
  moreover have "evolves user_forward w v" using u(2) by (simp add: evolves_def assms)
  moreover have "calm_functor v = calm_functor u" by (rule ext) (simp add: calm_functor_def assms)
  then have "quiet l w v" using u(3) by (simp add: quiet_def assms)
  ultimately show ?thesis by (simp add: calms_def safe_def)
qed

text \<open>The callback of a connection that comes up or goes down.\<close>

definition fresh_channel :: "(('r, 'd, 'v, 'a) rworld_scheme \<Rightarrow> ptr) \<Rightarrow> bool" where
  "fresh_channel qalloc \<longleftrightarrow> (\<forall>w. finite (dom (rw_channels w)) \<longrightarrow> rw_channels w (qalloc w) = None)"

lemma rpc_inv_cleared:
  assumes "rpc_inv rs r w" "cw_conns w p = Some c" "\<not> up c"
  shows "rpc_inv rs r (clear_context p w)"
proof -
  have ch: "\<exists>rc. rw_channels (clear_context p w) q = Some rc \<and> rc_conn rc = Some p' \<and> rc_outstandings rc = Map.empty \<and> rc_services rc = Some (rsv_services r)"
    if "rw_context (clear_context p w) p' = Some q" for p' q
  proof -
    from that have q: "p' \<noteq> p" "rw_context w p' = Some q" by (auto split: if_splits)
    with rpc_invD(3) [OF assms(1) q(2)] rpc_invD(3) [OF assms(1), of p q] show ?thesis by (auto simp: rw_channels_clear)
  qed
  have "dom (rw_channels (clear_context p w)) \<subseteq> dom (rw_channels w)" by (auto simp: rw_channels_clear split: if_splits)
  then have "finite (dom (rw_channels (clear_context p w)))" using rpc_invD(2) [OF assms(1)] finite_subset by blast
  moreover have "p' \<noteq> p" if "cw_conns w p' = Some c'" "up c'" for p' c' using that assms(2,3) by auto
  ultimately show ?thesis
    unfolding rpc_inv_def using ch rpc_invD(1) [OF assms(1)] rpc_invD(4) [OF assms(1)] by fastforce
qed

lemma rpc_inv_connected:
  assumes inv: "rpc_inv rs r w" and p: "cw_conns w p = Some c" and q: "rw_channels w q = None"
    and rc: "rc_conn rc = Some p" "rc_outstandings rc = Map.empty" "rc_services rc = Some (rsv_services r)"
    and w': "w' = clear_context p (put_conn p (c\<lparr>tc_messageCb := Some (cb_onMessage q)\<rparr>) (put_channel q rc w))"
  shows "rpc_inv rs r (w'\<lparr>rw_context := (rw_context w')(p \<mapsto> q)\<rparr>)"
proof -
  have other: "q' \<noteq> q" if "rw_context w p' = Some q'" for p' q' using rpc_invD(3) [OF inv that] q by auto
  have ch: "rw_channels w' x = (if x = q then Some rc else if rw_context w p = Some x then None else rw_channels w x)" for x
    using other [of p x] by (auto simp: w' rw_channels_clear)
  have "\<exists>rc. rw_channels w' x = Some rc \<and> rc_conn rc = Some p' \<and> rc_outstandings rc = Map.empty \<and> rc_services rc = Some (rsv_services r)"
    if "((rw_context w)(p \<mapsto> q)) p' = Some x" for p' x
  proof (cases "p' = p")
    case True
    with that ch rc show ?thesis by auto
  next
    case False
    with that have x: "rw_context w p' = Some x" by simp
    with False other [OF x] rpc_invD(3) [OF inv x] rpc_invD(3) [OF inv, of p x] ch show ?thesis by auto
  qed
  moreover have "dom (rw_channels w') \<subseteq> insert q (dom (rw_channels w))" by (auto simp: ch split: if_splits)
  then have "finite (dom (rw_channels w'))" using rpc_invD(2) [OF inv] finite_subset by blast
  moreover have "tc_messageCb c' = Some 4 \<or> (\<exists>x. tc_messageCb c' = Some (cb_onMessage x) \<and> ((rw_context w)(p \<mapsto> q)) p' = Some x)"
    if "cw_conns w' p' = Some c'" "up c'" for p' c'
    using that rpc_invD(4) [OF inv, of p' c'] by (auto simp: w' split: if_splits)
  moreover have "(rw_context w')(p \<mapsto> q) = (rw_context w)(p \<mapsto> q)" "rw_rpcs w' = rw_rpcs w" by (simp_all add: w')
  ultimately show ?thesis unfolding rpc_inv_def using rpc_invD(1) [OF inv] by simp
qed

lemma onConnection_works:
  assumes so: "sound l w" and inv: "rpc_inv rs r w" and p: "cw_conns w p = Some c" "tc_state c = kConnected \<or> tc_state c = kDisconnected"
    and q: "fresh_channel qalloc"
  shows "works (rpc_inv rs r) l w (onConnection junk qalloc rs p w)"
proof (cases "tc_state c = kConnected")
  case False
  with p have "\<not> up c" by (auto simp: up_def)
  from rpc_inv_cleared [OF inv p(1) this] have "rpc_inv rs r (clear_context p w)" .
  moreover have "calms l w (Inr (clear_context p w))" by (rule calms_layer [OF calms_refl [OF soundD(1) [OF so]]]) simp_all
  ultimately show ?thesis using p(1) False rpc_invD(1) [OF inv] by (simp add: works_def onConnection_def)
next
  case True
  let ?rc = "setServices (Some (rsv_services r)) (mk_RpcChannel junk (Some p))"
  let ?q = "qalloc w" and ?k = "cb_onMessage (qalloc w)"
  let ?c = "c\<lparr>tc_messageCb := Some ?k\<rparr>"
  define w' where "w' = clear_context p (put_conn p ?c (put_channel ?q ?rc w))"
  define w'' where "w'' = w'\<lparr>rw_context := (rw_context w')(p \<mapsto> ?q)\<rparr>"
  have run: "onConnection junk qalloc rs p w = Inr w''"
    using True p(1) rpc_invD(1) [OF inv] by (simp add: onConnection_def Let_def setMessageCallback_conn_def w'_def w''_def)
  have "up c" using True by (simp add: up_def)
  then have set: "tc_messageCb c \<noteq> None" using rpc_invD(4) [OF inv p(1)] by auto
  have fresh: "rw_channels w ?q = None" using q rpc_invD(2) [OF inv] by (simp add: fresh_channel_def)
  have "rpc_inv rs r w''"
    unfolding w''_def by (rule rpc_inv_connected [OF inv p(1) fresh _ _ _ w'_def]) (simp_all add: setServices_def mk_RpcChannel_def)
  moreover have "calms l w (Inr (put_conn p ?c w))"
  proof -
    have "conn_calm c ?c" by (simp add: conn_calm_def msg_ok_def cb_onMessage_def)
    then have "quiet l w (put_conn p ?c w)" using p(1) by (rule quiet_put_conn [rotated])
    moreover have "effect undefined p [] w (Inr (put_conn p ?c w))"
      using effect_setMessageCallback [OF soundD(1) [OF so] p(1) set, of undefined ?k] p(1) by (simp add: setMessageCallback_conn_def)
    ultimately show ?thesis using effect_safe by (auto simp: calms_def)
  qed
  then have "calms l w (Inr w'')" by (rule calms_layer) (simp_all add: w''_def w'_def)
  ultimately show ?thesis by (simp add: works_def run)
qed

text \<open>The message callback, on arbitrary input.\<close>

lemma put_channel_same: "rw_channels w q = Some rc \<Longrightarrow> put_channel q rc w = w"
  by (simp add: put_channel_def map_upd_triv)

lemma rpc_onMessage_works:
  assumes os: "epoll_ctl_contract os" "write_contract os" and adler: "is_adler32 adler"
    and ops: "prompt ops serve" "no_null (Some (rsv_services r))"
    and short: "\<And>m. length (ser (reply (Some (rsv_services r)) ops serve m)) + 8 < 2 ^ 31"
    and so: "sound l w" and inv: "rpc_inv rs r w" and p: "cw_conns w p = Some c" "rw_context w p = Some q"
  shows "works (rpc_inv rs r) l w (rpc_onMessage os adler ser pfa ops pfs run_done q p w)"
proof -
  let ?f = "onRpcMessage (codec_send adler ser (tcp_send os)) ops pfs run_done p"
  from rpc_invD(3) [OF inv p(2)] obtain rc where rc: "rw_channels w q = Some rc" "rc_conn rc = Some p" "rc_outstandings rc = Map.empty"
    "rc_services rc = Some (rsv_services r)" by blast
  have bi: "buffer_inv (tc_inputBuffer c)" using soundD(1) [OF so] p(1) by (rule conns_invE)
  from onMessage_drain [OF adler bi, of pfa ?f "(rc, w)"] obtain b' ms where b': "buffer_inv b'"
    "onMessage adler pfa ?f (tc_inputBuffer c) (rc, w) = bindR (foldR ?f ms (rc, w)) (\<lambda>s. Inr (b', s))" by blast
  have run: "rpc_onMessage os adler ser pfa ops pfs run_done q p w =
      bindR (foldR ?f ms (rc, w)) (\<lambda>(rc1, w1). upd_conn p (\<lambda>c. c\<lparr>tc_inputBuffer := b'\<rparr>) (put_channel q rc1 w1))"
    using p(1) rc(1) b'(2) by (simp add: rpc_onMessage_def onMessage_channel_def bindR_assoc case_prod_unfold)
  have one: "rides l rc u (?f m (rc, u))" if "sound l u" "cw_conns u p = Some d" for m u d
    by (rule rides_onRpcMessage [OF os that ops(1)]) (use short in \<open>simp_all add: rc ops(2)\<close>)
  have "rides l rc w (foldR ?f ms (rc, w))" by (rule rides_foldR [OF so p(1) one])
  then consider "foldR ?f ms (rc, w) = Inl LengthError"
    | (ok) u where "foldR ?f ms (rc, w) = Inr (rc, u)" "conns_inv u" "evolves user_forward w u" "quiet l w u" "inner w u"
    unfolding rides_def by blast
  then show ?thesis
  proof cases
    case 1
    then show ?thesis by (simp add: run works_def calms_def safe_def)
  next
    case ok
    from ok(3) p(1) obtain d where d: "cw_conns u p = Some d" by (rule evolves_conn)
    let ?w = "put_conn p (d\<lparr>tc_inputBuffer := b'\<rparr>) u"
    have "sworld.more u = sworld.more w" using ok(5) sworld_more by (auto simp: inner_def)
    from rpc_fields_more(1) [OF this] have "put_channel q rc u = u" using rc(1) by (simp add: put_channel_same)
    with ok(1) d have res: "rpc_onMessage os adler ser pfa ops pfs run_done q p w = Inr ?w" by (simp add: run)
    have ev: "evolves user_forward w ?w"
      by (rule evolves_trans [OF order_forward(2) ok(3) evolves_put_conn [OF order_forward(2) d]]) (simp_all add: conn_frame_def user_forward_def)
    have "quiet l w ?w" by (rule quiet_trans [OF ok(4) quiet_put_conn [OF d]]) (simp add: conn_calm_def msg_ok_def)
    with conns_inv_input [OF ok(2) d b'(1)] ev have "calms l w (Inr ?w)" by (simp add: calms_def safe_def)
    moreover have "inner w ?w" by (rule inner_trans [OF ok(5) inner_put_conn [OF d]]) simp
    from rpc_inv_stable [OF inv same_app_inner [OF this ev]] have "rpc_inv rs r ?w" .
    ultimately show ?thesis by (simp add: res works_def)
  qed
qed

section \<open>The application\<close>

locale rpc_application =
  fixes os :: "'o net_os_scheme" and adler :: "32 word \<Rightarrow> byte list \<Rightarrow> 32 word" and ser :: "RpcMessage \<Rightarrow> byte list"
    and pfa :: "byte list \<Rightarrow> RpcMessage option"
    and ops :: "('v, 'q, ('r, 'd, 'v) rpc_channel \<times> ('r, 'd, 'v, 'a) rworld_scheme) service_ops"
    and serve :: "'v \<Rightarrow> string \<Rightarrow> 'q \<Rightarrow> byte list" and pfs :: "'r \<Rightarrow> byte list \<Rightarrow> 'r"
    and run_done :: "'d \<Rightarrow> 'r \<Rightarrow> ('r, 'd, 'v) rpc_channel \<times> ('r, 'd, 'v, 'a) rworld_scheme \<Rightarrow>
      (('r, 'd, 'v) rpc_channel \<times> ('r, 'd, 'v, 'a) rworld_scheme) res"
    and junk :: "64 word" and qalloc :: "('r, 'd, 'v, 'a) rworld_scheme \<Rightarrow> ptr" and rs l :: ptr and r :: "'v rpc_server"
  assumes ctl_ok: "epoll_ctl_contract os" and write_ok: "write_contract os" and adler_ok: "is_adler32 adler"
    and ops_ok: "prompt ops serve" and services_ok: "no_null (Some (rsv_services r))"
    and replies_ok: "length (ser (reply (Some (rsv_services r)) ops serve m)) + 8 < 2 ^ 31" and qalloc_ok: "fresh_channel qalloc"
begin

abbreviation callbacks :: "('r, 'd, 'v, 'a) rpc_env" where
  "callbacks \<equiv> rpc_callbacks junk qalloc (rpc_onMessage os adler ser pfa ops pfs run_done)"

lemma connection_works:
  assumes "sound l w" "rpc_inv rs r w" "cw_conns w p = Some c" "tc_state c = kConnected \<or> tc_state c = kDisconnected"
  shows "works (rpc_inv rs r) l w (server_env callbacks os (cb_onConnection rs) p w)"
  unfolding cb_onMessage_env by (rule onConnection_works [OF assms qalloc_ok])

lemma message_works:
  assumes "sound l w" "rpc_inv rs r w" "cw_conns w p = Some c" "up c" "tc_messageCb c = Some k" "k mod 4 \<noteq> 2"
  shows "works (rpc_inv rs r) l w (server_env callbacks os k p w)"
proof -
  consider "k = 4" | q where "k = cb_onMessage q" "rw_context w p = Some q" using rpc_invD(4) [OF assms(2-4)] assms(5) by auto
  then show ?thesis
  proof cases
    case 1
    let ?w = "put_conn p (c\<lparr>tc_inputBuffer := retrieveAll (tc_inputBuffer c)\<rparr>) w"
    have run: "server_env callbacks os k p w = Inr ?w" using 1 assms(3) by (simp add: server_env_def defaultMessageCallback_def)
    have "calms l w (Inr ?w)"
      using calms_defaultMessage [OF soundD(1) [OF assms(1)] assms(3), of l] assms(3) by (simp add: defaultMessageCallback_def)
    moreover have "evolves user_forward w ?w"
      by (rule evolves_put_conn [OF order_forward(2) assms(3)]) (simp_all add: conn_frame_def user_forward_def)
    from same_app_inner [OF inner_put_conn [OF assms(3)] this] have "rpc_inv rs r ?w" by (intro rpc_inv_stable [OF assms(2)]) simp
    ultimately show ?thesis by (simp add: works_def run)
  next
    case 2
    from rpc_onMessage_works [where ser = ser, OF ctl_ok write_ok adler_ok ops_ok services_ok replies_ok assms(1-3) 2(2)] show ?thesis
      by (simp add: 2(1) cb_onMessage_env)
  qed
qed

end

sublocale rpc_application \<subseteq> rpc: application os callbacks l "cb_onConnection rs" 4 None "rpc_inv rs r"
  by unfold_locales (use connection_works message_works rpc_inv_stable in auto)

locale rpc_process = rpc_application os adler ser pfa ops serve pfs run_done junk qalloc rs l r
  for os :: "'o net_os_scheme" and adler ser pfa
    and ops :: "('v, 'q, ('r, 'd, 'v) rpc_channel \<times> ('r, 'd, 'v, 'a) rworld_scheme) service_ops" and serve pfs run_done junk
    and qalloc :: "('r, 'd, 'v, 'a) rworld_scheme \<Rightarrow> ptr" and rs l r +
  fixes lib :: inet_lib and alloc :: "('r, 'd, 'v, 'a) rworld_scheme \<Rightarrow> ptr \<times> ptr" and s ka :: ptr and B W :: "fd set"
  assumes wait_ok: "epoll_wait_contract os" and readv_ok: "readv_contract os" and accept_ok: "accept_contract os lib W"
    and alloc_ok: "fresh_alloc alloc"

sublocale rpc_process \<subseteq> running: served os callbacks l "cb_onConnection rs" 4 None "rpc_inv rs r" lib alloc s ka B W
  by unfold_locales (fact ctl_ok wait_ok readv_ok write_ok accept_ok alloc_ok)+

context rpc_process begin

lemma runs_serving:
  assumes "server_runs os lib alloc callbacks l w ws res" "rpc_inv rs r w" "serving l s (cb_onConnection rs) 4 None B W ka w" "idle_chans w"
    and "\<forall>v \<in> set ws. names_left s v"
  shows "res = Inl LengthError \<or>
    (\<exists>w'. res = Inr w' \<and> rpc_inv rs r w' \<and> serving l s (cb_onConnection rs) 4 None B W ka w' \<and> idle_chans w')"
  by (rule running.runs_live [OF assms])

end

section \<open>Runs from the start\<close>

text \<open>
  The calls of \<open>main\<close> in \<open>src/examples/server.cc\<close> up to \<open>loop.loop()\<close>: the loop, the server, its services
  (descriptors' full names with the objects), and \<open>start\<close>.
\<close>

definition registerServices ::
  "ptr \<Rightarrow> (string \<times> 'v option) list \<Rightarrow> ('r, 'd, 'v, 'a) rworld_scheme \<Rightarrow> ('r, 'd, 'v, 'a) rworld_scheme res" where
  "registerServices rs = foldR (\<lambda>(n, v). registerService rs n v)"

definition boot_rpc_server ::
  "'o net_os_scheme \<Rightarrow> inet_lib \<Rightarrow> (('r, 'd, 'v, 'a) rworld_scheme \<Rightarrow> ((ptr \<times> ptr) \<times> ('r, 'd, 'v, 'a) rworld_scheme) res) \<Rightarrow> int \<Rightarrow> fd \<Rightarrow>
   ptr \<Rightarrow> ptr \<Rightarrow> ptr \<Rightarrow> ptr \<Rightarrow> ptr \<Rightarrow> ptr \<Rightarrow> inet_address \<Rightarrow> (string \<times> 'v option) list \<Rightarrow>
   ('r, 'd, 'v, 'a) rworld_scheme \<Rightarrow> ('r, 'd, 'v, 'a) rworld_scheme res" where
  "boot_rpc_server os lib starter junk wfd l wk rs s a ka listenAddr svs w =
     bindR (mk_EventLoop os None junk l wk wfd w) (\<lambda>w1.
     bindR (mk_RpcServer os lib rs s a ka l listenAddr w1) (\<lambda>w2.
     bindR (registerServices rs svs w2) (\<lambda>w3.
       start_rpc os starter rs w3)))"

definition rpc_server_of :: "ptr \<Rightarrow> (string \<times> 'v option) list \<Rightarrow> 'v rpc_server" where
  "rpc_server_of s svs = \<lparr>rsv_server = s, rsv_services = map_of (rev svs)\<rparr>"

lemma put_rpc_frame [simp]:
  "w_tid (put_rpc rs r w) = w_tid w" "w_chans (put_rpc rs r w) = w_chans w" "w_loops (put_rpc rs r w) = w_loops w"
  "w_trace (put_rpc rs r w) = w_trace w" "cw_conns (put_rpc rs r w) = cw_conns w" "sw_servers (put_rpc rs r w) = sw_servers w"
  "sw_acceptors (put_rpc rs r w) = sw_acceptors w" "rw_rpcs (put_rpc rs r w) = (rw_rpcs w)(rs \<mapsto> r)"
  "rw_channels (put_rpc rs r w) = rw_channels w" "rw_context (put_rpc rs r w) = rw_context w"
  "put_rpc rs r' (put_rpc rs r w) = put_rpc rs r' w"
  by (simp_all add: put_rpc_def)

lemma registerServices_ok:
  assumes "\<forall>(n, v) \<in> set svs. v \<noteq> None"
  shows "registerServices rs svs (put_rpc rs r w) = Inr (put_rpc rs (r\<lparr>rsv_services := rsv_services r ++ map_of (rev svs)\<rparr>) w)"
  using assms
proof (induction svs arbitrary: r)
  case (Cons x svs)
  obtain n v where x: "x = (n, Some v)" using Cons.prems by (cases x) auto
  define m where "m = (rsv_services r)(n \<mapsto> Some v)"
  have m: "rsv_services r ++ map_of (rev (x # svs)) = m ++ map_of (rev svs)" by (simp add: x m_def map_add_upd)
  have "registerServices rs (x # svs) (put_rpc rs r w) =
      registerServices rs svs (put_rpc rs (r\<lparr>rsv_services := m\<rparr>) w)"
    by (simp add: registerServices_def registerService_def x m_def)
  with Cons m show ?case by simp
qed (simp add: registerServices_def)

lemma constructed_put_rpc: "constructed l s a wk ka wfd lfd (put_rpc rs r w) = constructed l s a wk ka wfd lfd w"
proof -
  have "reactor_inv (put_rpc rs r w) = reactor_inv w"
    using reactor_inv_cong [of w "put_rpc rs r w"] reactor_inv_cong [of "put_rpc rs r w" w] by auto
  then show ?thesis by (simp add: constructed_def isInLoopThread_def)
qed

lemma boots_rpc:
  assumes os: "epoll_ctl_contract os" "startup_contract os wfd" and w: "new_process w" "rw_channels w = Map.empty" "rw_context w = Map.empty"
    and wk: "wk \<noteq> ka" and addr: "inet_ok lib listenAddr" and svs: "\<forall>(n, v) \<in> set svs. v \<noteq> None"
  obtains lfd w' where "boot_rpc_server os lib starter junk wfd l wk rs s a ka listenAddr svs w = Inr w'"
    "serving l s (cb_onConnection rs) 4 None {lfd} {wfd} ka w'" "idle_chans w'" "rpc_inv rs (rpc_server_of s svs) w'" "names_left s w'"
proof -
  let ?cb = "cb_onConnection rs" and ?r = "rpc_server_of s svs"
  from os(1) w(1) obtain w1 c1 where w1: "mk_EventLoop os None junk l wk wfd w = Inr w1" "reactor_inv w1" "cw_conns w1 = Map.empty" "isInLoopThread l w1"
    "el_pending (w_loops w1 l) = []" "w_chans w1 = [wk \<mapsto> c1]" "reader l wfd (LoopHandleRead l) c1" "open_fds (w_trace w1) = {}"
    "closes_open (w_trace w1)" "sworld.more w1 = sworld.more w" by (rule mk_EventLoop_new)
  define lfd where "lfd = os_socket os (w_trace w1)"
  from mk_TcpServer_constructed [where s = s and a = a and name = "''RpcServer''", OF os(2) w1(2-6) wk w1(7-9) addr lfd_def]
  obtain w2 sv where w2: "mk_TcpServer os lib s a ka l listenAddr ''RpcServer'' w1 = Inr w2" "constructed l s a wk ka wfd lfd w2"
    "sworld.more w2 = sworld.more w1" "sw_servers w2 s = Some sv" "ts_messageCb sv = Some 4" "ts_writeCompleteCb sv = None"
    "toIpPort lib listenAddr = Inr (ts_ipPort sv)" by blast
  let ?sv = "setConnectionCallback_server (Some ?cb) sv" and ?w3 = "put_server s (setConnectionCallback_server (Some ?cb) sv) w2"
  have sv: "ts_connectionCb ?sv = Some ?cb" "ts_messageCb ?sv = Some 4" "ts_writeCompleteCb ?sv = None"
    using w2(5,6) by (simp_all add: setConnectionCallback_server_def)
  have "setWriteCompleteCallback_server None (setMessageCallback_server (Some 4) ?sv) = ?sv"
    using sv(2,3) by (simp add: setWriteCompleteCallback_server_def setMessageCallback_server_def)
  with constructed_callbacks [OF w2(2,4), of None "Some 4" "Some ?cb"] have con: "constructed l s a wk ka wfd lfd (put_rpc rs ?r ?w3)"
    by (simp add: constructed_put_rpc)
  have rpc: "mk_RpcServer os lib rs s a ka l listenAddr w1 = Inr (put_rpc rs \<lparr>rsv_server = s, rsv_services = Map.empty\<rparr> ?w3)"
    using w2(1,4) by (simp add: mk_RpcServer_def)
  have reg: "registerServices rs svs (put_rpc rs \<lparr>rsv_server = s, rsv_services = Map.empty\<rparr> ?w3) = Inr (put_rpc rs ?r ?w3)"
    by (simp add: registerServices_ok [OF svs] rpc_server_of_def)
  have cb: "?cb mod 4 \<noteq> 2" "(4 :: nat) mod 4 \<noteq> 2" by (simp_all add: cb_onConnection_def)
  have "sw_servers (put_rpc rs ?r ?w3) s = Some ?sv" by simp
  from start_serving [where starter = starter, OF os con this sv(1) cb(1) sv(2) cb(2) sv(3)]
  obtain w' sv' where w': "start_server os starter None s (put_rpc rs ?r ?w3) = Inr w'" "serving l s ?cb 4 None {lfd} {wfd} ka w'" "idle_chans w'"
    "sworld.more w' = sworld.more (put_rpc rs ?r ?w3)" "cw_conns w' = Map.empty"
    and sv': "sw_servers w' s = Some sv'" "ts_ipPort sv' = ts_ipPort ?sv" "ts_nextConnId sv' = 1" by auto
  have "names_left s w'"
    using names_left_first [OF sv'(1,3)] toIpPort_short [OF addr w2(7)] sv'(2) by (simp add: setConnectionCallback_server_def)
  have "start_rpc os starter rs (put_rpc rs ?r ?w3) = Inr w'" using w'(1) by (simp add: start_rpc_def) (simp add: rpc_server_of_def)
  with w1(1) rpc reg have "boot_rpc_server os lib starter junk wfd l wk rs s a ka listenAddr svs w = Inr w'" by (simp add: boot_rpc_server_def)
  moreover have "rw_channels ?w3 = Map.empty" "rw_context ?w3 = Map.empty"
    using rpc_fields_more [OF w1(10)] rpc_fields_more [OF w2(3)] w(2,3) by (simp_all add: put_server_def)
  then have "rpc_inv rs ?r w'" using rpc_fields_more [OF w'(4)] w'(5) by (simp add: rpc_inv_def)
  ultimately show thesis using w'(2,3) \<open>names_left s w'\<close> that by blast
qed

lemma rpc_server_runs:
  assumes "epoll_ctl_contract os" "epoll_wait_contract os" "readv_contract os" "write_contract os" "accept_contract os lib {wfd}"
    and "startup_contract os wfd" "fresh_alloc alloc" "fresh_channel qalloc" "inet_ok lib listenAddr" "is_adler32 adler"
    and "new_process w0" "rw_channels w0 = Map.empty" "rw_context w0 = Map.empty" "wk \<noteq> ka"
    and "\<forall>(n, v) \<in> set svs. v \<noteq> None" "prompt ops serve"
    and "\<forall>m. length (ser (reply (Some (map_of (rev svs))) ops serve m)) + 8 < 2 ^ 31"
  shows "\<exists>w lfd. boot_rpc_server os lib starter junk wfd l wk rs s a ka listenAddr svs w0 = Inr w \<and> names_left s w \<and>
    (\<forall>ws res. server_runs os lib alloc (rpc_callbacks junk' qalloc (rpc_onMessage os adler ser pfa ops pfs run_done)) l w ws res \<longrightarrow>
       (\<forall>v \<in> set ws. names_left s v) \<longrightarrow>
       res = Inl LengthError \<or> (\<exists>w'. res = Inr w' \<and> rpc_inv rs (rpc_server_of s svs) w' \<and>
         serving l s (cb_onConnection rs) 4 None {lfd} {wfd} ka w'))"
proof -
  let ?r = "rpc_server_of s svs"
  have "no_null (Some (rsv_services ?r))"
    using assms(15) map_of_SomeD [of "rev svs"] by (fastforce simp: no_null_def rpc_server_of_def)
  then have pr: "rpc_process os adler ser ops serve qalloc ?r lib alloc {wfd}"
    using assms(17) by unfold_locales (simp_all add: assms(1-5,7,8,10,16), simp add: rpc_server_of_def)
  from assms(1,6,11-14,9,15) obtain lfd w where w: "boot_rpc_server os lib starter junk wfd l wk rs s a ka listenAddr svs w0 = Inr w"
    "serving l s (cb_onConnection rs) 4 None {lfd} {wfd} ka w" "idle_chans w" "rpc_inv rs ?r w" "names_left s w" by (rule boots_rpc)
  from w(1,5) rpc_process.runs_serving [OF pr _ w(4,2,3)] show ?thesis by blast
qed

text \<open>
  C3: an RPC server in one thread cannot be brought down by its clients. In a new process the calls of \<open>main\<close>
  up to the loop succeed if the system calls do, and there is a name for the first connection. From then
  on, whatever bytes the clients send (requests, responses nobody asked for, messages of unknown types,
  broken frames, garbage), in whatever pieces, with connections that come, go, fail and stop reading at
  any time, in any number of iterations, as long as at the beginning of every iteration the counter of
  connections is below the maximum of an \<open>int\<close> and the next name fits its buffer of 64 characters
  (\<open>names_left\<close>; then \<open>++nextConnId_\<close> does not overflow and names do not recur): no assertion fails (also not
  \<open>assert(conn == conn_)\<close> of \<open>RpcChannel\<close>), no dangling or null pointer is used, and nothing is read or written
  out of bounds; the only way to stop is \<open>std::length_error\<close>. In every state reached the server is well
  served, every context holds the channel of its connection with the services of the server, and no
  message callback is bound to a channel that has been destroyed. The services answer a request before
  they return (\<open>prompt\<close>) and with messages of less than \<open>2 ^ 31 - 8\<close> bytes, and \<open>epoll_ctl\<close> does not fail when it
  adds a descriptor that is not registered or changes one that is.
\<close>

theorem rpc_server_never_faults:
  assumes "epoll_ctl_contract os" "epoll_wait_contract os" "readv_contract os" "write_contract os" "accept_contract os lib {wfd}"
    and "startup_contract os wfd" "fresh_alloc alloc" "fresh_channel qalloc" "inet_ok lib listenAddr" "is_adler32 adler"
    and "new_process w0" "rw_channels w0 = Map.empty" "rw_context w0 = Map.empty" "wk \<noteq> ka"
    and "\<forall>(n, v) \<in> set svs. v \<noteq> None" "prompt ops serve"
    and "\<forall>m. length (ser (reply (Some (map_of (rev svs))) ops serve m)) + 8 < 2 ^ 31"
  shows "\<exists>w lfd. boot_rpc_server os lib starter junk wfd l wk rs s a ka listenAddr svs w0 = Inr w \<and> names_left s w \<and>
    (\<forall>ws res. server_runs os lib alloc (rpc_callbacks junk' qalloc (rpc_onMessage os adler ser pfa ops pfs run_done)) l w ws res \<longrightarrow>
       (\<forall>v \<in> set ws. names_left s v) \<longrightarrow>
       res = Inl LengthError \<or> (\<exists>w'. res = Inr w' \<and> well_served s lfd w' \<and> rpc_inv rs (rpc_server_of s svs) w'))"
  using rpc_server_runs [where starter = starter and junk = junk and l = l and rs = rs and s = s and a = a and junk' = junk' and pfa = pfa
      and pfs = pfs and run_done = run_done, OF assms] by (blast dest: serving_well)

section \<open>A server to evaluate on\<close>

definition new_channel_ptr :: "('r, 'd, 'v, 'a) rworld_scheme \<Rightarrow> ptr" where
  "new_channel_ptr w = new_ptr (rw_channels w)"

lemma new_channel_fresh: "fresh_channel new_channel_ptr"
  by (simp add: fresh_channel_def new_channel_ptr_def new_ptr_fresh)

definition empty_rpc_process :: "(byte list, nat, nat) rworld" where
  "empty_rpc_process = \<lparr>w_tid = 1, w_chans = Map.empty, w_loops = (\<lambda>_. model_loop\<lparr>el_poller := mk_Poller\<rparr>), w_trace = [],
     cw_conns = Map.empty, sw_acceptors = Map.empty, sw_servers = Map.empty, rw_channels = Map.empty, rw_context = Map.empty, rw_rpcs = Map.empty\<rparr>"

lemma empty_rpc_process_new:
  "new_process empty_rpc_process" "rw_channels empty_rpc_process = Map.empty" "rw_context empty_rpc_process = Map.empty"
  by (simp_all add: new_process_def empty_rpc_process_def mk_Poller_def)

interpretation echo: rpc_process busy_os adler32_ref echo_ser echo_pfa echo_ops "\<lambda>v m q. q" "\<lambda>r d. d" "\<lambda>d r. Inr" 0 new_channel_ptr 30 0
  "rpc_server_of 20 [(''Echo'', Some 1)]" model_lib "new_ptrs :: (byte list, nat, nat) rworld \<Rightarrow> ptr \<times> ptr" 20 22 "{11}" "{5}"
  by unfold_locales (use busy_os_contracts new_ptrs_fresh new_channel_fresh adler32_ref_ok echo_facts(1) in
      \<open>auto simp: no_null_def rpc_server_of_def split: if_splits\<close>)

theorem rpc_server_never_faults_witness:
  "\<exists>w lfd. boot_rpc_server busy_os model_lib (\<lambda>w. Inl AssertFailure) 42 5 0 9 30 20 21 22 (mk_InetAddress_port zero6 80 True False)
      [(''Echo'', Some 1)] empty_rpc_process = Inr w \<and> well_served 20 lfd w \<and>
    (let user = rpc_callbacks 0 new_channel_ptr (rpc_onMessage busy_os adler32_ref echo_ser echo_pfa echo_ops (\<lambda>r d. d) (\<lambda>d r. Inr));
         res = loop_body busy_os (server_run busy_os model_lib new_ptrs user) (server_runF busy_os user) 0 w
     in res = Inl LengthError \<or> (\<exists>w'. res = Inr w' \<and> well_served 20 lfd w' \<and> rpc_inv 30 (rpc_server_of 20 [(''Echo'', Some 1)]) w'))"
proof -
  let ?boot = "boot_rpc_server busy_os model_lib (\<lambda>w. Inl AssertFailure) 42 5 0 9 30 20 21 22 (mk_InetAddress_port zero6 80 True False)
      [(''Echo'', Some 1)] empty_rpc_process"
  let ?runs = "server_runs busy_os model_lib new_ptrs (rpc_callbacks 0 new_channel_ptr
         (rpc_onMessage busy_os adler32_ref echo_ser echo_pfa echo_ops (\<lambda>r d. d) (\<lambda>d r. Inr))) 0"
  have "\<exists>w lfd. ?boot = Inr w \<and> names_left 20 w \<and> (\<forall>ws res. ?runs w ws res \<longrightarrow> (\<forall>v \<in> set ws. names_left 20 v) \<longrightarrow> res = Inl LengthError \<or>
      (\<exists>w'. res = Inr w' \<and> well_served 20 lfd w' \<and> rpc_inv 30 (rpc_server_of 20 [(''Echo'', Some 1)]) w'))"
    by (rule rpc_server_never_faults [OF busy_os_contracts new_ptrs_fresh new_channel_fresh model_lib_ok adler32_ref_ok
          empty_rpc_process_new _ _ echo_facts(1)]) simp_all
  then obtain w lfd where w: "?boot = Inr w" "names_left 20 w" and runs: "\<And>ws res. ?runs w ws res \<Longrightarrow> \<forall>v \<in> set ws. names_left 20 v \<Longrightarrow>
      res = Inl LengthError \<or> (\<exists>w'. res = Inr w' \<and> well_served 20 lfd w' \<and> rpc_inv 30 (rpc_server_of 20 [(''Echo'', Some 1)]) w')"
    by blast
  from runs [OF server_runs.start] have "well_served 20 lfd w" by simp
  with runs [OF server_runs.iterate [OF server_runs.start]] w show ?thesis by (auto simp: Let_def)
qed

end
