(* ===== verification/RpcTyping.thy ===== *)
theory RpcTyping
  imports RpcLoop
begin

text \<open>
  The closures of a running RPC server. \<open>std::bind\<close> stores the receiver of a callback as a bare pointer in
  most places (the handlers of a channel, \<open>RpcServer::onConnection\<close>, \<open>RpcChannel::onMessage\<close>), so that nothing but
  the order of events keeps it alive: a state is well typed when every stored closure that can still be
  called has a receiver that exists and is of the kind the closure expects.
\<close>

section \<open>Typing\<close>

fun callback_typed :: "'a sworld_scheme \<Rightarrow> callback \<Rightarrow> bool" where
  "callback_typed w (LoopHandleRead l) \<longleftrightarrow> isInLoopThread l w"
| "callback_typed w (AcceptorHandleRead a) \<longleftrightarrow> sw_acceptors w a \<noteq> None"
| "callback_typed w (ConnHandleRead p) \<longleftrightarrow> cw_conns w p \<noteq> None"
| "callback_typed w (ConnHandleWrite p) \<longleftrightarrow> cw_conns w p \<noteq> None"
| "callback_typed w (ConnHandleClose p) \<longleftrightarrow> cw_conns w p \<noteq> None"
| "callback_typed w (ConnHandleError p) \<longleftrightarrow> cw_conns w p \<noteq> None"
| "callback_typed w (ConnectorHandleWrite a) \<longleftrightarrow> False"
| "callback_typed w (ConnectorHandleError a) \<longleftrightarrow> False"

text \<open>A functor with a reference to a connection that exists; an \<open>RpcServer\<close> in one thread queues no other.\<close>

definition functor_typed :: "'a cworld_scheme \<Rightarrow> Functor \<Rightarrow> bool" where
  "functor_typed w f \<longleftrightarrow> (\<exists>p. cw_conns w p \<noteq> None \<and> holds_ref p f)"

text \<open>The callbacks of a connection, by their numbers.\<close>

definition user_typed :: "('r, 'd, 'v, 'a) rworld_scheme \<Rightarrow> nat \<Rightarrow> bool" where
  "user_typed w k \<longleftrightarrow> k = 0 \<or> k = 4 \<or> (k mod 4 = 1 \<and> rw_rpcs w (k div 4) \<noteq> None) \<or>
     (k mod 4 = 2 \<and> sw_servers w (k div 4) \<noteq> None) \<or> (k mod 4 = 3 \<and> rw_channels w (k div 4) \<noteq> None)"

definition conn_typed :: "('r, 'd, 'v, 'a) rworld_scheme \<Rightarrow> tcp_connection \<Rightarrow> bool" where
  "conn_typed w c \<longleftrightarrow> (\<exists>k. tc_connectionCb c = Some k \<and> user_typed w k) \<and> (\<exists>k. tc_closeCb c = Some k \<and> user_typed w k) \<and>
     (\<forall>k. tc_writeCompleteCb c = Some k \<longrightarrow> user_typed w k) \<and> (\<exists>k. tc_messageCb c = Some k \<and> (up c \<longrightarrow> user_typed w k))"

definition closures_typed :: "ptr \<Rightarrow> ptr \<Rightarrow> ('r, 'd, 'v, 'a) rworld_scheme \<Rightarrow> bool" where
  "closures_typed l s w \<longleftrightarrow>
     (\<forall>j ch b. w_chans w j = Some ch \<longrightarrow> Some b \<in> {ch_readCb ch, ch_writeCb ch, ch_closeCb ch, ch_errorCb ch} \<longrightarrow> callback_typed w b) \<and>
     (\<forall>f \<in> set (el_pending (w_loops w l)). functor_typed w f) \<and>
     (\<forall>p c. cw_conns w p = Some c \<longrightarrow> conn_typed w c) \<and>
     (\<exists>sv ac. sw_servers w s = Some sv \<and> sw_acceptors w (ts_acceptor sv) = Some ac \<and> ac_newConnectionCb ac = Some s)"

lemma user_typed_codes:
  "user_typed w (cb_onConnection rs) \<longleftrightarrow> rw_rpcs w rs \<noteq> None" "user_typed w (cb_onMessage q) \<longleftrightarrow> rw_channels w q \<noteq> None"
  "user_typed w (cb_removeConnection s) \<longleftrightarrow> sw_servers w s \<noteq> None"
proof -
  have "cb_onConnection rs mod 4 = 1" "cb_onConnection rs div 4 = rs" "cb_onConnection rs \<noteq> 0" "cb_onConnection rs \<noteq> 4"
    "cb_onMessage q mod 4 = 3" "cb_onMessage q div 4 = q" "cb_onMessage q \<noteq> 0" "cb_onMessage q \<noteq> 4"
    unfolding cb_onConnection_def cb_onMessage_def by presburger+
  moreover have "cb_removeConnection s mod 4 = 2" "cb_removeConnection s div 4 = s" using cb_removeConnection_code [of s] by simp_all
  ultimately show "user_typed w (cb_onConnection rs) \<longleftrightarrow> rw_rpcs w rs \<noteq> None" "user_typed w (cb_onMessage q) \<longleftrightarrow> rw_channels w q \<noteq> None"
    "user_typed w (cb_removeConnection s) \<longleftrightarrow> sw_servers w s \<noteq> None"
    by (auto simp: user_typed_def)
qed

section \<open>Every state of a run is well typed\<close>

lemma channel_closures_typed:
  assumes sv: "serves l s cb mb wc B W {} [] sv ac w" and ch: "w_chans w j = Some ch"
    and b: "Some b \<in> {ch_readCb ch, ch_writeCb ch, ch_closeCb ch, ch_errorCb ch}"
  shows "callback_typed w b"
proof -
  note S = servesD [OF sv]
  from S(7) [OF ch] show ?thesis
  proof
    assume "plain_channel l (ts_acceptor sv) ac (W \<union> B) j ch"
    with b S(4) soundD(3) [OF S(1)] show ?thesis by (auto simp: plain_channel_def split: if_splits)
  next
    assume "\<exists>p c. cw_conns w p = Some c \<and> tc_channel c = j"
    then obtain p c where p: "cw_conns w p = Some c" "tc_channel c = j" by blast
    from soundD(1) [OF S(1)] p(1) obtain ch' where "w_chans w (tc_channel c) = Some ch'" "linked p c ch'" by (rule conns_invE)
    with b p ch show ?thesis by (auto simp: linked_def)
  qed
qed

lemma functor_ok_typed: "functor_ok w f \<Longrightarrow> functor_typed w f"
  by (auto simp: functor_ok_def calm_functor_def functor_typed_def)

lemma rpc_conn_typed:
  assumes sv: "serves l s (cb_onConnection rs) 4 None B W {} [] sv ac w" and inv: "rpc_inv rs r w" and p: "cw_conns w p = Some c"
  shows "conn_typed w c"
proof -
  note S = servesD [OF sv]
  have st: "tc_connectionCb c = Some (cb_onConnection rs)" "tc_closeCb c = Some (cb_removeConnection s)" "tc_writeCompleteCb c = None" "tc_messageCb c \<noteq> None"
    using S(5) S(8) [OF p] by (auto simp: conn_static_def server_static_def)
  from st(4) obtain k where k: "tc_messageCb c = Some k" by blast
  have "user_typed w k" if "up c"
    using rpc_invD(4) [OF inv p that] rpc_invD(3) [OF inv, of p] k by (auto simp: user_typed_codes) (simp add: user_typed_def)
  with st(1-3) k S(3) rpc_invD(1) [OF inv] show ?thesis by (auto simp: conn_typed_def user_typed_codes)
qed

lemma serving_typed:
  assumes "serving l s (cb_onConnection rs) 4 None B W ka w" "rpc_inv rs r w"
  shows "closures_typed l s w"
proof -
  from assms(1) obtain sv ac where sv: "serves l s (cb_onConnection rs) 4 None B W {} [] sv ac w" by (auto simp: serving_def)
  note S = servesD [OF sv]
  have "\<forall>f \<in> set (el_pending (w_loops w l)). functor_typed w f" using S(14) functor_ok_typed by (auto simp: list_all_iff)
  then show ?thesis
    unfolding closures_typed_def using channel_closures_typed [OF sv] rpc_conn_typed [OF sv assms(2)] S(3,4,6) by blast
qed

text \<open>
  C5: the closures of a running RPC server are well typed. In every state a server in one thread reaches,
  from its constructors on and whatever clients send, as long as every iteration so far began with the
  counter of connections below the maximum of an \<open>int\<close> and with a next name that fits its buffer
  (\<open>names_left\<close>), with services that answer before they return, messages of less than \<open>2 ^ 31 - 8\<close> bytes and an
  \<open>epoll_ctl\<close> that accepts correct requests, every handler stored in a channel is bound to a loop,
  acceptor or connection that exists; every functor in the queue holds a reference to a connection that exists;
  every connection has its connection and close callbacks, bound to the \<open>RpcServer\<close> and the \<open>TcpServer\<close> that
  own it; the message callback of a connection that is up is the default one or bound to a channel that exists;
  and the acceptor hands new connections to the server. (The message callback of a closed connection keeps
  its bare pointer to the channel that was destroyed, which is why only connections that are up are covered.)
\<close>

theorem rpc_closures_typed:
  assumes "epoll_ctl_contract os" "epoll_wait_contract os" "readv_contract os" "write_contract os" "accept_contract os lib {wfd}"
    and "startup_contract os wfd" "fresh_alloc alloc" "fresh_channel qalloc" "inet_ok lib listenAddr" "is_adler32 adler"
    and "new_process w0" "rw_channels w0 = Map.empty" "rw_context w0 = Map.empty" "wk \<noteq> ka"
    and "\<forall>(n, v) \<in> set svs. v \<noteq> None" "prompt ops serve"
    and "\<forall>m. length (ser (reply (Some (map_of (rev svs))) ops serve m)) + 8 < 2 ^ 31"
    and "boot_rpc_server os lib starter junk wfd l wk rs s a ka listenAddr svs w0 = Inr w"
    and "server_runs os lib alloc (rpc_callbacks junk' qalloc (rpc_onMessage os adler ser pfa ops pfs run_done)) l w ws (Inr w')"
    and "\<forall>v \<in> set ws. names_left s v"
  shows "closures_typed l s w'"
proof -
  from rpc_server_runs [where starter = starter and junk = junk and l = l and rs = rs and s = s and a = a and junk' = junk' and pfa = pfa
      and pfs = pfs and run_done = run_done, OF assms(1-17)] assms(18-20)
  obtain lfd where "rpc_inv rs (rpc_server_of s svs) w'" "serving l s (cb_onConnection rs) 4 None {lfd} {wfd} ka w'" by auto
  from serving_typed [OF this(2,1)] show ?thesis .
qed

theorem rpc_closures_typed_witness:
  "\<exists>w. boot_rpc_server busy_os model_lib (\<lambda>w. Inl AssertFailure) 42 5 0 9 30 20 21 22 (mk_InetAddress_port zero6 80 True False)
      [(''Echo'', Some 1)] empty_rpc_process = Inr w \<and> closures_typed 0 20 w"
proof -
  have svs: "\<forall>(n, v) \<in> set [(''Echo'', Some (1 :: nat))]. v \<noteq> None" by simp
  have short: "\<forall>m. length (echo_ser (reply (Some (map_of (rev [(''Echo'', Some 1)]))) echo_ops (\<lambda>v m q. q) m)) + 8 < 2 ^ 31" by simp
  have wk: "(9 :: ptr) \<noteq> 22" by simp
  from busy_os_contracts(1,6) empty_rpc_process_new wk model_lib_ok svs obtain lfd w where
    w: "boot_rpc_server busy_os model_lib (\<lambda>w. Inl AssertFailure) 42 5 0 9 30 20 21 22 (mk_InetAddress_port zero6 80 True False)
      [(''Echo'', Some 1)] empty_rpc_process = Inr w" by (rule boots_rpc)
  have "closures_typed 0 20 w"
    by (rule rpc_closures_typed [where junk' = 0 and pfa = echo_pfa and pfs = "\<lambda>r d. d" and run_done = "\<lambda>d r. Inr",
          OF busy_os_contracts new_ptrs_fresh new_channel_fresh model_lib_ok adler32_ref_ok empty_rpc_process_new wk svs echo_facts(1) short w
          server_runs.start]) simp
  with w show ?thesis by blast
qed

end
