(* ===== verification/Connector.thy ===== *)
theory Connector
  imports TcpConnection Sockets
begin

text \<open>
  \<open>network/Connector.h\<close> and \<open>network/src/Connector.cc\<close>: the client side of connection set-up.
  Connectors live in a store. The argument \<open>newConn\<close> runs \<open>newConnectionCallback_\<close>, which is bound
  to a client; \<open>alloc\<close> gives the address of a new channel.
\<close>

section \<open>State\<close>

datatype States = cDisconnected | cConnecting | cConnected

definition kInitRetryDelayMs :: int where "kInitRetryDelayMs = 500"

record connector =
  cn_loop :: ptr
  cn_serverAddr :: inet_address
  cn_connect :: bool
  cn_state :: States
  cn_channel :: "ptr option"
  cn_newConnectionCb :: "ptr option"
  cn_retryDelayMs :: int

record nworld = cworld +
  nw_connectors :: "ptr \<rightharpoonup> connector"

definition get_connector :: "ptr \<Rightarrow> 'a nworld_scheme \<Rightarrow> connector res" where
  "get_connector a w = derefR (nw_connectors w a)"

definition put_connector :: "ptr \<Rightarrow> connector \<Rightarrow> 'a nworld_scheme \<Rightarrow> 'a nworld_scheme" where
  "put_connector a cn w = w\<lparr>nw_connectors := (nw_connectors w)(a \<mapsto> cn)\<rparr>"

definition upd_connector :: "ptr \<Rightarrow> (connector \<Rightarrow> connector) \<Rightarrow> 'a nworld_scheme \<Rightarrow> 'a nworld_scheme res" where
  "upd_connector a f w = bindR (get_connector a w) (\<lambda>cn. Inr (put_connector a (f cn) w))"

section \<open>Connector.cc\<close>

definition mk_Connector :: "ptr \<Rightarrow> inet_address \<Rightarrow> connector" where
  "mk_Connector l serverAddr = \<lparr>cn_loop = l, cn_serverAddr = serverAddr, cn_connect = False, cn_state = cDisconnected,
     cn_channel = None, cn_newConnectionCb = None, cn_retryDelayMs = kInitRetryDelayMs\<rparr>"

definition setNewConnectionCallback_connector :: "ptr \<Rightarrow> connector \<Rightarrow> connector" where
  "setNewConnectionCallback_connector cl cn = cn\<lparr>cn_newConnectionCb := Some cl\<rparr>"

definition delete_Connector :: "ptr \<Rightarrow> 'a nworld_scheme \<Rightarrow> 'a nworld_scheme res" where
  "delete_Connector a w =
     bindR (get_connector a w) (\<lambda>cn.
       assertR (cn_channel cn = None) (Inr (w\<lparr>nw_connectors := (nw_connectors w)(a := None)\<rparr>)))"

definition setState_connector :: "ptr \<Rightarrow> States \<Rightarrow> 'a nworld_scheme \<Rightarrow> 'a nworld_scheme res" where
  "setState_connector a s w = upd_connector a (\<lambda>cn. cn\<lparr>cn_state := s\<rparr>) w"

text \<open>The values of \<open>errno\<close> on Linux: 0, \<open>EINPROGRESS\<close>, \<open>EINTR\<close>, \<open>EISCONN\<close>; then \<open>EAGAIN\<close>, \<open>EADDRINUSE\<close>,
  \<open>EADDRNOTAVAIL\<close>, \<open>ECONNREFUSED\<close>, \<open>ENETUNREACH\<close>. All others close the socket.\<close>

definition connecting_errors :: "int list" where
  "connecting_errors = [0, 115, 4, 106]"

definition retry_errors :: "int list" where
  "retry_errors = [11, 98, 99, 111, 101]"

text \<open>\<open>retry\<close> prints the address of the server; the timer that would try again is commented out.\<close>

definition retry :: "inet_lib \<Rightarrow> ptr \<Rightarrow> fd \<Rightarrow> 'a nworld_scheme \<Rightarrow> 'a nworld_scheme res" where
  "retry lib a sockfd w =
     bindR (setState_connector a cDisconnected (close_fd sockfd w)) (\<lambda>w1.
     bindR (get_connector a w1) (\<lambda>cn.
       if cn_connect cn then bindR (toIpPort lib (cn_serverAddr cn)) (\<lambda>_. Inr w1) else Inr w1))"

definition connecting ::
  "'o os_scheme \<Rightarrow> ('a nworld_scheme \<Rightarrow> ptr) \<Rightarrow> ptr \<Rightarrow> fd \<Rightarrow> 'a nworld_scheme \<Rightarrow> 'a nworld_scheme res" where
  "connecting os alloc a sockfd w =
     bindR (setState_connector a cConnecting w) (\<lambda>w1.
     bindR (get_connector a w1) (\<lambda>cn.
       assertR (cn_channel cn = None)
         (let k = alloc w1;
              ch = setErrorCallback (ConnectorHandleError a) (setWriteCallback (ConnectorHandleWrite a) (mk_Channel (cn_loop cn) sockfd)) in
          enableWriting os k (put_connector a (cn\<lparr>cn_channel := Some k\<rparr>) (put_chan k ch w1)))))"

definition connect ::
  "'o net_os_scheme \<Rightarrow> inet_lib \<Rightarrow> ('a nworld_scheme \<Rightarrow> ptr) \<Rightarrow> ptr \<Rightarrow> 'a nworld_scheme \<Rightarrow> 'a nworld_scheme res" where
  "connect os lib alloc a w =
     bindR (createNonblockingOrDie os w) (\<lambda>(sockfd, w1).
       let (savedErrno, w2) = connect_socket os sockfd w1 in
       if savedErrno \<in> set connecting_errors then connecting os alloc a sockfd w2
       else if savedErrno \<in> set retry_errors then retry lib a sockfd w2
       else Inr (close_fd sockfd w2))"

definition startInLoop_connector ::
  "'o net_os_scheme \<Rightarrow> inet_lib \<Rightarrow> ('a nworld_scheme \<Rightarrow> ptr) \<Rightarrow> ptr \<Rightarrow> 'a nworld_scheme \<Rightarrow> 'a nworld_scheme res" where
  "startInLoop_connector os lib alloc a w =
     bindR (get_connector a w) (\<lambda>cn. bindR (assertInLoopThread (cn_loop cn) w) (\<lambda>w.
       assertR (cn_state cn = cDisconnected) (if cn_connect cn then connect os lib alloc a w else Inr w)))"

definition start_connector ::
  "'o net_os_scheme \<Rightarrow> inet_lib \<Rightarrow> ('a nworld_scheme \<Rightarrow> ptr) \<Rightarrow> ptr \<Rightarrow> 'a nworld_scheme \<Rightarrow> 'a nworld_scheme res" where
  "start_connector os lib alloc a w =
     bindR (get_connector a w) (\<lambda>cn.
       runInLoop os (\<lambda>_. startInLoop_connector os lib alloc a) (cn_loop cn) (F_startInLoop a)
         (put_connector a (cn\<lparr>cn_connect := True\<rparr>) w))"

definition restart ::
  "'o net_os_scheme \<Rightarrow> inet_lib \<Rightarrow> ('a nworld_scheme \<Rightarrow> ptr) \<Rightarrow> ptr \<Rightarrow> 'a nworld_scheme \<Rightarrow> 'a nworld_scheme res" where
  "restart os lib alloc a w =
     bindR (get_connector a w) (\<lambda>cn. bindR (assertInLoopThread (cn_loop cn) w) (\<lambda>w.
       startInLoop_connector os lib alloc a
         (put_connector a (cn\<lparr>cn_state := cDisconnected, cn_retryDelayMs := kInitRetryDelayMs, cn_connect := True\<rparr>) w)))"

definition removeAndResetChannel :: "'o os_scheme \<Rightarrow> ptr \<Rightarrow> 'a nworld_scheme \<Rightarrow> (fd \<times> 'a nworld_scheme) res" where
  "removeAndResetChannel os a w =
     bindR (get_connector a w) (\<lambda>cn. bindR (derefR (cn_channel cn)) (\<lambda>k.
     bindR (disableAll os k w) (\<lambda>w1. bindR (remove_channel os k w1) (\<lambda>w2.
     bindR (get_chan k w2) (\<lambda>ch. Inr (ch_fd ch, queueInLoop os (cn_loop cn) (F_resetChannel a) w2))))))"

definition resetChannel :: "ptr \<Rightarrow> 'a nworld_scheme \<Rightarrow> 'a nworld_scheme res" where
  "resetChannel a w =
     bindR (get_connector a w) (\<lambda>cn. case cn_channel cn of
       None \<Rightarrow> Inr w
     | Some k \<Rightarrow> bindR (delete_Channel k w) (\<lambda>w1. Inr (put_connector a (cn\<lparr>cn_channel := None\<rparr>) w1)))"

definition stopInLoop_connector :: "'o os_scheme \<Rightarrow> inet_lib \<Rightarrow> ptr \<Rightarrow> 'a nworld_scheme \<Rightarrow> 'a nworld_scheme res" where
  "stopInLoop_connector os lib a w =
     bindR (get_connector a w) (\<lambda>cn. bindR (assertInLoopThread (cn_loop cn) w) (\<lambda>w.
       if cn_state cn = cConnecting then
         bindR (setState_connector a cDisconnected w) (\<lambda>w1.
         bindR (removeAndResetChannel os a w1) (\<lambda>(sockfd, w2). retry lib a sockfd w2))
       else Inr w))"

definition stop_connector :: "'o os_scheme \<Rightarrow> ptr \<Rightarrow> 'a nworld_scheme \<Rightarrow> 'a nworld_scheme res" where
  "stop_connector os a w =
     bindR (get_connector a w) (\<lambda>cn.
       Inr (queueInLoop os (cn_loop cn) (F_stopInLoop a) (put_connector a (cn\<lparr>cn_connect := False\<rparr>) w)))"

definition handleWrite_connector ::
  "'o net_os_scheme \<Rightarrow> inet_lib \<Rightarrow> (ptr \<Rightarrow> fd \<Rightarrow> 'a nworld_scheme \<Rightarrow> 'a nworld_scheme res) \<Rightarrow> ptr \<Rightarrow>
   'a nworld_scheme \<Rightarrow> 'a nworld_scheme res" where
  "handleWrite_connector os lib newConn a w =
     bindR (get_connector a w) (\<lambda>cn.
       if cn_state cn = cConnecting then
         bindR (removeAndResetChannel os a w) (\<lambda>(sockfd, w1).
           let (err, w2) = getSocketError os sockfd w1 in
           if err \<noteq> 0 then retry lib a sockfd w2
           else if isSelfConnect (getLocalAddr os sockfd w2) (getPeerAddr os sockfd w2) then retry lib a sockfd w2
           else bindR (setState_connector a cConnected w2) (\<lambda>w3.
             if cn_connect cn then
               (case cn_newConnectionCb cn of None \<Rightarrow> Inl BadFunctionCall | Some cl \<Rightarrow> newConn cl sockfd w3)
             else Inr (close_fd sockfd w3)))
       else assertR (cn_state cn = cDisconnected) (Inr w))"

definition handleError_connector :: "'o os_scheme \<Rightarrow> inet_lib \<Rightarrow> ptr \<Rightarrow> 'a nworld_scheme \<Rightarrow> 'a nworld_scheme res" where
  "handleError_connector os lib a w =
     bindR (get_connector a w) (\<lambda>cn.
       if cn_state cn = cConnecting then
         bindR (removeAndResetChannel os a w) (\<lambda>(sockfd, w1).
           let (err, w2) = getSocketError os sockfd w1 in retry lib a sockfd w2)
       else Inr w)"

end
