(* ===== verification/Connecting.thy ===== *)
theory Connecting
  imports Connector
begin

text \<open>
  Properties of \<open>Connector\<close>. A connector creates a socket for every attempt to connect; each of them is
  watched by its channel while the attempt lasts, and is then closed or handed to the client, never
  both and never neither.
\<close>

section \<open>Frames\<close>

lemma nw_connectors_frame [simp]:
  "nw_connectors (log_call s w) = nw_connectors w" "nw_connectors (put_chan k ch w) = nw_connectors w"
  "nw_connectors (upd_loop l f w) = nw_connectors w" "nw_connectors (updated_world l k ch w) = nw_connectors w"
  "nw_connectors (removed_world l k ch w) = nw_connectors w" "nw_connectors (queueInLoop os l fn w) = nw_connectors w"
  "nw_connectors (close_fd sockfd w) = nw_connectors w"
  by (simp_all add: log_call_def put_chan_def upd_loop_def updated_world_def removed_world_def wakeup_def
      Let_def queueInLoop_def close_fd_def)

lemma put_connector_simps [simp]:
  "w_tid (put_connector a cn w) = w_tid w" "w_chans (put_connector a cn w) = w_chans w"
  "w_loops (put_connector a cn w) = w_loops w" "w_trace (put_connector a cn w) = w_trace w"
  "cw_conns (put_connector a cn w) = cw_conns w"
  "nw_connectors (put_connector a cn w) = (nw_connectors w)(a \<mapsto> cn)"
  by (simp_all add: put_connector_def)

lemma get_connector_Some [simp]: "nw_connectors w a = Some cn \<Longrightarrow> get_connector a w = Inr cn"
  by (simp add: get_connector_def)

lemma setState_connector_Some [simp]:
  "nw_connectors w a = Some cn \<Longrightarrow> setState_connector a s w = Inr (put_connector a (cn\<lparr>cn_state := s\<rparr>) w)"
  by (simp add: setState_connector_def upd_connector_def)

section \<open>Fresh descriptors and addresses\<close>

text \<open>The kernel never hands out a descriptor that is in use.\<close>

definition socket_contract :: "'o net_os_scheme \<Rightarrow> bool" where
  "socket_contract os \<longleftrightarrow> (\<forall>tr. os_socket os tr < 0 \<or> os_socket os tr \<notin> open_fds tr)"

text \<open>A new channel gets an address that is not in use.\<close>

definition fresh_alloc :: "('a world_scheme \<Rightarrow> ptr) \<Rightarrow> bool" where
  "fresh_alloc alloc \<longleftrightarrow> (\<forall>w. finite (dom (w_chans w)) \<longrightarrow> w_chans w (alloc w) = None)"

section \<open>Steps\<close>

text \<open>
  What happens to a connector: calls of its members by its owner, the functors it queues and the
  events of its channel. The client only takes note of the sockets it is given.
\<close>

record hworld = nworld +
  hw_handed :: "fd list"

definition hand_over :: "ptr \<Rightarrow> fd \<Rightarrow> hworld \<Rightarrow> hworld res" where
  "hand_over cl sockfd w = Inr (w\<lparr>hw_handed := hw_handed w @ [sockfd]\<rparr>)"

datatype cn_op = Start | StartInLoop | Restart | Stop | StopInLoop | HandleWrite | HandleError | Reset

fun cn_step :: "'o net_os_scheme \<Rightarrow> inet_lib \<Rightarrow> (hworld \<Rightarrow> ptr) \<Rightarrow> ptr \<Rightarrow> cn_op \<Rightarrow> hworld \<Rightarrow> hworld res" where
  "cn_step os lib alloc a Start w = start_connector os lib alloc a w"
| "cn_step os lib alloc a StartInLoop w = startInLoop_connector os lib alloc a w"
| "cn_step os lib alloc a Restart w = restart os lib alloc a w"
| "cn_step os lib alloc a Stop w = stop_connector os a w"
| "cn_step os lib alloc a StopInLoop w = stopInLoop_connector os lib a w"
| "cn_step os lib alloc a HandleWrite w = handleWrite_connector os lib hand_over a w"
| "cn_step os lib alloc a HandleError w = handleError_connector os lib a w"
| "cn_step os lib alloc a Reset w = resetChannel a w"

text \<open>
  When a step may happen. An attempt is started only when the previous one is over and its channel
  has been deleted; an event is handled by the loop that is about to handle that channel; the channel
  is deleted after the attempt.
\<close>

fun cn_allowed :: "ptr \<Rightarrow> cn_op \<Rightarrow> connector \<Rightarrow> 'a world_scheme \<Rightarrow> bool" where
  "cn_allowed a Start cn w \<longleftrightarrow> (isInLoopThread (cn_loop cn) w \<longrightarrow> cn_state cn = cDisconnected \<and> cn_channel cn = None)"
| "cn_allowed a StartInLoop cn w \<longleftrightarrow> cn_state cn = cDisconnected \<and> cn_channel cn = None"
| "cn_allowed a Restart cn w \<longleftrightarrow> cn_state cn \<noteq> cConnecting \<and> cn_channel cn = None"
| "cn_allowed a Stop cn w \<longleftrightarrow> True"
| "cn_allowed a StopInLoop cn w \<longleftrightarrow> \<not> el_eventHandling (w_loops w (cn_loop cn))"
| "cn_allowed a HandleWrite cn w \<longleftrightarrow> cn_state cn \<noteq> cConnected \<and> el_current (w_loops w (cn_loop cn)) = cn_channel cn"
| "cn_allowed a HandleError cn w \<longleftrightarrow> el_current (w_loops w (cn_loop cn)) = cn_channel cn"
| "cn_allowed a Reset cn w \<longleftrightarrow> cn_state cn \<noteq> cConnecting"

text \<open>Between two steps the loop may do anything that touches neither the connector nor a channel or descriptor.\<close>

definition unrelated :: "hworld \<Rightarrow> hworld \<Rightarrow> bool" where
  "unrelated w w' \<longleftrightarrow> w_chans w' = w_chans w \<and> (\<forall>l. chan_map l w' = chan_map l w \<and> interest l (w_trace w') = interest l (w_trace w)) \<and>
     open_fds (w_trace w') = open_fds (w_trace w) \<and> closes_open (w_trace w') = closes_open (w_trace w) \<and>
     nw_connectors w' = nw_connectors w \<and> hw_handed w' = hw_handed w"

inductive cn_reach :: "'o net_os_scheme \<Rightarrow> inet_lib \<Rightarrow> (hworld \<Rightarrow> ptr) \<Rightarrow> ptr \<Rightarrow> hworld \<Rightarrow> hworld \<Rightarrow> bool"
  for os lib alloc a w0 where
  here: "cn_reach os lib alloc a w0 w0"
| op_step: "cn_reach os lib alloc a w0 w \<Longrightarrow> nw_connectors w a = Some cn \<Longrightarrow> cn_allowed a x cn w \<Longrightarrow>
    cn_step os lib alloc a x w = Inr w' \<Longrightarrow> cn_reach os lib alloc a w0 w'"
| other: "cn_reach os lib alloc a w0 w \<Longrightarrow> unrelated w w' \<Longrightarrow> cn_reach os lib alloc a w0 w'"

lemma hw_handed_frame [simp]:
  "hw_handed (log_call s w) = hw_handed w" "hw_handed (put_chan k ch w) = hw_handed w"
  "hw_handed (updated_world l k ch w) = hw_handed w" "hw_handed (removed_world l k ch w) = hw_handed w"
  "hw_handed (queueInLoop os l fn w) = hw_handed w" "hw_handed (close_fd sockfd w) = hw_handed w"
  "hw_handed (put_connector a cn w) = hw_handed w"
  by (simp_all add: log_call_def put_chan_def upd_loop_def updated_world_def removed_world_def wakeup_def
      Let_def queueInLoop_def close_fd_def put_connector_def)

section \<open>Invariant\<close>

text \<open>
  \<open>B\<close> are the descriptors open at the start, \<open>S\<close> the sockets created since and still open. Every channel
  but the connector's own has a descriptor of \<open>B\<close>.
\<close>

definition cn_core :: "inet_lib \<Rightarrow> fd set \<Rightarrow> fd list \<Rightarrow> ptr \<Rightarrow> connector \<Rightarrow> hworld \<Rightarrow> bool" where
  "cn_core lib B S a cn w \<longleftrightarrow> reactor_inv w \<and> finite (dom (w_chans w)) \<and> nw_connectors w a = Some cn \<and> inet_ok lib (cn_serverAddr cn) \<and>
     cn_newConnectionCb cn \<noteq> None \<and> (\<forall>k ch. w_chans w k = Some ch \<longrightarrow> cn_channel cn \<noteq> Some k \<longrightarrow> ch_fd ch \<in> B) \<and>
     distinct S \<and> set S \<inter> B = {} \<and> open_fds (w_trace w) = B \<union> set S \<and> closes_open (w_trace w)"

definition chan_ok :: "connector \<Rightarrow> 'a world_scheme \<Rightarrow> bool" where
  "chan_ok cn w \<longleftrightarrow> (case cn_channel cn of
     None \<Rightarrow> cn_state cn \<noteq> cConnecting
   | Some k \<Rightarrow> (\<exists>ch. w_chans w k = Some ch \<and> ch_loop ch = cn_loop cn \<and> \<not> ch_handling ch \<and>
       (if cn_state cn = cConnecting then ch_index ch = kAdded \<and> ch_events ch = WriteEvent
        else ch_index ch = kNew \<and> \<not> ch_added ch)))"

text \<open>The socket of an attempt under way.\<close>

definition held :: "connector \<Rightarrow> 'a world_scheme \<Rightarrow> fd list" where
  "held cn w = (if cn_state cn = cConnecting
     then (case cn_channel cn of None \<Rightarrow> [] | Some k \<Rightarrow> (case w_chans w k of None \<Rightarrow> [] | Some ch \<Rightarrow> [ch_fd ch])) else [])"

definition cn_inv :: "inet_lib \<Rightarrow> fd set \<Rightarrow> ptr \<Rightarrow> hworld \<Rightarrow> bool" where
  "cn_inv lib B a w \<longleftrightarrow> (\<exists>cn. cn_core lib B (hw_handed w @ held cn w) a cn w \<and> chan_ok cn w)"

lemma cn_inv_idle:
  "cn_core lib B (hw_handed w) a cn w \<Longrightarrow> cn_state cn \<noteq> cConnecting \<Longrightarrow> cn_channel cn = None \<Longrightarrow> cn_inv lib B a w"
  unfolding cn_inv_def by (intro exI [of _ cn]) (simp add: held_def chan_ok_def)

lemma cn_inv_over:
  "cn_core lib B (hw_handed w) a cn w \<Longrightarrow> cn_state cn \<noteq> cConnecting \<Longrightarrow> chan_ok cn w \<Longrightarrow> cn_inv lib B a w"
  unfolding cn_inv_def by (intro exI [of _ cn]) (simp add: held_def)

lemma chan_ok_cong: "w_chans w' = w_chans w \<Longrightarrow> chan_ok cn w' = chan_ok cn w"
  by (cases "cn_channel cn") (simp_all add: chan_ok_def)

lemma held_cong: "w_chans w' = w_chans w \<Longrightarrow> held cn w' = held cn w"
  by (cases "cn_channel cn") (simp_all add: held_def)

lemma connect_frame [simp]:
  "chan_ok (cn\<lparr>cn_connect := b\<rparr>) (put_connector a cn' w) = chan_ok cn w"
  "held (cn\<lparr>cn_connect := b\<rparr>) (put_connector a cn' w) = held cn w"
  by (cases "cn_channel cn"; simp add: chan_ok_def held_def)+

lemma cn_inv_unrelated:
  assumes "cn_inv lib B a w" "unrelated w w'"
  shows "cn_inv lib B a w'"
proof -
  have eqs: "w_chans w' = w_chans w" "\<And>l. chan_map l w' = chan_map l w" "\<And>l. interest l (w_trace w') = interest l (w_trace w)"
    "open_fds (w_trace w') = open_fds (w_trace w)" "closes_open (w_trace w') = closes_open (w_trace w)" "nw_connectors w' = nw_connectors w" "hw_handed w' = hw_handed w"
    using assms(2) by (simp_all add: unrelated_def)
  have "reactor_inv w'" if "reactor_inv w" using that eqs(1-3) by (rule reactor_inv_cong)
  with assms(1) show ?thesis
    unfolding cn_inv_def cn_core_def by (auto simp: eqs chan_ok_cong [OF eqs(1)] held_cong [OF eqs(1)])
qed

text \<open>Recording a system call that concerns no descriptor, opening one, closing one.\<close>

lemma cn_core_log:
  assumes "cn_core lib B S a cn w" "\<And>l. ctl_effect l s = id"
  shows "fd_effect s = id \<Longrightarrow> cn_core lib B S a cn (log_call s w)"
    and "fd_effect s = insert fd \<Longrightarrow> fd \<notin> open_fds (w_trace w) \<Longrightarrow> cn_core lib B (S @ [fd]) a cn (log_call s w)"
    and "s = SysClose fd \<Longrightarrow> S = S' @ [fd] \<Longrightarrow> cn_core lib B S' a cn (log_call s w)"
proof -
  have "reactor_inv (log_call s w)" using assms
    by (auto simp: cn_core_def intro: reactor_inv_cong)
  moreover have "s \<noteq> SysClose f" if "fd_effect s = id \<or> fd_effect s = insert fd" for f
  proof
    assume "s = SysClose f"
    moreover have "fd_effect s {f} \<noteq> {}" using that by auto
    ultimately show False by simp
  qed
  ultimately show "fd_effect s = id \<Longrightarrow> cn_core lib B S a cn (log_call s w)"
    "fd_effect s = insert fd \<Longrightarrow> fd \<notin> open_fds (w_trace w) \<Longrightarrow> cn_core lib B (S @ [fd]) a cn (log_call s w)"
    "s = SysClose fd \<Longrightarrow> S = S' @ [fd] \<Longrightarrow> cn_core lib B S' a cn (log_call s w)"
    using assms(1) by (auto simp: cn_core_def)
qed

lemma ctl_effect_id [simp]:
  "ctl_effect l (SysSocket fd) = id" "ctl_effect l (SysConnect fd e) = id" "ctl_effect l (SysClose fd) = id"
  "ctl_effect l (SysGetSoError fd e) = id" "ctl_effect l (SysWrite fd d n) = id"
  by (simp_all add: fun_eq_iff)

lemma fd_effect_id [simp]:
  "fd_effect (SysSocket fd) = insert fd" "fd_effect (SysConnect fd e) = id" "fd_effect (SysClose fd) = (\<lambda>F. F - {fd})"
  "fd_effect (SysGetSoError fd e) = id" "fd_effect (SysWrite fd d n) = id"
  by (simp_all add: fun_eq_iff)

lemma cn_core_close: "cn_core lib B (S @ [fd]) a cn w \<Longrightarrow> cn_core lib B S a cn (close_fd fd w)"
  unfolding close_fd_def by (rule cn_core_log(3)) simp_all

lemma cn_core_put:
  assumes "cn_core lib B S a cn w" "cn_serverAddr cn' = cn_serverAddr cn" "cn_newConnectionCb cn' = cn_newConnectionCb cn"
    "cn_channel cn' = cn_channel cn"
  shows "cn_core lib B S a cn' (put_connector a cn' w)"
proof -
  have "reactor_inv (put_connector a cn' w)"
    using assms(1) by (auto simp: cn_core_def intro: reactor_inv_cong)
  with assms show ?thesis by (auto simp: cn_core_def)
qed

lemma cn_core_queue: "cn_core lib B S a cn w \<Longrightarrow> cn_core lib B S a cn (queueInLoop os l fn w)"
proof -
  assume core: "cn_core lib B S a cn w"
  then have "reactor_inv (queueInLoop os l fn w)" by (auto simp: cn_core_def intro: reactor_inv_cong)
  with core show ?thesis by (auto simp: cn_core_def)
qed

text \<open>The end of an attempt.\<close>

lemma retry_ok:
  assumes "cn_core lib B (S @ [fd]) a cn w"
  obtains w' cn' where "retry lib a fd w = Inr w'" "cn_core lib B S a cn' w'" "cn' = cn\<lparr>cn_state := cDisconnected\<rparr>"
    "w_chans w' = w_chans w" "hw_handed w' = hw_handed w"
proof -
  let ?cn = "cn\<lparr>cn_state := cDisconnected\<rparr>" and ?w = "put_connector a (cn\<lparr>cn_state := cDisconnected\<rparr>) (close_fd fd w)"
  have cn: "nw_connectors w a = Some cn" "inet_ok lib (cn_serverAddr cn)" using assms by (simp_all add: cn_core_def)
  have "retry lib a fd w = Inr ?w"
    using cn toIpPort_ok [OF cn(2)] by (simp add: retry_def)
  moreover have "cn_core lib B S a ?cn ?w"
    by (rule cn_core_put [OF cn_core_close [OF assms]]) simp_all
  ultimately show thesis using that by simp
qed

text \<open>Taking the channel of an attempt out of the loop.\<close>

lemma removeAndResetChannel_world:
  assumes os: "epoll_ctl_contract os" and inv: "reactor_inv w" and cn: "nw_connectors w a = Some cn" and k: "cn_channel cn = Some k"
    and ch: "w_chans w k = Some ch" "ch_loop ch = cn_loop cn" "ch_index ch = kAdded"
    and quiet: "\<not> awaited (cn_loop cn) k w"
  obtains w' ch' where "removeAndResetChannel os a w = Inr (ch_fd ch, w')" "reactor_inv w'"
    "w_chans w' = (w_chans w)(k \<mapsto> ch')" "ch_loop ch' = cn_loop cn" "ch_fd ch' = ch_fd ch" "ch_handling ch' = ch_handling ch" "ch_index ch' = kNew"
    "\<not> ch_added ch'" "world.more w' = world.more w" "open_fds (w_trace w') = open_fds (w_trace w)"
    "w_tid w' = w_tid w" "el_pending (w_loops w' (cn_loop cn)) = el_pending (w_loops w (cn_loop cn)) @ [F_resetChannel a]"
    "closes_open (w_trace w') = closes_open (w_trace w)"
proof -
  let ?l = "cn_loop cn"
  define c1 where "c1 = ch\<lparr>ch_events := NoneEvent, ch_added := True\<rparr>"
  define w1 where "w1 = updated_world ?l k c1 w"
  define c2 where "c2 = c1\<lparr>ch_index := next_index c1\<rparr>"
  define w2 where "w2 = removed_world ?l k (c2\<lparr>ch_added := False\<rparr>) w1"
  let ?w = "queueInLoop os ?l (F_resetChannel a) w2" and ?ch = "c2\<lparr>ch_added := False, ch_index := kNew\<rparr>"
  from os inv ch(1) have w1: "disableAll os k w = Inr w1" "reactor_inv w1"
    unfolding w1_def c1_def disableAll_def ch(2) [symmetric] by (auto elim: set_events_reactor [where f = "\<lambda>_. NoneEvent"])
  have c2: "w_chans w1 k = Some c2" "ch_loop c2 = ?l" "ch_index c2 \<noteq> kNew" "isNoneEvent c2" "ch_fd c2 = ch_fd ch" "ch_handling c2 = ch_handling ch"
    using ch by (simp_all add: w1_def c2_def c1_def next_index_def index_defs isNoneEvent_def NoneEvent_def)
  have "registry_inv ?l w1" and "registrable ?l k c2 w1"
    using w1(2) reactor_registrable [OF w1(2) c2(1)] c2(2) by (simp_all add: reactor_inv_def)
  moreover have "\<not> awaited ?l k w1" using quiet by (simp add: w1_def)
  ultimately have rm: "remove_channel os k w1 = Inr w2"
    unfolding w2_def by (intro remove_channel_ok [OF os]) (use c2 in \<open>auto simp: awaited_def\<close>)
  have "reactor_inv w2" using reactor_inv_removed [OF w1(2) c2(1,3)] c2(2) by (simp add: w2_def)
  then have inv2: "reactor_inv ?w" by (rule reactor_inv_cong) simp_all
  have chans: "w_chans ?w = (w_chans w)(k \<mapsto> ?ch)" by (simp add: w2_def w1_def)
  have eq: "removeAndResetChannel os a w = Inr (ch_fd ch, ?w)"
    using cn k w1(1) rm c2(5) by (simp add: removeAndResetChannel_def w2_def)
  have pend: "el_pending (w_loops ?w ?l) = el_pending (w_loops w ?l) @ [F_resetChannel a]"
    by (simp add: w2_def w1_def removed_world_def updated_world_def)
  have more: "world.more ?w = world.more w" "open_fds (w_trace ?w) = open_fds (w_trace w)" "w_tid ?w = w_tid w"
    by (simp_all add: w2_def w1_def)
  show thesis
    by (rule that [OF eq inv2 chans _ _ _ _ _ more pend]) (use c2 in \<open>simp_all add: w2_def w1_def\<close>)
qed

lemma nw_more: "world.more w' = world.more w \<Longrightarrow> nw_connectors w' = nw_connectors w \<and> cw_conns w' = cw_conns w"
  by (cases w, cases w') (simp add: cworld.defs nworld.defs)

lemma hw_more: "world.more w' = world.more w \<Longrightarrow> hw_handed w' = hw_handed w"
  by (cases w, cases w') (simp add: cworld.defs nworld.defs hworld.defs)

lemma removeAndResetChannel_ok:
  assumes os: "epoll_ctl_contract os" and core: "cn_core lib B S a cn w" and k: "cn_channel cn = Some k"
    and ch: "w_chans w k = Some ch" "ch_loop ch = cn_loop cn" "\<not> ch_handling ch" "ch_index ch = kAdded"
    and quiet: "\<not> awaited (cn_loop cn) k w"
  obtains w' ch' where "removeAndResetChannel os a w = Inr (ch_fd ch, w')" "cn_core lib B S a cn w'"
    "w_chans w' k = Some ch'" "ch_loop ch' = cn_loop cn" "\<not> ch_handling ch'" "ch_index ch' = kNew" "\<not> ch_added ch'"
    "hw_handed w' = hw_handed w"
proof -
  have "reactor_inv w" "nw_connectors w a = Some cn" using core by (simp_all add: cn_core_def)
  from os this k ch(1,2,4) quiet obtain w' ch' where w': "removeAndResetChannel os a w = Inr (ch_fd ch, w')" "reactor_inv w'"
    "w_chans w' = (w_chans w)(k \<mapsto> ch')" "ch_loop ch' = cn_loop cn" "ch_handling ch' = ch_handling ch" "ch_index ch' = kNew" "\<not> ch_added ch'"
    "world.more w' = world.more w" "open_fds (w_trace w') = open_fds (w_trace w)" "closes_open (w_trace w') = closes_open (w_trace w)"
    by (rule removeAndResetChannel_world)
  have "cn_core lib B S a cn w'"
    using core k w'(2,3,9,10) nw_more [OF w'(8)] by (auto simp: cn_core_def)
  with w' ch(3) hw_more [OF w'(8)] that show thesis by simp
qed

text \<open>A new attempt.\<close>

lemma connecting_ok:
  assumes os: "epoll_ctl_contract os" and alloc: "fresh_alloc alloc"
    and core: "cn_core lib B (S @ [fd]) a cn w" and S: "S = hw_handed w" and k: "cn_channel cn = None"
  obtains w' where "connecting os alloc a fd w = Inr w'" "cn_inv lib B a w'"
proof -
  let ?l = "cn_loop cn"
  define w1 where "w1 = put_connector a (cn\<lparr>cn_state := cConnecting\<rparr>) w"
  define k where "k = alloc w1"
  define ch where "ch = setErrorCallback (ConnectorHandleError a) (setWriteCallback (ConnectorHandleWrite a) (mk_Channel ?l fd))"
  define cn' where "cn' = cn\<lparr>cn_state := cConnecting, cn_channel := Some k\<rparr>"
  define w2 where "w2 = put_connector a cn' (put_chan k ch w1)"
  have cn: "nw_connectors w a = Some cn" using core by (simp add: cn_core_def)
  have ch: "ch_loop ch = ?l" "ch_fd ch = fd" "ch_index ch = kNew" "ch_events ch = 0" "\<not> ch_handling ch"
    by (simp_all add: ch_def setErrorCallback_def setWriteCallback_def mk_Channel_def kNew_def)
  have core1: "cn_core lib B (S @ [fd]) a (cn\<lparr>cn_state := cConnecting\<rparr>) w1"
    unfolding w1_def by (rule cn_core_put [OF core]) simp_all
  have others: "ch_fd c \<in> B" if "w_chans w1 j = Some c" for j c
    using core1 that assms(5) by (auto simp: cn_core_def)
  have "reactor_inv (put_chan k ch w1)"
  proof (rule reactor_inv_new_channel [OF _ _ ch(3)])
    show "ch_fd c \<noteq> ch_fd ch" if "w_chans w1 j = Some c" for j c
      using others [OF that] core1 ch(2) by (auto simp: cn_core_def)
  qed (use core1 alloc in \<open>simp_all add: cn_core_def k_def fresh_alloc_def\<close>)
  then have inv2: "reactor_inv w2" unfolding w2_def by (rule reactor_inv_cong) simp_all
  have c2: "w_chans w2 k = Some ch" by (simp add: w2_def)
  from os inv2 c2 obtain w3 where w3: "set_events os (\<lambda>e. e OR WriteEvent) k w2 = Inr w3" "reactor_inv w3"
    "w3 = updated_world (ch_loop ch) k (ch\<lparr>ch_events := ch_events ch OR WriteEvent, ch_added := True\<rparr>) w2"
    by (rule set_events_reactor)
  have "connecting os alloc a fd w = Inr w3"
    using cn assms(5) w3(1)
    by (simp add: connecting_def Let_def enableWriting_def w2_def cn'_def ch_def k_def w1_def put_connector_def fun_upd_twist)
  moreover have "held cn' w3 = [fd]" "chan_ok cn' w3"
    using ch by (auto simp: held_def chan_ok_def cn'_def w3(3) next_index_def index_defs isNoneEvent_def)
  moreover have "cn_core lib B (S @ [fd]) a cn' w3"
    using core1 w3(2) others by (auto simp: cn_core_def w3(3) w2_def w1_def cn'_def split: if_splits)
  moreover have "hw_handed w3 = S" by (simp add: S w3(3) w2_def w1_def)
  ultimately show thesis
    using that [of w3] unfolding cn_inv_def by (metis (no_types))
qed

lemma connect_ok:
  assumes os: "epoll_ctl_contract os" "socket_contract os" and alloc: "fresh_alloc alloc"
    and core: "cn_core lib B (hw_handed w) a cn w" and k: "cn_channel cn = None" "cn_state cn \<noteq> cConnecting"
  shows "connect os lib alloc a w = Inl FatalLog \<and> os_socket os (w_trace w) < 0 \<or>
    (\<exists>w'. connect os lib alloc a w = Inr w' \<and> cn_inv lib B a w')"
proof (cases "os_socket os (w_trace w) < 0")
  case True
  then show ?thesis by (simp add: connect_def createNonblockingOrDie_def)
next
  case False
  define fd where "fd = os_socket os (w_trace w)"
  define e where "e = os_connect os (w_trace w @ [SysSocket fd]) fd"
  define w2 where "w2 = log_call (SysConnect fd e) (log_call (SysSocket fd) w)"
  have "fd \<notin> open_fds (w_trace w)" using False os(2) by (auto simp: socket_contract_def fd_def)
  then have "cn_core lib B (hw_handed w @ [fd]) a cn (log_call (SysSocket fd) w)"
    by (intro cn_core_log(2) [OF core]) simp_all
  then have core2: "cn_core lib B (hw_handed w @ [fd]) a cn w2"
    unfolding w2_def by (rule cn_core_log(1)) simp_all
  have hw: "hw_handed w = hw_handed w2" by (simp add: w2_def)
  have con: "connect os lib alloc a w = (if e \<in> set connecting_errors then connecting os alloc a fd w2
      else if e \<in> set retry_errors then retry lib a fd w2 else Inr (close_fd fd w2))"
    using False by (simp add: connect_def createNonblockingOrDie_def connect_socket_def Let_def w2_def e_def fd_def)
  from os(1) alloc core2 hw k(1) obtain w3 where w3: "connecting os alloc a fd w2 = Inr w3" "cn_inv lib B a w3"
    by (rule connecting_ok)
  from core2 obtain w4 cn' where w4: "retry lib a fd w2 = Inr w4" "cn_core lib B (hw_handed w) a cn' w4"
    "cn' = cn\<lparr>cn_state := cDisconnected\<rparr>" "hw_handed w4 = hw_handed w2" by (rule retry_ok)
  have "cn_inv lib B a w4" using w4 k hw by (intro cn_inv_idle [where cn = cn']) simp_all
  moreover have "cn_inv lib B a (close_fd fd w2)"
    using cn_core_close [OF core2] k hw by (intro cn_inv_idle [where cn = cn]) simp_all
  ultimately show ?thesis using con w3 w4(1) by auto
qed

text \<open>Every step keeps the invariant, and fails only when the kernel has no socket left.\<close>

lemma cn_invE:
  assumes "cn_inv lib B a w"
  obtains (attempt) cn k ch where "cn_core lib B (hw_handed w @ [ch_fd ch]) a cn w" "cn_state cn = cConnecting"
      "cn_channel cn = Some k" "w_chans w k = Some ch" "ch_loop ch = cn_loop cn" "\<not> ch_handling ch" "ch_index ch = kAdded"
    | (over) cn where "cn_core lib B (hw_handed w) a cn w" "cn_state cn \<noteq> cConnecting" "chan_ok cn w"
proof -
  from assms obtain cn where cn: "cn_core lib B (hw_handed w @ held cn w) a cn w" "chan_ok cn w" by (auto simp: cn_inv_def)
  show thesis
  proof (cases "cn_state cn = cConnecting")
    case True
    with cn(2) obtain k ch where "cn_channel cn = Some k" "w_chans w k = Some ch" "ch_loop ch = cn_loop cn" "\<not> ch_handling ch"
      "ch_index ch = kAdded" by (auto simp: chan_ok_def split: option.splits)
    with True cn(1) show ?thesis by (intro attempt [of ch cn k]) (simp_all add: held_def)
  next
    case False
    with cn show ?thesis by (intro over [of cn]) (simp_all add: held_def)
  qed
qed

lemma chan_ok_stale:
  assumes "cn_channel cn = Some k" "w_chans w k = Some ch" "ch_loop ch = cn_loop cn" "\<not> ch_handling ch" "ch_index ch = kNew"
    "\<not> ch_added ch" "cn_state cn \<noteq> cConnecting"
  shows "chan_ok cn w"
  using assms by (simp add: chan_ok_def)

lemma stopInLoop_connector_ok:
  assumes os: "epoll_ctl_contract os" and inv: "cn_inv lib B a w" and cn: "nw_connectors w a = Some cn"
    and quiet: "\<not> el_eventHandling (w_loops w (cn_loop cn))"
  obtains w' where "stopInLoop_connector os lib a w = Inr w'" "cn_inv lib B a w'"
  using inv
proof (cases rule: cn_invE)
  case (attempt cn' k ch)
  then have [simp]: "cn' = cn" using cn by (simp add: cn_core_def)
  let ?cn = "cn\<lparr>cn_state := cDisconnected\<rparr>" and ?w = "put_connector a (cn\<lparr>cn_state := cDisconnected\<rparr>) w"
  have "cn_core lib B (hw_handed w @ [ch_fd ch]) a ?cn ?w" by (rule cn_core_put [OF attempt(1)]) simp_all
  moreover have "\<not> awaited (cn_loop ?cn) k ?w" using quiet by (simp add: awaited_def)
  ultimately obtain w1 ch' where w1: "removeAndResetChannel os a ?w = Inr (ch_fd ch, w1)"
    "cn_core lib B (hw_handed w @ [ch_fd ch]) a ?cn w1" "w_chans w1 k = Some ch'" "ch_loop ch' = cn_loop ?cn" "\<not> ch_handling ch'"
    "ch_index ch' = kNew" "\<not> ch_added ch'" "hw_handed w1 = hw_handed ?w"
    using attempt by (elim removeAndResetChannel_ok [OF os, where k = k and ch = ch, rotated -1]) simp_all
  from w1(2) obtain w2 where w2: "retry lib a (ch_fd ch) w1 = Inr w2" "cn_core lib B (hw_handed w) a (?cn\<lparr>cn_state := cDisconnected\<rparr>) w2"
    "w_chans w2 = w_chans w1" "hw_handed w2 = hw_handed w1" by (rule retry_ok) blast
  have "cn_inv lib B a w2"
    by (rule cn_inv_over [where cn = "?cn\<lparr>cn_state := cDisconnected\<rparr>"])
      (use w1 w2 attempt(3) in \<open>auto intro!: chan_ok_stale [where k = k and ch = ch']\<close>)
  then show thesis
    using that w1(1) w2(1) cn attempt(2) by (simp add: stopInLoop_connector_def)
next
  case (over cn')
  then have "cn' = cn" using cn by (simp add: cn_core_def)
  with that inv cn over show thesis by (simp add: stopInLoop_connector_def)
qed

lemma handle_event_ok:
  assumes os: "epoll_ctl_contract os" and inv: "cn_inv lib B a w" and cn: "nw_connectors w a = Some cn"
    and current: "el_current (w_loops w (cn_loop cn)) = cn_channel cn"
  shows "\<exists>w'. handleError_connector os lib a w = Inr w' \<and> cn_inv lib B a w'"
    and "cn_state cn \<noteq> cConnected \<Longrightarrow> \<exists>w'. handleWrite_connector os lib hand_over a w = Inr w' \<and> cn_inv lib B a w'"
proof -
  have "(\<exists>w'. handleError_connector os lib a w = Inr w' \<and> cn_inv lib B a w') \<and>
    (cn_state cn \<noteq> cConnected \<longrightarrow> (\<exists>w'. handleWrite_connector os lib hand_over a w = Inr w' \<and> cn_inv lib B a w'))"
    using inv
  proof (cases rule: cn_invE)
    case (attempt cn' k ch)
    then have [simp]: "cn' = cn" using cn by (simp add: cn_core_def)
    have "\<not> awaited (cn_loop cn) k w" using current attempt(3) by (simp add: awaited_def)
    then obtain w1 ch' where w1: "removeAndResetChannel os a w = Inr (ch_fd ch, w1)"
      "cn_core lib B (hw_handed w @ [ch_fd ch]) a cn w1" "w_chans w1 k = Some ch'" "ch_loop ch' = cn_loop cn" "\<not> ch_handling ch'"
      "ch_index ch' = kNew" "\<not> ch_added ch'" "hw_handed w1 = hw_handed w"
      using attempt by (elim removeAndResetChannel_ok [OF os, where k = k and ch = ch, rotated -1]) simp_all
    define e where "e = os_so_error os (w_trace w1) (ch_fd ch)"
    define w2 where "w2 = log_call (SysGetSoError (ch_fd ch) e) w1"
    have gse: "getSocketError os (ch_fd ch) w1 = (e, w2)" by (simp add: getSocketError_def Let_def e_def w2_def)
    have core2: "cn_core lib B (hw_handed w @ [ch_fd ch]) a cn w2"
      unfolding w2_def by (rule cn_core_log(1) [OF w1(2)]) simp_all
    have c2: "nw_connectors w2 a = Some cn" using core2 by (simp add: cn_core_def)
    from core2 obtain w3 where w3: "retry lib a (ch_fd ch) w2 = Inr w3" "cn_core lib B (hw_handed w) a (cn\<lparr>cn_state := cDisconnected\<rparr>) w3"
      "w_chans w3 = w_chans w2" "hw_handed w3 = hw_handed w2" by (rule retry_ok) blast
    have inv3: "cn_inv lib B a w3"
      by (rule cn_inv_over [where cn = "cn\<lparr>cn_state := cDisconnected\<rparr>"])
        (use w1 w3 attempt(3) in \<open>auto intro!: chan_ok_stale [where k = k and ch = ch'] simp: w2_def\<close>)
    let ?cn = "cn\<lparr>cn_state := cConnected\<rparr>" and ?w = "put_connector a (cn\<lparr>cn_state := cConnected\<rparr>) w2"
    have coreC: "cn_core lib B (hw_handed w @ [ch_fd ch]) a ?cn ?w" by (rule cn_core_put [OF core2]) simp_all
    have okC: "chan_ok ?cn w'" if "w_chans w' = w_chans w1" for w' :: hworld
      by (rule chan_ok_stale [where k = k and ch = ch']) (use that w1 attempt(3) in simp_all)
    have closed: "cn_inv lib B a (close_fd (ch_fd ch) ?w)"
      by (rule cn_inv_over [where cn = ?cn]) (use cn_core_close [OF coreC] w1(8) in \<open>auto intro!: okC simp: w2_def\<close>)
    let ?h = "?w\<lparr>hw_handed := hw_handed ?w @ [ch_fd ch]\<rparr>"
    have "reactor_inv ?h" if "reactor_inv ?w" using that by (rule reactor_inv_cong) simp_all
    then have "cn_core lib B (hw_handed ?h) a ?cn ?h" using coreC w1(8) by (auto simp: cn_core_def w2_def)
    then have handed: "cn_inv lib B a ?h" by (rule cn_inv_over) (auto intro!: okC simp: w2_def)
    have "cn_newConnectionCb cn \<noteq> None" using attempt(1) by (simp add: cn_core_def)
    then have "handleWrite_connector os lib hand_over a w = (if e \<noteq> 0 \<or> isSelfConnect (getLocalAddr os (ch_fd ch) w2) (getPeerAddr os (ch_fd ch) w2)
        then Inr w3 else Inr (if cn_connect cn then ?h else close_fd (ch_fd ch) ?w))"
      using cn attempt(2) w1(1) w3(1) c2
      by (auto simp: handleWrite_connector_def gse hand_over_def)
    moreover have "handleError_connector os lib a w = Inr w3"
      using cn attempt(2) w1(1) w3(1) by (simp add: handleError_connector_def gse)
    ultimately show ?thesis using inv3 closed handed by auto
  next
    case (over cn')
    then have "cn' = cn" using cn by (simp add: cn_core_def)
    with inv cn over show ?thesis
      by (cases "cn_state cn") (simp_all add: handleError_connector_def handleWrite_connector_def)
  qed
  then show "\<exists>w'. handleError_connector os lib a w = Inr w' \<and> cn_inv lib B a w'"
    "cn_state cn \<noteq> cConnected \<Longrightarrow> \<exists>w'. handleWrite_connector os lib hand_over a w = Inr w' \<and> cn_inv lib B a w'" by simp_all
qed

lemma resetChannel_ok:
  assumes inv: "cn_inv lib B a w" and cn: "nw_connectors w a = Some cn" and st: "cn_state cn \<noteq> cConnecting"
  obtains w' where "resetChannel a w = Inr w'" "cn_inv lib B a w'"
  using inv
proof (cases rule: cn_invE)
  case (attempt cn' k ch)
  with cn st show thesis by (simp add: cn_core_def)
next
  case (over cn')
  then have [simp]: "cn' = cn" using cn by (simp add: cn_core_def)
  have rinv: "reactor_inv w" using over(1) by (simp add: cn_core_def)
  show thesis
  proof (cases "cn_channel cn")
    case None
    with that inv cn show thesis by (simp add: resetChannel_def)
  next
    case (Some k)
    with over(2,3) obtain ch where ch: "w_chans w k = Some ch" "\<not> ch_handling ch" "ch_index ch = kNew" "\<not> ch_added ch"
      by (auto simp: chan_ok_def)
    let ?w = "w\<lparr>w_chans := (w_chans w)(k := None)\<rparr>" and ?cn = "cn\<lparr>cn_channel := None\<rparr>"
    have "reactor_inv ?w" by (rule reactor_inv_delete [OF rinv ch(1,3)])
    then have "reactor_inv (put_connector a ?cn ?w)" by (rule reactor_inv_cong) simp_all
    then have "cn_inv lib B a (put_connector a ?cn ?w)"
      using over(1,2) Some by (intro cn_inv_idle [where cn = ?cn]) (auto simp: cn_core_def split: if_splits)
    with that cn Some delete_Channel_ok [OF ch(1,2,4,3) rinv] show thesis by (simp add: resetChannel_def)
  qed
qed

lemma startInLoop_connector_ok:
  assumes os: "epoll_ctl_contract os" "socket_contract os" and alloc: "fresh_alloc alloc"
    and core: "cn_core lib B (hw_handed w) a cn w" and idle: "cn_state cn = cDisconnected" "cn_channel cn = None"
  shows "startInLoop_connector os lib alloc a w = Inl FatalLog \<and> os_socket os (w_trace w) < 0 \<or>
    (\<exists>w'. startInLoop_connector os lib alloc a w = Inr w' \<and> cn_inv lib B a w')"
proof -
  have "nw_connectors w a = Some cn" using core by (simp add: cn_core_def)
  moreover have "cn_inv lib B a w" by (rule cn_inv_idle [OF core]) (simp_all add: idle)
  ultimately show ?thesis
    using connect_ok [OF os alloc core] idle by (simp add: startInLoop_connector_def)
qed

lemma cn_step_ok:
  assumes os: "epoll_ctl_contract os" "socket_contract os" and alloc: "fresh_alloc alloc"
    and inv: "cn_inv lib B a w" and cn: "nw_connectors w a = Some cn" and ok: "cn_allowed a x cn w"
  shows "cn_step os lib alloc a x w = Inl FatalLog \<and> os_socket os (w_trace w) < 0 \<or>
    (\<exists>w'. cn_step os lib alloc a x w = Inr w' \<and> cn_inv lib B a w')"
proof -
  from inv obtain cn' where "cn_core lib B (hw_handed w @ held cn' w) a cn' w" "chan_ok cn' w" by (auto simp: cn_inv_def)
  moreover from this cn have "cn' = cn" by (simp add: cn_core_def)
  ultimately have core: "cn_core lib B (hw_handed w @ held cn w) a cn w" "chan_ok cn w" by simp_all
  have upd: "cn_inv lib B a (put_connector a (cn\<lparr>cn_connect := b\<rparr>) w)" for b
  proof -
    from core(1) have "cn_core lib B (hw_handed w @ held cn w) a (cn\<lparr>cn_connect := b\<rparr>) (put_connector a (cn\<lparr>cn_connect := b\<rparr>) w)"
      by (intro cn_core_put [of _ _ _ _ cn]) simp_all
    with core(2) show ?thesis
      unfolding cn_inv_def by (intro exI [of _ "cn\<lparr>cn_connect := b\<rparr>"]) simp
  qed
  have queue: "cn_inv lib B a (queueInLoop os l fn v)" if "cn_inv lib B a v" for l fn v
    by (rule cn_inv_unrelated [OF that]) (simp add: unrelated_def)
  have idle: "cn_core lib B (hw_handed w) a cn w" if "cn_state cn \<noteq> cConnecting"
    using core(1) that by (simp add: held_def)
  have start: "startInLoop_connector os lib alloc a v = Inl FatalLog \<and> os_socket os (w_trace w) < 0 \<or>
      (\<exists>w'. startInLoop_connector os lib alloc a v = Inr w' \<and> cn_inv lib B a w')"
    if "cn_state cn \<noteq> cConnecting" "cn_channel cn = None" "v = put_connector a cn' w" "cn_state cn' = cDisconnected"
      "cn_channel cn' = cn_channel cn" "cn_serverAddr cn' = cn_serverAddr cn" "cn_newConnectionCb cn' = cn_newConnectionCb cn" for v cn'
  proof -
    have "cn_core lib B (hw_handed v) a cn' v"
      using cn_core_put [OF idle [OF that(1)] that(6,7,5)] that(3) by simp
    from startInLoop_connector_ok [OF os alloc this that(4)] that(2,3,5) show ?thesis by simp
  qed
  show ?thesis
  proof (cases x)
    case Start
    let ?cn = "cn\<lparr>cn_connect := True\<rparr>"
    show ?thesis
    proof (cases "isInLoopThread (cn_loop cn) w")
      case True
      with Start ok start [of "put_connector a ?cn w" ?cn] cn show ?thesis
        by (simp add: start_connector_def runInLoop_def isInLoopThread_def)
    next
      case False
      with Start cn queue [OF upd] show ?thesis by (simp add: start_connector_def runInLoop_def isInLoopThread_def)
    qed
  next
    case StartInLoop
    with ok startInLoop_connector_ok [OF os alloc idle] show ?thesis by simp
  next
    case Restart
    with ok cn start [OF _ _ refl, of "cn\<lparr>cn_state := cDisconnected, cn_retryDelayMs := kInitRetryDelayMs, cn_connect := True\<rparr>"]
    show ?thesis by (simp add: restart_def)
  next
    case Stop
    with cn queue [OF upd] show ?thesis by (simp add: stop_connector_def)
  next
    case StopInLoop
    with ok stopInLoop_connector_ok [OF os(1) inv cn] show ?thesis by auto
  next
    case HandleWrite
    with ok handle_event_ok(2) [OF os(1) inv cn] show ?thesis by simp
  next
    case HandleError
    with ok handle_event_ok(1) [OF os(1) inv cn] show ?thesis by simp
  next
    case Reset
    with ok resetChannel_ok [OF inv cn] show ?thesis by auto
  qed
qed

section \<open>Every socket has one fate\<close>

lemma cn_reach_inv:
  assumes "cn_reach os lib alloc a w0 w" "epoll_ctl_contract os" "socket_contract os" "fresh_alloc alloc"
    "cn_inv lib B a w0"
  shows "cn_inv lib B a w"
  using assms
proof induction
  case (op_step w cn x w')
  from cn_step_ok [OF op_step.prems(1-3) op_step.IH [OF op_step.prems] op_step.hyps(2,3)] op_step.hyps(4) show ?case by auto
qed (auto intro: cn_inv_unrelated)

text \<open>
  C34: the sockets of a connector. Its members are called, its functors run and its events arrive in any
  order that \<open>cn_allowed\<close> admits: an attempt is started (\<open>start\<close> in the loop thread, \<open>startInLoop\<close>, \<open>restart\<close>)
  only when the previous one is over and its channel has been deleted, \<open>stopInLoop\<close> does not run in the middle
  of event handling, events are those of the channel the loop is handling, none for writing after
  success, and the channel is deleted after the attempt only; other starts do fail assertions
  (\<open>connector_misuse\<close> below). Along every such sequence each admitted step succeeds, unless the
  kernel has no socket left. At every moment the sockets it has created are closed, or handed to the
  client, or, one at most, watched by the loop for the attempt under way: none is leaked or handed
  over twice, and every \<open>close\<close> is of a descriptor that was open, so none is closed twice.
\<close>

theorem connector_sockets:
  assumes "epoll_ctl_contract os" "socket_contract os" "fresh_alloc alloc" "inet_ok lib serverAddr"
    and "reactor_inv w0" "finite (dom (w_chans w0))" "nw_connectors w0 a = Some (setNewConnectionCallback_connector cl (mk_Connector l serverAddr))"
    and "hw_handed w0 = []" "\<And>k ch. w_chans w0 k = Some ch \<Longrightarrow> ch_fd ch \<in> open_fds (w_trace w0)"
    and "closes_open (w_trace w0)" "cn_reach os lib alloc a w0 w"
  shows "closes_open (w_trace w) \<and> (\<exists>cn. nw_connectors w a = Some cn \<and>
    open_fds (w_trace w) = open_fds (w_trace w0) \<union> set (hw_handed w @ held cn w) \<and>
    distinct (hw_handed w @ held cn w) \<and> set (hw_handed w @ held cn w) \<inter> open_fds (w_trace w0) = {} \<and>
    (cn_state cn = cConnecting \<longrightarrow> (\<exists>fd k. held cn w = [fd] \<and> interest (cn_loop cn) (w_trace w) fd = Some (WriteEvent, k))) \<and>
    (\<forall>x. cn_allowed a x cn w \<longrightarrow> cn_step os lib alloc a x w = Inl FatalLog \<and> os_socket os (w_trace w) < 0 \<or>
       (\<exists>w'. cn_step os lib alloc a x w = Inr w')))"
proof -
  let ?B = "open_fds (w_trace w0)" and ?cn = "setNewConnectionCallback_connector cl (mk_Connector l serverAddr)"
  have "cn_core lib ?B [] a ?cn w0" "cn_state ?cn \<noteq> cConnecting" "cn_channel ?cn = None"
    using assms(4-10) by (simp_all add: cn_core_def setNewConnectionCallback_connector_def mk_Connector_def)
  with assms(8) have "cn_inv lib ?B a w0" by (intro cn_inv_idle [where cn = ?cn]) simp_all
  with assms(11,1-3) have inv: "cn_inv lib ?B a w" by (rule cn_reach_inv)
  then obtain cn where core: "cn_core lib ?B (hw_handed w @ held cn w) a cn w" and ok: "chan_ok cn w" by (auto simp: cn_inv_def)
  have cn: "nw_connectors w a = Some cn" "reactor_inv w" using core by (simp_all add: cn_core_def)
  have "\<exists>fd k. held cn w = [fd] \<and> interest (cn_loop cn) (w_trace w) fd = Some (WriteEvent, k)" if "cn_state cn = cConnecting"
  proof -
    from ok that obtain k ch where ch: "cn_channel cn = Some k" "w_chans w k = Some ch" "ch_loop ch = cn_loop cn" "ch_index ch = kAdded"
      "ch_events ch = WriteEvent" by (auto simp: chan_ok_def split: option.splits)
    have "registry_inv (cn_loop cn) w" "registrable (cn_loop cn) k ch w"
      using cn(2) reactor_registrable [OF cn(2) ch(2)] ch(3) by (simp_all add: reactor_inv_def)
    then have "interest (cn_loop cn) (w_trace w) (ch_fd ch) = Some (WriteEvent, k)"
      by (cases rule: registry_inv_index) (use ch in \<open>simp_all add: index_defs\<close>)
    with ch that show ?thesis by (simp add: held_def)
  qed
  moreover have "cn_step os lib alloc a x w = Inl FatalLog \<and> os_socket os (w_trace w) < 0 \<or> (\<exists>w'. cn_step os lib alloc a x w = Inr w')"
    if "cn_allowed a x cn w" for x
    using cn_step_ok [OF assms(1-3) inv cn(1) that] by auto
  ultimately show ?thesis
    using core cn(1) by (intro conjI exI [of _ cn]) (auto simp: cn_core_def)
qed

text \<open>
  A connector that is started again too early fails an assertion: while an attempt is under way or
  after it has succeeded (\<open>start\<close> does not look at the state, and nothing moves it back when the
  connection goes down), and after a failed or stopped attempt as long as its channel has not been
  deleted, as in a call of \<open>stop\<close> followed by one of \<open>start\<close>, whose functors run before \<open>resetChannel\<close>.
  After an attempt that failed the connector is idle with \<open>connect_\<close> still set, and no functor that would
  try again has been queued.
\<close>

theorem connector_misuse:
  assumes "nw_connectors w a = Some cn" "isInLoopThread (cn_loop cn) w"
  shows "(cn_state cn \<noteq> cDisconnected \<longrightarrow> start_connector os lib alloc a w = Inl AssertFailure) \<and>
    (cn_state cn = cDisconnected \<longrightarrow> cn_channel cn \<noteq> None \<longrightarrow> 0 \<le> os_socket os (w_trace w) \<longrightarrow>
       (\<forall>tr fd. os_connect os tr fd = 115) \<longrightarrow> start_connector os lib alloc a w = Inl AssertFailure) \<and>
    (inet_ok lib (cn_serverAddr cn) \<longrightarrow> (\<exists>w'. retry lib a fd w = Inr w' \<and> w_loops w' = w_loops w \<and>
       nw_connectors w' a = Some (cn\<lparr>cn_state := cDisconnected\<rparr>)))"
proof (intro conjI impI)
  assume "inet_ok lib (cn_serverAddr cn)"
  with assms show "\<exists>w'. retry lib a fd w = Inr w' \<and> w_loops w' = w_loops w \<and>
      nw_connectors w' a = Some (cn\<lparr>cn_state := cDisconnected\<rparr>)"
    by (simp add: retry_def toIpPort_ok)
qed (use assms in \<open>auto simp: start_connector_def runInLoop_def isInLoopThread_def startInLoop_connector_def connect_def
      createNonblockingOrDie_def connect_socket_def connecting_errors_def connecting_def Let_def\<close>)

section \<open>A connector to evaluate on\<close>

definition model_connector :: connector where
  "model_connector = setNewConnectionCallback_connector 50 (mk_Connector 0 (mk_InetAddress_port zero6 2000 True False))"

definition model_hworld :: hworld where
  "model_hworld = \<lparr>w_tid = 1, w_chans = Map.empty, w_loops = (\<lambda>_. model_loop\<lparr>el_poller := mk_Poller\<rparr>), w_trace = [],
     cw_conns = Map.empty, nw_connectors = [40 \<mapsto> model_connector], hw_handed = []\<rparr>"

definition model_connect_os :: net_os where
  "model_connect_os = os.extend model_os (net_os.fields (\<lambda>tr. if 9 \<in> open_fds tr then - 1 else 9) (\<lambda>tr fd. 0) (\<lambda>tr fd. 0)
     (\<lambda>tr fd. Inl 11) (\<lambda>tr fd. 115) (\<lambda>tr. 31) (\<lambda>tr fd. Some zero6) (\<lambda>tr fd. None))"

definition model_alloc :: "'a world_scheme \<Rightarrow> ptr" where
  "model_alloc w = Suc (Max (insert 0 (dom (w_chans w))))"

lemma above_Max: "finite (dom m) \<Longrightarrow> m (Suc (Max (insert 0 (dom m)))) = None" for m :: "nat \<rightharpoonup> 'v"
proof (rule ccontr)
  assume "finite (dom m)" "m (Suc (Max (insert 0 (dom m)))) \<noteq> None"
  then have "Suc (Max (insert 0 (dom m))) \<le> Max (insert 0 (dom m))" by (intro Max_ge) (simp_all add: domIff)
  then show False by simp
qed

lemma model_connect_ok:
  "epoll_ctl_contract model_connect_os" "socket_contract model_connect_os" "fresh_alloc model_alloc"
proof -
  show "epoll_ctl_contract model_connect_os"
    by (simp add: epoll_ctl_contract_def model_connect_os_def model_os_def os.defs net_os.defs)
  show "socket_contract model_connect_os"
    by (simp add: socket_contract_def model_connect_os_def model_os_def os.defs net_os.defs)
  show "fresh_alloc model_alloc" by (simp add: fresh_alloc_def model_alloc_def above_Max)
qed

lemma model_hworld_inv: "reactor_inv model_hworld"
proof -
  have "registry_inv l model_hworld" for l
    by (rule registry_inv_intro) (simp_all add: model_hworld_def mk_Poller_def)
  then show ?thesis by (simp add: reactor_inv_def fds_unique_def model_hworld_def)
qed

theorem connector_sockets_witness:
  "\<exists>w'. cn_step model_connect_os model_lib model_alloc 40 Start model_hworld = Inr w'"
proof -
  have facts: "nw_connectors model_hworld 40 = Some (setNewConnectionCallback_connector 50 (mk_Connector 0 (mk_InetAddress_port zero6 2000 True False)))"
    "hw_handed model_hworld = []" "finite (dom (w_chans model_hworld))" "0 \<le> os_socket model_connect_os (w_trace model_hworld)"
    by (simp_all add: model_hworld_def model_connector_def model_connect_os_def model_os_def os.defs net_os.defs open_fds_def)
  have start: "cn_allowed 40 Start model_connector model_hworld"
    by (simp add: model_connector_def setNewConnectionCallback_connector_def mk_Connector_def)
  have empty: "w_chans model_hworld = Map.empty" by (simp add: model_hworld_def)
  obtain cn where cn: "nw_connectors model_hworld 40 = Some cn"
    and step: "\<And>x. cn_allowed 40 x cn model_hworld \<Longrightarrow> cn_step model_connect_os model_lib model_alloc 40 x model_hworld = Inl FatalLog \<and>
       os_socket model_connect_os (w_trace model_hworld) < 0 \<or> (\<exists>w'. cn_step model_connect_os model_lib model_alloc 40 x model_hworld = Inr w')"
    using connector_sockets [OF model_connect_ok model_lib_ok model_hworld_inv facts(3,1,2) _ _ cn_reach.here] empty
    by (fastforce simp: model_hworld_def)
  have "cn = model_connector" using cn facts(1) by (simp add: model_connector_def)
  with start have "cn_allowed 40 Start cn model_hworld" by simp
  from step [OF this] facts(4) show ?thesis by (elim disjE conjE) simp_all
qed

theorem connector_misuse_witness:
  "start_connector model_connect_os model_lib model_alloc 40
     (put_connector 40 (model_connector\<lparr>cn_state := cConnected\<rparr>) model_hworld) = Inl AssertFailure"
  using connector_misuse [of "put_connector 40 (model_connector\<lparr>cn_state := cConnected\<rparr>) model_hworld" 40
      "model_connector\<lparr>cn_state := cConnected\<rparr>" model_connect_os model_lib model_alloc]
  by (simp add: model_hworld_def model_connector_def setNewConnectionCallback_connector_def mk_Connector_def isInLoopThread_def
      model_loop_def)

end
