(* ===== verification/TcpClient.thy ===== *)
theory TcpClient
  imports Connecting
begin

text \<open>
  \<open>network/TcpClient.h\<close> and \<open>network/src/TcpClient.cc\<close>. Callbacks of a connection are numbers: 0 is
  \<open>defaultConnectionCallback\<close>, 4 is \<open>defaultMessageCallback\<close>, \<open>4 * cl + 1\<close> is
  \<open>TcpClient::removeConnection\<close> bound to client \<open>cl\<close>, \<open>4 * l + 3\<close> is \<open>detail::removeConnection\<close> bound to loop
  \<open>l\<close>, and the others are the user's. Whether the client holds the only reference to its connection
  (\<open>connection_.unique()\<close>) is an argument of the destructor.
\<close>

section \<open>State\<close>

record tcp_client =
  cl_loop :: ptr
  cl_connector :: ptr
  cl_name :: string
  cl_connectionCb :: "nat option"
  cl_messageCb :: "nat option"
  cl_writeCompleteCb :: "nat option"
  cl_retry :: bool
  cl_connect :: bool
  cl_nextConnId :: "32 word"
  cl_connection :: "ptr option"

record tworld = nworld +
  tw_clients :: "ptr \<rightharpoonup> tcp_client"

definition get_client :: "ptr \<Rightarrow> 'a tworld_scheme \<Rightarrow> tcp_client res" where
  "get_client t w = derefR (tw_clients w t)"

definition put_client :: "ptr \<Rightarrow> tcp_client \<Rightarrow> 'a tworld_scheme \<Rightarrow> 'a tworld_scheme" where
  "put_client t cl w = w\<lparr>tw_clients := (tw_clients w)(t \<mapsto> cl)\<rparr>"

definition cb_client_remove :: "ptr \<Rightarrow> nat" where
  "cb_client_remove t = 4 * t + 1"

definition cb_detail_remove :: "ptr \<Rightarrow> nat" where
  "cb_detail_remove l = 4 * l + 3"

section \<open>TcpClient.cc\<close>

definition detail_removeConnection :: "'o os_scheme \<Rightarrow> ptr \<Rightarrow> ptr \<Rightarrow> 'a cworld_scheme \<Rightarrow> 'a cworld_scheme res" where
  "detail_removeConnection os l p w = Inr (queueInLoop os l (F_connectDestroyed p) w)"

definition mk_TcpClient :: "ptr \<Rightarrow> ptr \<Rightarrow> ptr \<Rightarrow> inet_address \<Rightarrow> string \<Rightarrow> 'a tworld_scheme \<Rightarrow> 'a tworld_scheme" where
  "mk_TcpClient t a l serverAddr nameArg w =
     put_client t \<lparr>cl_loop = l, cl_connector = a, cl_name = nameArg, cl_connectionCb = Some 0, cl_messageCb = Some 4,
        cl_writeCompleteCb = None, cl_retry = False, cl_connect = True, cl_nextConnId = 1, cl_connection = None\<rparr>
       (put_connector a (setNewConnectionCallback_connector t (mk_Connector l serverAddr)) w)"

definition enableRetry :: "tcp_client \<Rightarrow> tcp_client" where
  "enableRetry cl = cl\<lparr>cl_retry := True\<rparr>"

definition setConnectionCallback_client :: "nat option \<Rightarrow> tcp_client \<Rightarrow> tcp_client" where
  "setConnectionCallback_client cb cl = cl\<lparr>cl_connectionCb := cb\<rparr>"

definition setMessageCallback_client :: "nat option \<Rightarrow> tcp_client \<Rightarrow> tcp_client" where
  "setMessageCallback_client cb cl = cl\<lparr>cl_messageCb := cb\<rparr>"

definition setWriteCompleteCallback_client :: "nat option \<Rightarrow> tcp_client \<Rightarrow> tcp_client" where
  "setWriteCompleteCallback_client cb cl = cl\<lparr>cl_writeCompleteCb := cb\<rparr>"

text \<open>The destructor; then the connector goes, which the client alone owns.\<close>

definition delete_TcpClient :: "'o os_scheme \<Rightarrow> bool \<Rightarrow> ptr \<Rightarrow> 'a tworld_scheme \<Rightarrow> 'a tworld_scheme res" where
  "delete_TcpClient os unique t w =
     bindR (get_client t w) (\<lambda>cl.
     bindR (case cl_connection cl of
         Some p \<Rightarrow> bindR (get_conn p w) (\<lambda>c.
           assertR (cl_loop cl = tc_loop c)
             (bindR (runInLoop os (\<lambda>_. upd_conn p (setCloseCallback_conn (Some (cb_detail_remove (cl_loop cl)))))
                       (cl_loop cl) (F_setCloseCallback p) w)
               (\<lambda>w1. if unique then forceClose os p w1 else Inr w1)))
       | None \<Rightarrow> stop_connector os (cl_connector cl) w)
       (\<lambda>w2. delete_Connector (cl_connector cl) (w2\<lparr>tw_clients := (tw_clients w2)(t := None)\<rparr>)))"

definition connect_client ::
  "'o net_os_scheme \<Rightarrow> inet_lib \<Rightarrow> ('a tworld_scheme \<Rightarrow> ptr) \<Rightarrow> ptr \<Rightarrow> 'a tworld_scheme \<Rightarrow> 'a tworld_scheme res" where
  "connect_client os lib alloc t w =
     bindR (get_client t w) (\<lambda>cl. bindR (get_connector (cl_connector cl) w) (\<lambda>cn.
     bindR (toIpPort lib (cn_serverAddr cn)) (\<lambda>_.
       start_connector os lib alloc (cl_connector cl) (put_client t (cl\<lparr>cl_connect := True\<rparr>) w))))"

definition disconnect :: "'o os_scheme \<Rightarrow> ptr \<Rightarrow> 'a tworld_scheme \<Rightarrow> 'a tworld_scheme res" where
  "disconnect os t w =
     bindR (get_client t w) (\<lambda>cl.
       let w1 = put_client t (cl\<lparr>cl_connect := False\<rparr>) w in
       case cl_connection cl of Some p \<Rightarrow> shutdown os p w1 | None \<Rightarrow> Inr w1)"

definition stop_client :: "'o os_scheme \<Rightarrow> ptr \<Rightarrow> 'a tworld_scheme \<Rightarrow> 'a tworld_scheme res" where
  "stop_client os t w =
     bindR (get_client t w) (\<lambda>cl. stop_connector os (cl_connector cl) (put_client t (cl\<lparr>cl_connect := False\<rparr>) w))"

text \<open>\<open>p\<close> and \<open>k\<close> are the addresses of the new connection and its channel; \<open>env\<close> runs its callbacks.\<close>

definition client_conn_name :: "tcp_client \<Rightarrow> string \<Rightarrow> string" where
  "client_conn_name cl peer = cl_name cl @ snprintf 32 ('':'' @ peer @ ''#'' @ signed_decimal (cl_nextConnId cl))"

definition newConnection_client ::
  "'o net_os_scheme \<Rightarrow> inet_lib \<Rightarrow> ('a tworld_scheme \<Rightarrow> ptr \<times> ptr) \<Rightarrow> 'a tworld_ext nworld_ext env \<Rightarrow>
   ptr \<Rightarrow> fd \<Rightarrow> 'a tworld_scheme \<Rightarrow> 'a tworld_scheme res" where
  "newConnection_client os lib alloc env t sockfd w =
     bindR (get_client t w) (\<lambda>cl. bindR (assertInLoopThread (cl_loop cl) w) (\<lambda>w.
     bindR (toIpPort lib (getPeerAddr os sockfd w)) (\<lambda>peer.
       let (p, k) = alloc w in
       bindR (mk_TcpConnection p k (cl_loop cl) (client_conn_name cl peer) sockfd w) (\<lambda>w1.
       bindR (upd_conn p (setCloseCallback_conn (Some (cb_client_remove t)) \<circ>
                setWriteCompleteCallback_conn (cl_writeCompleteCb cl) \<circ>
                setMessageCallback_conn (cl_messageCb cl) \<circ> setConnectionCallback_conn (cl_connectionCb cl)) w1) (\<lambda>w2.
         connectEstablished env os p
           (put_client t (cl\<lparr>cl_nextConnId := cl_nextConnId cl + 1, cl_connection := Some p\<rparr>) w2))))))"

definition removeConnection_client ::
  "'o net_os_scheme \<Rightarrow> inet_lib \<Rightarrow> ('a tworld_scheme \<Rightarrow> ptr) \<Rightarrow> ptr \<Rightarrow> ptr \<Rightarrow> 'a tworld_scheme \<Rightarrow> 'a tworld_scheme res" where
  "removeConnection_client os lib alloc t p w =
     bindR (get_client t w) (\<lambda>cl. bindR (assertInLoopThread (cl_loop cl) w) (\<lambda>w.
     bindR (get_conn p w) (\<lambda>c.
       assertR (cl_loop cl = tc_loop c)
         (assertR (cl_connection cl = Some p)
            (let w1 = queueInLoop os (cl_loop cl) (F_connectDestroyed p) (put_client t (cl\<lparr>cl_connection := None\<rparr>) w) in
             if cl_retry cl \<and> cl_connect cl then
               bindR (get_connector (cl_connector cl) w1) (\<lambda>cn.
               bindR (toIpPort lib (cn_serverAddr cn)) (\<lambda>_. restart os lib alloc (cl_connector cl) w1))
             else Inr w1)))))"

section \<open>Dispatch\<close>

definition client_env ::
  "'o net_os_scheme \<Rightarrow> inet_lib \<Rightarrow> ('a tworld_scheme \<Rightarrow> ptr) \<Rightarrow> 'a tworld_ext nworld_ext env \<Rightarrow> 'a tworld_ext nworld_ext env" where
  "client_env os lib alloc user n p w =
     (if n mod 4 = 1 then removeConnection_client os lib alloc (n div 4) p w
      else if n mod 4 = 3 then detail_removeConnection os (n div 4) p w
      else if n = 0 then Inr w
      else if n = 4 then defaultMessageCallback p w
      else user n p w)"

fun client_run ::
  "'o net_os_scheme \<Rightarrow> inet_lib \<Rightarrow> ('a tworld_scheme \<Rightarrow> ptr) \<Rightarrow> ('a tworld_scheme \<Rightarrow> ptr \<times> ptr) \<Rightarrow>
   'a tworld_ext nworld_ext env \<Rightarrow> callback \<Rightarrow> 'a tworld_scheme \<Rightarrow> 'a tworld_scheme res" where
  "client_run os lib alloc alloc2 user (ConnectorHandleWrite a) w =
     handleWrite_connector os lib (newConnection_client os lib alloc2 (client_env os lib alloc user)) a w"
| "client_run os lib alloc alloc2 user (ConnectorHandleError a) w = handleError_connector os lib a w"
| "client_run os lib alloc alloc2 user b w = conn_run (client_env os lib alloc user) os (\<lambda>_. Inr) b w"

fun client_runF ::
  "'o net_os_scheme \<Rightarrow> inet_lib \<Rightarrow> ('a tworld_scheme \<Rightarrow> ptr) \<Rightarrow> 'a tworld_ext nworld_ext env \<Rightarrow> Functor \<Rightarrow>
   'a tworld_scheme \<Rightarrow> 'a tworld_scheme res" where
  "client_runF os lib alloc user (F_startInLoop a) w = startInLoop_connector os lib alloc a w"
| "client_runF os lib alloc user (F_stopInLoop a) w = stopInLoop_connector os lib a w"
| "client_runF os lib alloc user (F_resetChannel a) w = resetChannel a w"
| "client_runF os lib alloc user (F_setCloseCallback p) w =
     bindR (get_conn p w) (\<lambda>c. upd_conn p (setCloseCallback_conn (Some (cb_detail_remove (tc_loop c)))) w)"
| "client_runF os lib alloc user f w = conn_runF (client_env os lib alloc user) os (\<lambda>_. Inr) f w"

section \<open>Frames\<close>

lemma put_client_simps [simp]:
  "w_tid (put_client t cl w) = w_tid w" "w_chans (put_client t cl w) = w_chans w"
  "w_loops (put_client t cl w) = w_loops w" "w_trace (put_client t cl w) = w_trace w"
  "cw_conns (put_client t cl w) = cw_conns w" "nw_connectors (put_client t cl w) = nw_connectors w"
  "tw_clients (put_client t cl w) = (tw_clients w)(t \<mapsto> cl)"
  by (simp_all add: put_client_def)

lemma tw_clients_frame [simp]:
  "tw_clients (log_call s w) = tw_clients w" "tw_clients (put_chan k ch w) = tw_clients w"
  "tw_clients (updated_world l k ch w) = tw_clients w" "tw_clients (queueInLoop os l fn w) = tw_clients w"
  "tw_clients (put_conn p c w) = tw_clients w" "tw_clients (put_connector a cn w) = tw_clients w"
  by (simp_all add: log_call_def put_chan_def upd_loop_def updated_world_def wakeup_def put_conn_def put_connector_def
      Let_def queueInLoop_def)

lemma nw_connectors_put_conn [simp]: "nw_connectors (put_conn p c w) = nw_connectors w"
  by (simp add: put_conn_def)

lemma tw_more: "world.more w' = world.more w \<Longrightarrow> tw_clients w' = tw_clients w"
  by (cases w, cases w') (simp add: cworld.defs nworld.defs tworld.defs)

lemma get_client_Some [simp]: "tw_clients w t = Some cl \<Longrightarrow> get_client t w = Inr cl"
  by (simp add: get_client_def)

section \<open>Connecting\<close>

text \<open>A channel that is out of use may share its descriptor with the new connection until it is deleted.\<close>

lemma put_chan_swap:
  assumes "k \<noteq> k'"
  shows "put_chan k' ch (put_chan k s w) = put_chan k s (put_chan k' ch w)"
    and "updated_world l k' c (put_chan k s w) = put_chan k s (updated_world l k' c w)"
  using assms by (simp_all add: put_chan_def updated_world_def fun_upd_twist)

lemma put_chan_commutes:
  "put_conn p c (put_chan k s w) = put_chan k s (put_conn p c w)"
  "put_client t cl (put_chan k s v) = put_chan k s (put_client t cl v)"
  by (simp_all add: put_chan_def put_conn_def put_client_def)

lemma put_chan_restore: "w_chans w k = Some s \<Longrightarrow> put_chan k s (w\<lparr>w_chans := (w_chans w)(k := None)\<rparr>) = w"
  by (simp add: put_chan_def fun_upd_idem)

text \<open>What the kernel reports of a socket that is connected to another host.\<close>

definition connected_socket :: "'o net_os_scheme \<Rightarrow> inet_lib \<Rightarrow> fd \<Rightarrow> bool" where
  "connected_socket os lib fd \<longleftrightarrow> (\<forall>tr. os_so_error os tr fd = 0 \<and> (\<exists>la pa. os_getsockname os tr fd = Some la \<and>
     os_getpeername os tr fd = Some pa \<and> \<not> isSelfConnect la pa \<and> inet_ok lib pa))"

definition fresh_pair :: "('a cworld_scheme \<Rightarrow> ptr \<times> ptr) \<Rightarrow> bool" where
  "fresh_pair alloc \<longleftrightarrow> (\<forall>w. finite (dom (w_chans w)) \<longrightarrow> finite (dom (cw_conns w)) \<longrightarrow>
     cw_conns w (fst (alloc w)) = None \<and> w_chans w (snd (alloc w)) = None)"

lemma connectEstablished_beside:
  assumes os: "epoll_ctl_contract os" and inv: "conns_inv u" and p: "cw_conns u p = Some c" and st: "tc_state c = kConnecting"
    and stale: "w_chans u k = None" "ch_index s = kNew"
  obtains w' where "connectEstablished env os p (put_chan k s u) = call_cb env (tc_connectionCb c) p (put_chan k s w')"
    "conns_inv w'" "cw_conns w' = (cw_conns u)(p \<mapsto> c\<lparr>tc_state := kConnected\<rparr>)" "w_chans w' k = None"
    "interest (tc_loop c) (w_trace w') (tc_sockfd c) = Some (ReadEvent, tc_channel c)"
    "cworld.more w' = cworld.more u" "\<forall>l. el_pending (w_loops w' l) = el_pending (w_loops u l)"
proof -
  let ?l = "tc_loop c" and ?k = "tc_channel c"
  from inv p obtain ch where ch: "w_chans u ?k = Some ch" "linked p c ch" by (rule conns_invE)
  have kk: "k \<noteq> ?k" using ch(1) stale(1) by auto
  let ?ch = "ch\<lparr>ch_events := ch_events ch OR ReadEvent, ch_added := True\<rparr>"
  define w' where "w' = updated_world ?l ?k ?ch (put_conn p (c\<lparr>tc_state := kConnected\<rparr>) u)"
  have reg: "registry_inv ?l u" "registrable ?l ?k ch u"
    using inv reactor_registrable [of u ?k ch] ch by (simp_all add: conns_inv_def reactor_inv_def linked_def)
  have beside: "registry_inv ?l (put_chan k s u)" "registrable ?l ?k ch (put_chan k s u)"
    using registry_inv_new_channel [OF reg(1) stale] reg(2) kk by (simp_all add: registrable_def)
  have calls: "connectEstablished env os p (put_chan k s u) = call_cb env (tc_connectionCb c) p (put_chan k s w')"
    using connectEstablished_calls [OF os, where w = "put_chan k s u", OF _ st beside] p kk
    by (simp add: w'_def put_chan_swap put_chan_commutes)
  from os inv p st obtain w1 where w1: "conns_inv w1" "interest ?l (w_trace w1) (tc_sockfd c) = Some (ReadEvent, ?k)"
    "cworld.more w1 = cworld.more u" "w1 = w'"
    unfolding w'_def by (rule connectEstablished_up) (use ch(1) in blast)
  show thesis
  proof (rule that [OF calls])
    show "\<forall>l. el_pending (w_loops w' l) = el_pending (w_loops u l)"
      by (simp add: w'_def updated_world_def)
  qed (use w1 stale(1) kk in \<open>simp_all add: w'_def\<close>)
qed

lemma newConnection_client_ok:
  fixes v :: "'a tworld_scheme"
  assumes os: "epoll_ctl_contract os" and alloc: "alloc v = (p, k')" "cw_conns v p = None" "w_chans v k' = None"
    and stale: "w_chans v k = Some s" "ch_index s = kNew" and inv: "conns_inv (v\<lparr>w_chans := (w_chans v)(k := None)\<rparr>)"
    and fd: "fd_free (cl_loop cl) sockfd (v\<lparr>w_chans := (w_chans v)(k := None)\<rparr>)"
    and cl: "tw_clients v t = Some cl" and conn: "connected_socket os lib sockfd"
  obtains w' c where "newConnection_client os lib alloc env t sockfd v = call_cb env (cl_connectionCb cl) p w'"
    "tw_clients w' = (tw_clients v)(t \<mapsto> cl\<lparr>cl_nextConnId := cl_nextConnId cl + 1, cl_connection := Some p\<rparr>)"
    "cw_conns w' = (cw_conns v)(p \<mapsto> c)" "tc_state c = kConnected" "tc_loop c = cl_loop cl" "tc_sockfd c = sockfd"
    "tc_closeCb c = Some (cb_client_remove t)" "nw_connectors w' = nw_connectors v"
    "interest (cl_loop cl) (w_trace w') sockfd = Some (ReadEvent, k')"
    "conns_inv (w'\<lparr>w_chans := (w_chans w')(k := None)\<rparr>)"
    "\<forall>l. el_pending (w_loops w' l) = el_pending (w_loops v l)"
proof -
  let ?l = "cl_loop cl"
  define v0 where "v0 = v\<lparr>w_chans := (w_chans v)(k := None)\<rparr>"
  have v: "v = put_chan k s v0" using put_chan_restore [OF stale(1)] by (simp add: v0_def)
  have kk: "k \<noteq> k'" using alloc(3) stale(1) by auto
  from conn obtain pa where pa: "os_getpeername os (w_trace v) sockfd = Some pa" "inet_ok lib pa"
    unfolding connected_socket_def by blast
  then obtain peer where peer: "toIpPort lib (getPeerAddr os sockfd v) = Inr peer" by (simp add: getPeerAddr_def toIpPort_ok)
  have "cw_conns v0 p = None" "w_chans v0 k' = None" using alloc kk by (simp_all add: v0_def)
  with inv [folded v0_def] fd [folded v0_def] obtain c0 ch
    where mk: "\<And>u :: 'a tworld_scheme. mk_TcpConnection p k' ?l (client_conn_name cl peer) sockfd u = Inr (put_conn p c0 (put_chan k' ch u))"
    and inv0: "conns_inv (put_conn p c0 (put_chan k' ch v0))"
    and c0: "tc_loop c0 = ?l" "tc_sockfd c0 = sockfd" "tc_channel c0 = k'" "tc_state c0 = kConnecting"
    using mk_TcpConnection_ok [of v0 p k' ?l sockfd] by metis
  define c1 where "c1 = (setCloseCallback_conn (Some (cb_client_remove t)) \<circ> setWriteCompleteCallback_conn (cl_writeCompleteCb cl) \<circ>
    setMessageCallback_conn (cl_messageCb cl) \<circ> setConnectionCallback_conn (cl_connectionCb cl)) c0"
  note c1_defs = c1_def setCloseCallback_conn_def setWriteCompleteCallback_conn_def setMessageCallback_conn_def setConnectionCallback_conn_def
  define cl' where "cl' = cl\<lparr>cl_nextConnId := cl_nextConnId cl + 1, cl_connection := Some p\<rparr>"
  define u where "u = put_client t cl' (put_conn p c1 (put_conn p c0 (put_chan k' ch v0)))"
  have "conn_ok p c0 (put_conn p c0 (put_chan k' ch v0))" using inv0 by (simp add: conns_inv_def)
  then have "conn_ok p c1 (put_conn p c0 (put_chan k' ch v0))" using c0 by (simp add: conn_ok_def linked_def state_ok_def plain_events_def c1_defs)
  from conns_inv_put_conn [OF inv0 this] have inv_u: "conns_inv u" unfolding u_def by (rule conns_inv_cong) simp_all
  have "newConnection_client os lib alloc env t sockfd v =
      connectEstablished env os p (put_client t cl' (put_conn p c1 (put_conn p c0 (put_chan k' ch v))))"
    using cl peer alloc(1) by (simp add: newConnection_client_def mk c1_def cl'_def)
  also have "put_client t cl' (put_conn p c1 (put_conn p c0 (put_chan k' ch v))) = put_chan k s u"
    unfolding u_def by (subst v) (simp add: put_chan_swap [OF kk] put_chan_commutes)
  finally have run: "newConnection_client os lib alloc env t sockfd v = connectEstablished env os p (put_chan k s u)" .
  have u: "cw_conns u p = Some c1" "w_chans u k = None" "tc_state c1 = kConnecting"
    using kk c0 by (simp_all add: u_def v0_def c1_defs)
  from os inv_u u(1,3,2) stale(2) obtain w0 where
    calls: "connectEstablished env os p (put_chan k s u) = call_cb env (tc_connectionCb c1) p (put_chan k s w0)"
    and w0: "conns_inv w0" "cw_conns w0 = (cw_conns u)(p \<mapsto> c1\<lparr>tc_state := kConnected\<rparr>)" "w_chans w0 k = None"
    "interest (tc_loop c1) (w_trace w0) (tc_sockfd c1) = Some (ReadEvent, tc_channel c1)"
    "cworld.more w0 = cworld.more u" "\<forall>l. el_pending (w_loops w0 l) = el_pending (w_loops u l)"
    by (rule connectEstablished_beside)
  have more: "tw_clients w0 = tw_clients u" "nw_connectors w0 = nw_connectors u"
    using w0(5) by (cases w0, cases u, simp add: nworld.defs tworld.defs)+
  have c1: "tc_loop c1 = ?l" "tc_sockfd c1 = sockfd" "tc_channel c1 = k'" "tc_connectionCb c1 = cl_connectionCb cl"
    "tc_closeCb c1 = Some (cb_client_remove t)" using c0 by (simp_all add: c1_defs)
  have gone: "(put_chan k s w0)\<lparr>w_chans := (w_chans (put_chan k s w0))(k := None)\<rparr> = w0"
    using w0(3) by (simp add: put_chan_def fun_upd_idem)
  show thesis
    by (rule that [of "put_chan k s w0" "c1\<lparr>tc_state := kConnected\<rparr>"])
      (use w0 more c1 run calls gone in \<open>simp_all add: u_def v0_def cl'_def\<close>)
qed

text \<open>The state once the channel of the attempt has been removed from the poller: without it, the connections are intact and the socket is free.\<close>

lemma attempt_detached:
  assumes inv: "conns_inv w" and ch: "w_chans w k = Some ch" "ch_writeCb ch = Some (ConnectorHandleWrite a)"
    and v: "reactor_inv v" "w_chans v = (w_chans w)(k \<mapsto> s)" "cw_conns v = cw_conns w" "ch_index s = kNew"
  shows "conns_inv (v\<lparr>w_chans := (w_chans v)(k := None)\<rparr>)" "fd_free (ch_loop ch) (ch_fd ch) (v\<lparr>w_chans := (w_chans v)(k := None)\<rparr>)"
proof -
  let ?v = "v\<lparr>w_chans := (w_chans v)(k := None)\<rparr>"
  have rv: "reactor_inv ?v" using v(1) by (rule reactor_inv_delete [where ch = s]) (simp_all add: v(2,4))
  have "conn_ok q d ?v" if q: "cw_conns w q = Some d" for q d
  proof -
    from inv q obtain dh where d: "w_chans w (tc_channel d) = Some dh" "linked q d dh" "state_ok d dh"
      "buffer_inv (tc_inputBuffer d)" "buffer_inv (tc_outputBuffer d)" by (rule conns_invE)
    then have "tc_channel d \<noteq> k" using ch by (auto simp: linked_def)
    with d show ?thesis by (simp add: conn_ok_def v(2))
  qed
  then show "conns_inv ?v" using rv by (simp add: conns_inv_def v(3))
  have "fds_unique w" using inv by (simp add: conns_inv_def reactor_inv_def)
  then show "fd_free (ch_loop ch) (ch_fd ch) ?v"
    using ch(1) unfolding fds_unique_def fd_free_def by (auto simp: v(2) split: if_splits)
qed

text \<open>
  C35: a client connects. When the loop reports that the socket of an attempt is writable and the kernel
  that it is connected, \<open>handleWrite\<close> fails no assertion and ends in the connection callback. By then
  the socket belongs to a new connection in state \<open>kConnected\<close> that the client holds and whose end it
  will be told of, the kernel watches the socket for input on behalf of that connection, the connector is
  in state \<open>kConnected\<close> with the deletion of its old channel queued last, and without that channel all
  invariants of connections and channels hold.
\<close>

theorem client_connects:
  assumes "epoll_ctl_contract os" "conns_inv w" "finite (dom (w_chans w))" "finite (dom (cw_conns w))" "fresh_pair alloc"
    and "nw_connectors w a = Some cn" "cn_state cn = cConnecting" "cn_connect cn" "cn_newConnectionCb cn = Some t"
    and "cn_channel cn = Some k" "w_chans w k = Some ch" "ch_loop ch = cn_loop cn" "ch_index ch = kAdded"
    and "ch_writeCb ch = Some (ConnectorHandleWrite a)" "el_current (w_loops w (cn_loop cn)) = Some k"
    and "tw_clients w t = Some cl" "cl_loop cl = cn_loop cn" "connected_socket os lib (ch_fd ch)"
  shows "\<exists>p k' c w'. handleWrite_connector os lib (newConnection_client os lib alloc env) a w = call_cb env (cl_connectionCb cl) p w' \<and>
    cw_conns w p = None \<and> cw_conns w' = (cw_conns w)(p \<mapsto> c) \<and> tc_state c = kConnected \<and> tc_sockfd c = ch_fd ch \<and>
    tc_loop c = cl_loop cl \<and> tc_closeCb c = Some (cb_client_remove t) \<and>
    tw_clients w' t = Some (cl\<lparr>cl_nextConnId := cl_nextConnId cl + 1, cl_connection := Some p\<rparr>) \<and>
    interest (cl_loop cl) (w_trace w') (ch_fd ch) = Some (ReadEvent, k') \<and>
    nw_connectors w' a = Some (cn\<lparr>cn_state := cConnected\<rparr>) \<and> last (el_pending (w_loops w' (cn_loop cn))) = F_resetChannel a \<and>
    conns_inv (w'\<lparr>w_chans := (w_chans w')(k := None)\<rparr>)"
proof -
  let ?l = "cn_loop cn" and ?fd = "ch_fd ch"
  have rinv: "reactor_inv w" using assms(2) by (simp add: conns_inv_def)
  have "\<not> awaited ?l k w" using assms(15) by (simp add: awaited_def)
  from assms(1) rinv assms(6,10-13) this obtain w1 s where w1: "removeAndResetChannel os a w = Inr (?fd, w1)" "reactor_inv w1"
    "w_chans w1 = (w_chans w)(k \<mapsto> s)" "ch_loop s = ?l" "ch_fd s = ?fd" "ch_index s = kNew" "world.more w1 = world.more w"
    "el_pending (w_loops w1 ?l) = el_pending (w_loops w ?l) @ [F_resetChannel a]" by (rule removeAndResetChannel_world)
  have more: "nw_connectors w1 = nw_connectors w" "cw_conns w1 = cw_conns w" "tw_clients w1 = tw_clients w"
    using nw_more [OF w1(7)] tw_more [OF w1(7)] by simp_all
  define w2 where "w2 = log_call (SysGetSoError ?fd 0) w1"
  define v where "v = put_connector a (cn\<lparr>cn_state := cConnected\<rparr>) w2"
  obtain la pa where "os_getsockname os (w_trace w2) ?fd = Some la" "os_getpeername os (w_trace w2) ?fd = Some pa" "\<not> isSelfConnect la pa"
    using assms(18) unfolding connected_socket_def by blast
  then have conn: "getSocketError os ?fd w1 = (0, w2)" "\<not> isSelfConnect (getLocalAddr os ?fd w2) (getPeerAddr os ?fd w2)"
    using assms(18) by (simp_all add: connected_socket_def getSocketError_def w2_def getLocalAddr_def getPeerAddr_def)
  have hw: "handleWrite_connector os lib (newConnection_client os lib alloc env) a w = newConnection_client os lib alloc env t ?fd v"
    using assms(6-9) w1(1) conn more(1) by (simp add: handleWrite_connector_def v_def w2_def)
  have chans: "w_chans v = (w_chans w)(k \<mapsto> s)" "cw_conns v = cw_conns w" by (simp_all add: v_def w2_def w1(3) more)
  have "reactor_inv w2" unfolding w2_def by (rule reactor_inv_cong [OF w1(2)]) simp_all
  then have "reactor_inv v" unfolding v_def by (rule reactor_inv_cong) simp_all
  note det = attempt_detached [OF assms(2,11,14) this chans w1(6)]
  have fd: "fd_free (cl_loop cl) ?fd (v\<lparr>w_chans := (w_chans v)(k := None)\<rparr>)" using det(2) assms(12,17) by simp
  obtain p k' where al: "alloc v = (p, k')" by force
  have fin: "finite (dom (w_chans v))" "finite (dom (cw_conns v))" using assms(3,4) by (simp_all add: chans)
  with assms(5) al have fresh: "cw_conns v p = None" "w_chans v k' = None" by (force simp: fresh_pair_def)+
  have s: "w_chans v k = Some s" by (simp add: chans)
  have cl: "tw_clients v t = Some cl" using assms(16) by (simp add: v_def w2_def more)
  from assms(1) al fresh s w1(6) det(1) fd cl assms(18) obtain w' c where "newConnection_client os lib alloc env t ?fd v = call_cb env (cl_connectionCb cl) p w'"
    "tw_clients w' = (tw_clients v)(t \<mapsto> cl\<lparr>cl_nextConnId := cl_nextConnId cl + 1, cl_connection := Some p\<rparr>)"
    "cw_conns w' = (cw_conns v)(p \<mapsto> c)" "tc_state c = kConnected" "tc_loop c = cl_loop cl" "tc_sockfd c = ?fd"
    "tc_closeCb c = Some (cb_client_remove t)" "nw_connectors w' = nw_connectors v"
    "interest (cl_loop cl) (w_trace w') ?fd = Some (ReadEvent, k')"
    "conns_inv (w'\<lparr>w_chans := (w_chans w')(k := None)\<rparr>)" "\<forall>l. el_pending (w_loops w' l) = el_pending (w_loops v l)"
    by (rule newConnection_client_ok)
  with hw fresh(1) w1(8) show ?thesis
    by (intro exI [of _ p] exI [of _ k'] exI [of _ c] exI [of _ w']) (simp add: chans(2), simp add: v_def w2_def)
qed

section \<open>The end of a connection\<close>

text \<open>
  The close callback of a connection of the client: the client lets go of it and queues its
  destruction. Without retry that is all; in particular the connector stays in state \<open>kConnected\<close>, so
  that calling \<open>connect\<close> again fails the assertion of \<open>startInLoop\<close>.
\<close>

lemma client_removes:
  assumes "tw_clients w t = Some cl" "cl_connection cl = Some p" "cw_conns w p = Some c" "tc_loop c = cl_loop cl"
    and "\<not> (cl_retry cl \<and> cl_connect cl)"
  obtains w' where "client_env os lib alloc user (cb_client_remove t) p w = Inr w'"
    "tw_clients w' t = Some (cl\<lparr>cl_connection := None\<rparr>)" "nw_connectors w' = nw_connectors w"
    "el_pending (w_loops w' (cl_loop cl)) = el_pending (w_loops w (cl_loop cl)) @ [F_connectDestroyed p]"
    "w_tid w' = w_tid w" "\<And>l. el_threadId (w_loops w' l) = el_threadId (w_loops w l)"
proof -
  have code: "cb_client_remove t mod 4 = 1" "cb_client_remove t div 4 = t" unfolding cb_client_remove_def by presburger+
  let ?w = "queueInLoop os (cl_loop cl) (F_connectDestroyed p) (put_client t (cl\<lparr>cl_connection := None\<rparr>) w)"
  have "client_env os lib alloc user (cb_client_remove t) p w = Inr ?w"
    using assms code by (auto simp: client_env_def removeConnection_client_def Let_def)
  then show thesis by (rule that) simp_all
qed

theorem client_reconnect_aborts:
  assumes "tw_clients w t = Some cl" "cl_connection cl = Some p" "cw_conns w p = Some c" "tc_loop c = cl_loop cl"
    and "\<not> (cl_retry cl \<and> cl_connect cl)" "nw_connectors w (cl_connector cl) = Some cn" "cn_state cn = cConnected"
    and "inet_ok lib (cn_serverAddr cn)" "isInLoopThread (cn_loop cn) w"
  shows "bindR (client_env os lib alloc user (cb_client_remove t) p w) (connect_client os lib alloc t) = Inl AssertFailure"
proof -
  from assms(1-5) obtain w' where w': "client_env os lib alloc user (cb_client_remove t) p w = Inr w'"
    "tw_clients w' t = Some (cl\<lparr>cl_connection := None\<rparr>)" "nw_connectors w' = nw_connectors w" "w_tid w' = w_tid w"
    "\<And>l. el_threadId (w_loops w' l) = el_threadId (w_loops w l)" by (rule client_removes) blast
  then show ?thesis
    using assms(6-9) toIpPort_ok [OF assms(8)]
    by (simp add: connect_client_def start_connector_def runInLoop_def isInLoopThread_def startInLoop_connector_def)
qed

text \<open>
  Destroying a client that has no connection: \<open>stop\<close> only queues \<open>stopInLoop\<close>, bound to the bare pointer
  of the connector, and the connector is destroyed at once. If it still has a channel its destructor
  fails an assertion; if not, the functor that is left in the queue runs on a connector that is gone.
\<close>

theorem client_destructor_hazards:
  assumes "tw_clients w t = Some cl" "cl_connection cl = None" "nw_connectors w (cl_connector cl) = Some cn"
  shows "(cn_channel cn \<noteq> None \<longrightarrow> delete_TcpClient os u t w = Inl AssertFailure) \<and>
    (cn_channel cn = None \<longrightarrow> (\<exists>w'. delete_TcpClient os u t w = Inr w' \<and>
       last (el_pending (w_loops w' (cn_loop cn))) = F_stopInLoop (cl_connector cl) \<and>
       client_runF os lib alloc user (F_stopInLoop (cl_connector cl)) w' = Inl NullPointer))"
proof -
  let ?a = "cl_connector cl"
  let ?w = "queueInLoop os (cn_loop cn) (F_stopInLoop ?a) (put_connector ?a (cn\<lparr>cn_connect := False\<rparr>) w)"
  have "delete_TcpClient os u t w = delete_Connector ?a (?w\<lparr>tw_clients := (tw_clients ?w)(t := None)\<rparr>)"
    using assms by (simp add: delete_TcpClient_def stop_connector_def)
  then show ?thesis
    by (cases "cn_channel cn") (simp_all add: delete_Connector_def get_connector_def stopInLoop_connector_def)
qed

section \<open>A client to evaluate on\<close>

definition model_tclient :: tcp_client where
  "model_tclient = \<lparr>cl_loop = 0, cl_connector = 40, cl_name = ''c'', cl_connectionCb = Some 0, cl_messageCb = Some 4,
     cl_writeCompleteCb = None, cl_retry = False, cl_connect = True, cl_nextConnId = 1, cl_connection = None\<rparr>"

definition model_attempt :: channel where
  "model_attempt = (setErrorCallback (ConnectorHandleError 40) (setWriteCallback (ConnectorHandleWrite 40) (mk_Channel 0 9)))
     \<lparr>ch_events := WriteEvent, ch_added := True, ch_index := kAdded, ch_handling := True\<rparr>"

text \<open>The loop handles the event of the channel at address 8, the attempt of the connector at 40.\<close>

definition model_tworld :: tworld where
  "model_tworld = \<lparr>w_tid = 1, w_chans = [8 \<mapsto> model_attempt],
     w_loops = (\<lambda>_. model_loop\<lparr>el_poller := mk_Poller\<rparr>)(0 := model_loop\<lparr>el_poller := \<lparr>pl_channels = [9 \<mapsto> 8], pl_eventsSize = 16\<rparr>,
       el_eventHandling := True, el_active := [8], el_current := Some 8\<rparr>),
     w_trace = [SysSocket 9, SysEpollCtl 0 EPOLL_CTL_ADD 9 WriteEvent 8 0], cw_conns = Map.empty,
     nw_connectors = [40 \<mapsto> model_connector\<lparr>cn_connect := True, cn_state := cConnecting, cn_channel := Some 8\<rparr>],
     tw_clients = [50 \<mapsto> model_tclient]\<rparr>"

lemma model_tworld_inv: "conns_inv model_tworld"
proof -
  have "registry_inv l model_tworld" for l
    by (rule registry_inv_intro)
      (auto simp: model_tworld_def model_attempt_def mk_Poller_def interest_def index_defs setErrorCallback_def setWriteCallback_def
        mk_Channel_def model_loop_def split: if_splits)
  then show ?thesis by (simp add: conns_inv_def reactor_inv_def fds_unique_def model_tworld_def)
qed

definition model_peer_os :: net_os where
  "model_peer_os = os.extend model_os (net_os.fields (\<lambda>tr. 9) (\<lambda>tr fd. 0) (\<lambda>tr fd. 0) (\<lambda>tr fd. Inl 11) (\<lambda>tr fd. 115) (\<lambda>tr. 31)
     (\<lambda>tr fd. Some (mk_InetAddress_port zero6 3000 True False)) (\<lambda>tr fd. Some (mk_InetAddress_port zero6 2000 True False)))"

lemma model_peer_os_ok: "epoll_ctl_contract model_peer_os" "connected_socket model_peer_os model_lib fd"
proof -
  show "epoll_ctl_contract model_peer_os"
    by (simp add: epoll_ctl_contract_def model_peer_os_def model_os_def os.defs net_os.defs)
  have "\<not> isSelfConnect (mk_InetAddress_port zero6 3000 True False) (mk_InetAddress_port zero6 2000 True False)"
    using bswap_inject16 [of 3000 2000]
    by (simp add: isSelfConnect_def mk_InetAddress_port_def hostToNetwork16_def networkToHost16_def del: bswap_inject16)
  then show "connected_socket model_peer_os model_lib fd"
    using model_lib_ok by (simp add: connected_socket_def model_peer_os_def model_os_def os.defs net_os.defs)
qed

definition model_pair :: "'a cworld_scheme \<Rightarrow> ptr \<times> ptr" where
  "model_pair w = (Suc (Max (insert 0 (dom (cw_conns w)))), model_alloc w)"

lemma model_pair_fresh: "fresh_pair model_pair"
  by (simp add: fresh_pair_def model_pair_def model_alloc_def above_Max)

theorem client_connects_witness:
  "\<exists>p w'. handleWrite_connector model_peer_os model_lib (newConnection_client model_peer_os model_lib model_pair (\<lambda>_ _. Inr)) 40
      model_tworld = Inr w' \<and> (\<exists>c. cw_conns w' p = Some c \<and> tc_state c = kConnected \<and> tc_sockfd c = 9)"
proof -
  let ?cn = "model_connector\<lparr>cn_connect := True, cn_state := cConnecting, cn_channel := Some 8\<rparr>"
  have cn: "nw_connectors model_tworld 40 = Some ?cn" "cn_newConnectionCb ?cn = Some 50" "cn_loop ?cn = 0"
    by (simp_all add: model_tworld_def model_connector_def setNewConnectionCallback_connector_def mk_Connector_def)
  have ch: "w_chans model_tworld 8 = Some model_attempt" "ch_loop model_attempt = cn_loop ?cn" "ch_index model_attempt = kAdded"
    "ch_writeCb model_attempt = Some (ConnectorHandleWrite 40)" "ch_fd model_attempt = 9"
    by (simp_all add: model_tworld_def model_attempt_def cn(3) setErrorCallback_def setWriteCallback_def mk_Channel_def)
  have rest: "el_current (w_loops model_tworld (cn_loop ?cn)) = Some 8" "tw_clients model_tworld 50 = Some model_tclient"
    "cl_loop model_tclient = cn_loop ?cn" "cl_connectionCb model_tclient = Some 0" "finite (dom (w_chans model_tworld))"
    "finite (dom (cw_conns model_tworld))" by (simp_all add: model_tworld_def model_tclient_def cn(3))
  show ?thesis
    using client_connects [where env = "\<lambda>_ _. Inr", OF model_peer_os_ok(1) model_tworld_inv rest(5,6) model_pair_fresh cn(1) _ _ cn(2) _
        ch(1-4) rest(1-3) model_peer_os_ok(2)] ch(5) rest(4)
    by (auto simp: call_cb_def)
qed

end
