(* ===== verification/Monitor.thy ===== *)
theory Monitor
  imports RpcPair TcpClient
begin

text \<open>
  The example programs \<open>src/examples/server.cc\<close> and \<open>src/examples/client.cc\<close> with \<open>monitor.proto\<close>: the service
  \<open>TestServiceImpl\<close>, the class \<open>RpcClient\<close> and the calls its main program makes. The generated serialisation
  of the two messages is an argument.
\<close>

section \<open>monitor.proto\<close>

record TestRequest =
  tq_name :: string
  tq_count :: "32 word"

record TestResponse =
  tr_status :: bool
  tr_cpu_info :: string

definition new_TestRequest :: TestRequest where
  "new_TestRequest = \<lparr>tq_name = '''', tq_count = 0\<rparr>"

definition new_TestResponse :: TestResponse where
  "new_TestResponse = \<lparr>tr_status = False, tr_cpu_info = ''''\<rparr>"

definition TestService_name :: string where
  "TestService_name = ''monitor.TestService''"

definition MonitorInfo_name :: string where
  "MonitorInfo_name = ''MonitorInfo''"

text \<open>
  What protobuf guarantees: requests and responses parse back, the latter into the object that is given,
  and a message that serialises to nothing is the default one.
\<close>

record monitor_codec =
  mc_ser_req :: "TestRequest \<Rightarrow> byte list"
  mc_parse_req :: "byte list \<Rightarrow> TestRequest option"
  mc_ser_resp :: "TestResponse \<Rightarrow> byte list"
  mc_parse_resp :: "TestResponse \<Rightarrow> byte list \<Rightarrow> TestResponse"

definition codec_ok :: "monitor_codec \<Rightarrow> bool" where
  "codec_ok mc \<longleftrightarrow> (\<forall>q. mc_parse_req mc (mc_ser_req mc q) = Some q) \<and>
     (\<forall>r x. mc_parse_resp mc r (mc_ser_resp mc x) = x) \<and> (\<forall>x. mc_ser_resp mc x = [] \<longrightarrow> x = new_TestResponse)"

section \<open>server.cc\<close>

definition to_string :: "32 word \<Rightarrow> string" where
  "to_string x = (if sint x < 0 then ''-'' @ decimal (nat (- sint x)) else decimal (nat (sint x)))"

definition MonitorInfo ::
  "TestRequest \<Rightarrow> TestResponse \<Rightarrow> (TestResponse \<Rightarrow> 's \<Rightarrow> 's res) \<Rightarrow> 's \<Rightarrow> 's res" where
  "MonitorInfo request response run_done s =
     (let response = response\<lparr>tr_status := True\<rparr>;
          c = ''hight_'' @ to_string (tq_count request) in
      run_done (response\<lparr>tr_cpu_info := c\<rparr>) s)"

text \<open>The service as \<open>RpcChannel::handle_request_msg\<close> sees it.\<close>

definition monitor_ops :: "monitor_codec \<Rightarrow> ('v, TestRequest, 's) service_ops" where
  "monitor_ops mc = \<lparr>sv_has_method = (\<lambda>v m. m = MonitorInfo_name),
     sv_parse = (\<lambda>v m d. mc_parse_req mc d),
     sv_call = (\<lambda>v m q k s. MonitorInfo q new_TestResponse (\<lambda>r. k (mc_ser_resp mc r)) s)\<rparr>"

definition monitor_response :: "TestRequest \<Rightarrow> TestResponse" where
  "monitor_response q = \<lparr>tr_status = True, tr_cpu_info = ''hight_'' @ to_string (tq_count q)\<rparr>"

lemma monitor_prompt: "prompt (monitor_ops mc) (\<lambda>v m q. mc_ser_resp mc (monitor_response q))"
  by (simp add: prompt_def monitor_ops_def MonitorInfo_def monitor_response_def new_TestResponse_def)

section \<open>client.cc\<close>

text \<open>
  A call of the stub is a call of \<open>CallMethod\<close>; the closure is \<open>RpcClient::closure\<close>, bound to the client and the
  response object.
\<close>

definition SetMonitorInfo ::
  "(ptr option \<Rightarrow> RpcMessage \<Rightarrow> 'w \<Rightarrow> 'w res) \<Rightarrow> monitor_codec \<Rightarrow> ptr \<Rightarrow> TestRequest \<Rightarrow>
   (TestResponse, ptr, 'v) rpc_channel \<times> 'w \<Rightarrow> ((TestResponse, ptr, 'v) rpc_channel \<times> 'w) res" where
  "SetMonitorInfo csend mc this request s =
     CallMethod csend TestService_name MonitorInfo_name (mc_ser_req mc request) (Some new_TestResponse) (Some this) s"

text \<open>The thread of \<open>main\<close>, for a number of rounds.\<close>

primrec monitor_thread ::
  "(ptr option \<Rightarrow> RpcMessage \<Rightarrow> 'w \<Rightarrow> 'w res) \<Rightarrow> monitor_codec \<Rightarrow> ptr \<Rightarrow> nat \<Rightarrow> 32 word \<Rightarrow>
   (TestResponse, ptr, 'v) rpc_channel \<times> 'w \<Rightarrow> (32 word \<times> (TestResponse, ptr, 'v) rpc_channel \<times> 'w) res" where
  "monitor_thread csend mc this 0 count s = Inr (count, s)"
| "monitor_thread csend mc this (Suc n) count s =
     (let count = count + 1;
          request = new_TestRequest\<lparr>tq_name := ''cpu0'', tq_count := count\<rparr> in
      bindR (SetMonitorInfo csend mc this request s) (\<lambda>s1. monitor_thread csend mc this n count s1))"

text \<open>The calls as the RPC layer sees them.\<close>

definition monitor_call :: "monitor_codec \<Rightarrow> ptr \<Rightarrow> nat \<Rightarrow> (TestResponse, ptr) call" where
  "monitor_call mc this i = (TestService_name, MonitorInfo_name,
     mc_ser_req mc \<lparr>tq_name = ''cpu0'', tq_count = of_nat i\<rparr>, new_TestResponse, this)"

lemma monitor_thread_calls:
  "monitor_thread csend mc this n (of_nat k) s =
     bindR (foldR (call_op csend) (map (monitor_call mc this) [Suc k..<Suc (k + n)]) s) (\<lambda>s1. Inr (of_nat (k + n), s1))"
proof (induction n arbitrary: k s)
  case (Suc n)
  have step: "SetMonitorInfo csend mc this (new_TestRequest\<lparr>tq_name := ''cpu0'', tq_count := of_nat (Suc k)\<rparr>) s =
      call_op csend (monitor_call mc this (Suc k)) s"
    by (simp add: SetMonitorInfo_def call_op_def monitor_call_def new_TestRequest_def)
  have upt: "[Suc k..<Suc (Suc (k + n))] = Suc k # [Suc (Suc k)..<Suc (Suc (k + n))]" by (simp add: upt_conv_Cons del: upt_Suc)
  have "of_nat k + 1 = (of_nat (Suc k) :: 32 word)" by (simp add: add.commute)
  then have run: "monitor_thread csend mc this (Suc n) (of_nat k) s =
      bindR (call_op csend (monitor_call mc this (Suc k)) s) (monitor_thread csend mc this n (of_nat (Suc k)))"
    by (simp only: monitor_thread.simps Let_def step)
  show ?case
    by (cases "call_op csend (monitor_call mc this (Suc k)) s")
      (simp_all only: run upt list.map foldR.simps bindR_Inr bindR_Inl Suc.IH [of "Suc k"] add_Suc_right add_Suc)
qed simp

lemma to_string_of_nat: "i < 2 ^ 31 \<Longrightarrow> to_string (of_nat i) = decimal i"
proof -
  assume i: "i < 2 ^ 31"
  have "sint (of_nat i :: 32 word) = signed_take_bit 31 (int i)" using sint_sbintrunc' [of "int i", where ?'a = 32] by simp
  also have "\<dots> = int i" using i by (simp add: signed_take_bit_int_eq_self)
  finally show ?thesis by (simp add: to_string_def)
qed

text \<open>The reply to a call, and what the closure of the client gets.\<close>

definition monitor_answer :: "nat \<Rightarrow> TestResponse" where
  "monitor_answer i = \<lparr>tr_status = True, tr_cpu_info = ''hight_'' @ decimal i\<rparr>"

lemma monitor_reply:
  assumes "codec_ok mc" "services = Some svs" "svs TestService_name = Some (Some v)" "k < 2 ^ 31"
  shows "reply services (monitor_ops mc) (\<lambda>v m q. mc_ser_resp mc (monitor_response q)) (call_request i (monitor_call mc this k)) =
    result_reply (mc_ser_resp mc (monitor_answer k)) (call_request i (monitor_call mc this k))"
  using assms to_string_of_nat [OF assms(4)]
  by (simp add: reply_def call_request_def monitor_call_def monitor_ops_def codec_ok_def monitor_response_def monitor_answer_def)

lemma monitor_replies:
  assumes "codec_ok mc" "services = Some svs" "svs TestService_name = Some (Some v)" "n < 2 ^ 31"
    and "reqs = call_requests j (map (monitor_call mc this) [Suc 0..<Suc n])"
  shows "map (reply services (monitor_ops mc) (\<lambda>v m q. mc_ser_resp mc (monitor_response q))) reqs =
    map2 (\<lambda>i. result_reply (mc_ser_resp mc (monitor_answer i))) [Suc 0..<Suc n] reqs" (is "?l = ?r")
proof (rule nth_equalityI)
  have len: "length reqs = n" by (simp add: assms(5) call_requests_def)
  then show "length ?l = length ?r" by simp
  fix k assume "k < length ?l"
  with len have k: "k < n" by simp
  then have q: "reqs ! k = call_request (call_ids j n ! k) (monitor_call mc this (Suc k))"
    by (simp add: assms(5) call_requests_def del: upt_Suc)
  from k assms(4) have "Suc k < 2 ^ 31" by simp
  from monitor_reply [OF assms(1-3) this] k len q show "?l ! k = ?r ! k" by (simp del: upt_Suc)
qed

lemma monitor_results:
  assumes "codec_ok mc" "length reqs = n"
  shows "map2 (call_result (mc_parse_resp mc)) (map (monitor_call mc this) [Suc 0..<Suc n])
      (map2 (\<lambda>i. result_reply (mc_ser_resp mc (monitor_answer i))) [Suc 0..<Suc n] reqs) =
    map (\<lambda>i. (this, monitor_answer i)) [Suc 0..<Suc n]"
proof -
  have "call_result (mc_parse_resp mc) (monitor_call mc this k) (result_reply (mc_ser_resp mc x) m) = (this, x)" for k x m
    using assms(1) by (auto simp: call_result_def monitor_call_def result_reply_def new_RpcMessage_def codec_ok_def)
  with assms(2) show ?thesis by (intro nth_equalityI) (simp_all del: upt_Suc)
qed

text \<open>
  C6: the example programs work together. The thread of the client makes \<open>n\<close> calls of \<open>MonitorInfo\<close>, the bytes
  reach the server, and its replies the client, in any segmentation. Then no assertion fails on either
  side, and the closure of the client runs \<open>n\<close> times, in the order of the calls: the \<open>i\<close>-th time with a response
  whose status is true and whose text is \<open>hight_\<close> followed by \<open>i\<close> in decimal. Nothing stays outstanding or in a
  buffer. (With \<open>n\<close> below \<open>2 ^ 31\<close> the counter of the program does not overflow.)
\<close>

theorem monitor_example:
  assumes "is_adler32 adler" "codec_ok mc" "n < 2 ^ 31" "rc_services srv = Some [TestService_name \<mapsto> Some v]"
    and "rc_conn srv = Some sp" "rc_conn cl = Some cp" "rc_outstandings cl = Map.empty"
    and "reqs = call_requests (rc_id cl) (map (monitor_call mc this) [Suc 0..<Suc n])"
    and "reps = map2 (\<lambda>i. result_reply (mc_ser_resp mc (monitor_answer i))) [Suc 0..<Suc n] reqs"
    and "\<forall>m \<in> set (reqs @ reps). sendable ser pfa m"
    and "buffer_inv sb" "content sb = []" "buffer_inv cb" "content cb = []"
    and "has_room sb (length (concat (map (frame adler ser) reqs)))"
    and "has_room cb (length (concat (map (frame adler ser) reps)))"
    and "csend = codec_send adler ser wire_send" "ssend = codec_send adler ser wire_send"
  shows "\<exists>cl1 out ret.
    monitor_thread csend mc this n 0 (cl, [], []) = Inr (of_nat n, cl1, out, []) \<and>
    (\<forall>chunks. concat chunks = out \<longrightarrow> (\<exists>sb'. content sb' = [] \<and>
        feed adler pfa (onRpcMessage ssend (monitor_ops mc) spfs log_done sp) chunks sb (srv, [], []) = Inr (sb', srv, ret, []))) \<and>
    (\<forall>chunks. concat chunks = ret \<longrightarrow> (\<exists>cb'. content cb' = [] \<and>
        feed adler pfa (onRpcMessage csend cops (mc_parse_resp mc) log_done cp) chunks cb (cl1, out, []) =
          Inr (cb', cl1\<lparr>rc_outstandings := Map.empty\<rparr>, out, map (\<lambda>i. (this, monitor_answer i)) [Suc 0..<Suc n])))"
proof -
  have nn: "no_null (rc_services srv)" by (simp add: assms(4) no_null_def)
  have len: "length (map (monitor_call mc this) [Suc 0..<Suc n]) < 2 ^ 64" using assms(3) by simp
  have thread: "monitor_thread csend mc this n 0 s =
      bindR (foldR (call_op csend) (map (monitor_call mc this) [Suc 0..<Suc n]) s) (\<lambda>s1. Inr (of_nat n, s1))" for s
    using monitor_thread_calls [of csend mc this n 0 s] by (simp del: upt_Suc)
  have "[TestService_name \<mapsto> Some v] TestService_name = Some (Some v)" by simp
  note reps = trans [OF assms(9) sym [OF monitor_replies [OF assms(2,4) this assms(3,8)]]]
  have "length reqs = n" by (simp add: assms(8) call_requests_def)
  from monitor_results [OF assms(2) this, folded assms(9)]
  have results: "map2 (call_result (mc_parse_resp mc)) (map (monitor_call mc this) [Suc 0..<Suc n]) reps = map (\<lambda>i. (this, monitor_answer i)) [Suc 0..<Suc n]" .
  from pair_runs [where spfs = spfs and cops = cops and pfs = "mc_parse_resp mc",
      OF assms(1) monitor_prompt [of mc] nn assms(5-7) len assms(8) reps assms(10-14,17,18,15,16)]
  obtain cl1 out ret where calls: "foldR (call_op csend) (map (monitor_call mc this) [Suc 0..<Suc n]) (cl, [], []) = Inr (cl1, out, [])"
    and rest: "\<forall>chunks. concat chunks = out \<longrightarrow> (\<exists>sb'. content sb' = [] \<and>
        feed adler pfa (onRpcMessage ssend (monitor_ops mc) spfs log_done sp) chunks sb (srv, [], []) = Inr (sb', srv, ret, []))"
      "\<forall>chunks. concat chunks = ret \<longrightarrow> (\<exists>cb'. content cb' = [] \<and>
        feed adler pfa (onRpcMessage csend cops (mc_parse_resp mc) log_done cp) chunks cb (cl1, out, []) =
          Inr (cb', cl1\<lparr>rc_outstandings := Map.empty\<rparr>, out, map (\<lambda>i. (this, monitor_answer i)) [Suc 0..<Suc n]))"
    unfolding results by blast
  from calls have "monitor_thread csend mc this n 0 (cl, [], []) = Inr (of_nat n, cl1, out, [])" by (simp add: thread del: upt_Suc)
  with rest show ?thesis by blast
qed

section \<open>A run to evaluate\<close>

definition text_bytes :: "string \<Rightarrow> byte list" where
  "text_bytes = map (\<lambda>c. of_nat (of_char c))"

definition bytes_text :: "byte list \<Rightarrow> string" where
  "bytes_text = map (\<lambda>b. char_of (unat b))"

lemma bytes_text_text [simp]: "bytes_text (text_bytes str) = str"
proof -
  have "unat (of_nat (of_char c) :: byte) = of_char c" for c
    using nat_of_char_less_256 [of c] by (simp add: unat_of_nat take_bit_nat_eq_self)
  then show ?thesis by (simp add: text_bytes_def bytes_text_def comp_def)
qed

definition model_codec :: monitor_codec where
  "model_codec = \<lparr>mc_ser_req = (\<lambda>q. word_bytes (tq_count q) @ text_bytes (tq_name q)),
     mc_parse_req = (\<lambda>d. Some \<lparr>tq_name = bytes_text (drop 4 d), tq_count = bytes_word (take 4 d)\<rparr>),
     mc_ser_resp = (\<lambda>r. (if tr_status r then 1 else 0) # text_bytes (tr_cpu_info r)),
     mc_parse_resp = (\<lambda>r d. \<lparr>tr_status = hd d = 1, tr_cpu_info = bytes_text (tl d)\<rparr>)\<rparr>"

lemma model_codec_ok: "codec_ok model_codec"
  by (simp add: codec_ok_def model_codec_def bytes_word_bytes)

definition model_monitor_client :: "(TestResponse, ptr, nat) rpc_channel" where
  "model_monitor_client = \<lparr>rc_conn = Some 3, rc_id = 0, rc_outstandings = Map.empty, rc_services = None\<rparr>"

definition model_monitor_server :: "(TestResponse, ptr, nat) rpc_channel" where
  "model_monitor_server = \<lparr>rc_conn = Some 4, rc_id = 0, rc_outstandings = Map.empty, rc_services = Some [TestService_name \<mapsto> Some 1]\<rparr>"

text \<open>Two messages are all the serialisation of the RPC layer has to tell apart.\<close>

definition model_monitor_request :: RpcMessage where
  "model_monitor_request = call_request 1 (monitor_call model_codec 9 1)"

definition model_monitor_reply :: RpcMessage where
  "model_monitor_reply = result_reply (mc_ser_resp model_codec (monitor_answer 1)) model_monitor_request"

definition model_monitor_ser :: "RpcMessage \<Rightarrow> byte list" where
  "model_monitor_ser m = (if rm_type m = REQUEST then [0] else [1])"

definition model_monitor_pfa :: "byte list \<Rightarrow> RpcMessage option" where
  "model_monitor_pfa d = (if d = [0] then Some model_monitor_request else if d = [1] then Some model_monitor_reply else None)"

theorem monitor_example_witness:
  "\<exists>cl1 out ret sb cb sb' cb' cl2. content sb = [] \<and> content cb = [] \<and>
    monitor_thread (codec_send adler32_ref model_monitor_ser wire_send) model_codec 9 1 0 (model_monitor_client, [], [] :: (ptr \<times> TestResponse) list) = Inr (1, cl1, out, []) \<and>
    feed adler32_ref model_monitor_pfa (onRpcMessage (codec_send adler32_ref model_monitor_ser wire_send) (monitor_ops model_codec) (\<lambda>r d. r) log_done 4)
      [out] sb (model_monitor_server, [], []) = Inr (sb', model_monitor_server, ret, []) \<and>
    feed adler32_ref model_monitor_pfa (onRpcMessage (codec_send adler32_ref model_monitor_ser wire_send) (monitor_ops model_codec)
        (mc_parse_resp model_codec) log_done 3)
      [ret] cb (cl1, out, []) = Inr (cb', cl2, out, [(9, \<lparr>tr_status = True, tr_cpu_info = ''hight_1''\<rparr>)])"
proof -
  let ?q = model_monitor_request and ?p = model_monitor_reply
  have one: "[Suc 0..<Suc 1] = [1]" by simp
  have reqs: "[?q] = call_requests (rc_id model_monitor_client) (map (monitor_call model_codec 9) [Suc 0..<Suc 1])"
    by (simp add: call_requests_def call_ids_def model_monitor_client_def model_monitor_request_def)
  have reps: "[?p] = map2 (\<lambda>i. result_reply (mc_ser_resp model_codec (monitor_answer i))) [Suc 0..<Suc 1] [?q]"
    by (simp add: model_monitor_reply_def)
  have t: "rm_type ?q = REQUEST" "rm_type ?p = RESPONSE"
    by (simp_all add: model_monitor_reply_def model_monitor_request_def call_request_def monitor_call_def result_reply_def new_RpcMessage_def)
  have send: "\<forall>m \<in> set ([?q] @ [?p]). sendable model_monitor_ser model_monitor_pfa m"
    by (simp add: sendable_def model_monitor_ser_def model_monitor_pfa_def kMaxMessageLen_def t)
  obtain b where b: "buffer_inv b" "content b = []" "length (storage b) = 8 + 0"
    using mk_Buffer_ok [of 0] by (auto simp: max_size_def)
  have "length (model_monitor_ser m) = 1" for m by (simp add: model_monitor_ser_def)
  then have room: "has_room b (length (concat (map (frame adler32_ref model_monitor_ser) [m])))" for m
    using b by (simp add: has_room_def max_size_def)
  have ch: "rc_services model_monitor_server = Some [TestService_name \<mapsto> Some 1]" "rc_conn model_monitor_server = Some 4"
    "rc_conn model_monitor_client = Some 3" "rc_outstandings model_monitor_client = Map.empty" "(1 :: nat) < 2 ^ 31"
    by (simp_all add: model_monitor_server_def model_monitor_client_def)
  have log: "map (\<lambda>i. (9, monitor_answer i)) [Suc 0..<Suc 1] = [(9, \<lparr>tr_status = True, tr_cpu_info = ''hight_1''\<rparr>)]"
    by (simp add: monitor_answer_def decimal.simps char_of_def bit_simps)
  from monitor_example [where spfs = "\<lambda>r d. r" and cops = "monitor_ops model_codec",
      OF adler32_ref_ok model_codec_ok ch(5,1-4) reqs reps send b(1,2) b(1,2) room room refl refl, unfolded log]
  obtain cl1 out ret where run: "monitor_thread (codec_send adler32_ref model_monitor_ser wire_send) model_codec 9 1 0 (model_monitor_client, [], [] :: (ptr \<times> TestResponse) list) = Inr (of_nat 1, cl1, out, [])"
    "\<forall>chunks. concat chunks = out \<longrightarrow> (\<exists>sb'. content sb' = [] \<and>
      feed adler32_ref model_monitor_pfa (onRpcMessage (codec_send adler32_ref model_monitor_ser wire_send) (monitor_ops model_codec) (\<lambda>r d. r) log_done 4)
        chunks b (model_monitor_server, [], []) = Inr (sb', model_monitor_server, ret, []))"
    "\<forall>chunks. concat chunks = ret \<longrightarrow> (\<exists>cb'. content cb' = [] \<and>
      feed adler32_ref model_monitor_pfa (onRpcMessage (codec_send adler32_ref model_monitor_ser wire_send) (monitor_ops model_codec)
        (mc_parse_resp model_codec) log_done 3) chunks b (cl1, out, []) =
      Inr (cb', cl1\<lparr>rc_outstandings := Map.empty\<rparr>, out, [(9, \<lparr>tr_status = True, tr_cpu_info = ''hight_1''\<rparr>)]))"
    by blast
  moreover have "concat [out] = out" "concat [ret] = ret" "of_nat 1 = (1 :: 32 word)" by simp_all
  ultimately show ?thesis using b(2) by metis
qed

end
