(* ===== verification/ExampleClient.thy ===== *)
theory ExampleClient
  imports Monitor RpcServer
begin

text \<open>
  The class \<open>RpcClient\<close> of \<open>src/examples/client.cc\<close> on the objects of the library: a \<open>TcpClient\<close>, an \<open>RpcChannel\<close>
  and the callbacks that tie them together. Callbacks of a connection: \<open>4 * rc + 2\<close> is
  \<open>RpcClient::onConnection\<close> bound to client \<open>rc\<close>, \<open>4 * rc + 8\<close> is \<open>RpcChannel::onMessage\<close> bound to the channel of
  client \<open>rc\<close>.
\<close>

section \<open>State\<close>

record rpc_client =
  rcl_loop :: ptr
  rcl_client :: ptr
  rcl_channel :: "(TestResponse, ptr, unit) rpc_channel"

record mworld = tworld +
  mw_rpcs :: "ptr \<rightharpoonup> rpc_client"

definition put_rpc_client :: "ptr \<Rightarrow> rpc_client \<Rightarrow> 'a mworld_scheme \<Rightarrow> 'a mworld_scheme" where
  "put_rpc_client rc r w = w\<lparr>mw_rpcs := (mw_rpcs w)(rc \<mapsto> r)\<rparr>"

definition cb_rpcConnection :: "ptr \<Rightarrow> nat" where
  "cb_rpcConnection rc = 4 * rc + 2"

definition cb_rpcMessage :: "ptr \<Rightarrow> nat" where
  "cb_rpcMessage rc = 4 * rc + 8"

section \<open>client.cc\<close>

text \<open>\<open>t\<close> and \<open>a\<close> are the addresses of the \<open>TcpClient\<close> and its connector.\<close>

definition mk_RpcClient :: "64 word \<Rightarrow> ptr \<Rightarrow> ptr \<Rightarrow> ptr \<Rightarrow> ptr \<Rightarrow> inet_address \<Rightarrow> 'a mworld_scheme \<Rightarrow> 'a mworld_scheme res" where
  "mk_RpcClient junk rc t a l serverAddr w =
     (let w1 = mk_TcpClient t a l serverAddr ''RpcClient'' w in
      bindR (get_client t w1) (\<lambda>cl.
        Inr (put_rpc_client rc \<lparr>rcl_loop = l, rcl_client = t, rcl_channel = mk_RpcChannel junk None\<rparr>
          (put_client t (setMessageCallback_client (Some (cb_rpcMessage rc))
             (setConnectionCallback_client (Some (cb_rpcConnection rc)) cl)) w1))))"

definition connect_rpc ::
  "'o net_os_scheme \<Rightarrow> inet_lib \<Rightarrow> ('a mworld_scheme \<Rightarrow> ptr) \<Rightarrow> ptr \<Rightarrow> 'a mworld_scheme \<Rightarrow> 'a mworld_scheme res" where
  "connect_rpc os lib alloc rc w =
     bindR (derefR (mw_rpcs w rc)) (\<lambda>r. connect_client os lib alloc (rcl_client r) w)"

definition onConnection_rpc ::
  "'o net_os_scheme \<Rightarrow> inet_lib \<Rightarrow> ('a mworld_scheme \<Rightarrow> ptr) \<Rightarrow> ptr \<Rightarrow> ptr \<Rightarrow> 'a mworld_scheme \<Rightarrow> 'a mworld_scheme res" where
  "onConnection_rpc os lib alloc rc p w =
     bindR (derefR (mw_rpcs w rc)) (\<lambda>r. bindR (get_conn p w) (\<lambda>c.
       if tc_state c = kConnected
       then Inr (put_rpc_client rc (r\<lparr>rcl_channel := setConnection (Some p) (rcl_channel r)\<rparr>) w)
       else connect_rpc os lib alloc rc w))"

text \<open>\<open>RpcClient::closure\<close> writes the response to the log, which is not part of the state.\<close>

definition closure :: "ptr \<Rightarrow> TestResponse \<Rightarrow> 's \<Rightarrow> 's res" where
  "closure this resp s = Inr s"

definition SetMonitorInfo_rpc ::
  "'o os_scheme \<Rightarrow> (32 word \<Rightarrow> byte list \<Rightarrow> 32 word) \<Rightarrow> (RpcMessage \<Rightarrow> byte list) \<Rightarrow> monitor_codec \<Rightarrow> ptr \<Rightarrow> TestRequest \<Rightarrow>
   'a mworld_scheme \<Rightarrow> 'a mworld_scheme res" where
  "SetMonitorInfo_rpc os adler ser mc rc request w =
     bindR (derefR (mw_rpcs w rc)) (\<lambda>r.
     bindR (SetMonitorInfo (codec_send adler ser (tcp_send os)) mc rc request (rcl_channel r, w)) (\<lambda>(ch, w1).
       Inr (put_rpc_client rc (r\<lparr>rcl_channel := ch\<rparr>) w1)))"

definition onMessage_rpc ::
  "'o os_scheme \<Rightarrow> (32 word \<Rightarrow> byte list \<Rightarrow> 32 word) \<Rightarrow> (RpcMessage \<Rightarrow> byte list) \<Rightarrow> (byte list \<Rightarrow> RpcMessage option) \<Rightarrow>
   (unit, 'q, (TestResponse, ptr, unit) rpc_channel \<times> 'a mworld_scheme) service_ops \<Rightarrow> monitor_codec \<Rightarrow> ptr \<Rightarrow> ptr \<Rightarrow>
   'a mworld_scheme \<Rightarrow> 'a mworld_scheme res" where
  "onMessage_rpc os adler ser pfa ops mc rc p w =
     bindR (derefR (mw_rpcs w rc)) (\<lambda>r. bindR (get_conn p w) (\<lambda>c.
     bindR (onMessage_channel adler pfa (codec_send adler ser (tcp_send os)) ops (mc_parse_resp mc) closure p (tc_inputBuffer c) (rcl_channel r, w))
       (\<lambda>(b, ch, w1). upd_conn p (\<lambda>c. c\<lparr>tc_inputBuffer := b\<rparr>) (put_rpc_client rc (r\<lparr>rcl_channel := ch\<rparr>) w1))))"

definition example_env ::
  "'o net_os_scheme \<Rightarrow> inet_lib \<Rightarrow> ('a mworld_scheme \<Rightarrow> ptr) \<Rightarrow>
   (ptr \<Rightarrow> ptr \<Rightarrow> 'a mworld_scheme \<Rightarrow> 'a mworld_scheme res) \<Rightarrow> 'a mworld_ext tworld_ext nworld_ext env" where
  "example_env os lib alloc onMsg n p w =
     (if n mod 4 = 2 then onConnection_rpc os lib alloc (n div 4) p w
      else onMsg (n div 4 - 2) p w)"

lemma example_callbacks:
  "client_env os lib alloc (example_env os lib alloc onMsg) (cb_rpcConnection rc) p w = onConnection_rpc os lib alloc rc p w"
  "client_env os lib alloc (example_env os lib alloc onMsg) (cb_rpcMessage rc) p w = onMsg rc p w"
proof -
  have "cb_rpcConnection rc mod 4 = 2" "cb_rpcConnection rc div 4 = rc" "cb_rpcConnection rc \<noteq> 0" "cb_rpcConnection rc \<noteq> 4"
    "cb_rpcMessage rc mod 4 = 0" "cb_rpcMessage rc div 4 = rc + 2" "cb_rpcMessage rc \<noteq> 0" "cb_rpcMessage rc \<noteq> 4"
    unfolding cb_rpcConnection_def cb_rpcMessage_def by presburger+
  then show "client_env os lib alloc (example_env os lib alloc onMsg) (cb_rpcConnection rc) p w = onConnection_rpc os lib alloc rc p w"
    "client_env os lib alloc (example_env os lib alloc onMsg) (cb_rpcMessage rc) p w = onMsg rc p w"
    by (simp_all add: client_env_def example_env_def)
qed

section \<open>Calls on a connection\<close>

lemma put_rpc_client_simps [simp]:
  "w_tid (put_rpc_client rc r w) = w_tid w" "w_chans (put_rpc_client rc r w) = w_chans w" "w_loops (put_rpc_client rc r w) = w_loops w"
  "w_trace (put_rpc_client rc r w) = w_trace w" "cw_conns (put_rpc_client rc r w) = cw_conns w"
  "nw_connectors (put_rpc_client rc r w) = nw_connectors w" "tw_clients (put_rpc_client rc r w) = tw_clients w"
  "mw_rpcs (put_rpc_client rc r w) = (mw_rpcs w)(rc \<mapsto> r)"
  by (simp_all add: put_rpc_client_def)

lemma conns_inv_put_rpc_client [simp]: "conns_inv (put_rpc_client rc r w) \<longleftrightarrow> conns_inv w"
  using conns_inv_cong [of w "put_rpc_client rc r w"] conns_inv_cong [of "put_rpc_client rc r w" w] by auto

lemma stream_put_rpc_client [simp]: "stream p (put_rpc_client rc r w) = stream p w"
  by (simp add: stream_def split: option.splits)

text \<open>The request a call sends.\<close>

definition monitor_message :: "monitor_codec \<Rightarrow> rpc_client \<Rightarrow> TestRequest \<Rightarrow> RpcMessage" where
  "monitor_message mc r request = new_RpcMessage\<lparr>rm_type := REQUEST, rm_id := rc_id (rcl_channel r) + 1, rm_service := TestService_name,
     rm_method := MonitorInfo_name, rm_request := mc_ser_req mc request\<rparr>"

lemma SetMonitorInfo_rpc_eq:
  assumes "mw_rpcs w rc = Some r" "length (ser (monitor_message mc r request)) + 8 < 2 ^ 31"
  obtains buf where "buffer_inv buf" "content buf = frame adler ser (monitor_message mc r request)"
    "SetMonitorInfo_rpc os adler ser mc rc request w = bindR (derefR (rc_conn (rcl_channel r))) (\<lambda>p. bindR (tcp_send os p buf w) (\<lambda>w1.
       Inr (put_rpc_client rc (r\<lparr>rcl_channel := (rcl_channel r)\<lparr>rc_id := rc_id (rcl_channel r) + 1, rc_outstandings :=
         (rc_outstandings (rcl_channel r))(rc_id (rcl_channel r) + 1 \<mapsto> \<lparr>oc_response = Some new_TestResponse, oc_done = Some rc\<rparr>)\<rparr>\<rparr>) w1)))"
proof -
  from assms(2) obtain buf where buf: "encode_message adler ser (monitor_message mc r request) = Inr buf" "buffer_inv buf"
    "content buf = frame adler ser (monitor_message mc r request)" by (rule encode_message_ok)
  from buf(1) assms(1) show thesis
    by (intro that [OF buf(2,3)])
      (simp add: SetMonitorInfo_rpc_def SetMonitorInfo_def CallMethod_def codec_send_def monitor_message_def Let_def bindR_assoc)
qed

text \<open>
  Once its connection is up the example client can call. \<open>onConnection\<close> gives the connection to the channel,
  and a call of \<open>SetMonitorInfo\<close> in the thread of the loop then appends exactly the frame of the request to
  the stream of the connection and makes the call outstanding under the identifier of the request, with a
  new response object and the closure of the client; no assertion fails and the invariants of all
  connections stay intact.
\<close>

theorem example_client_calls:
  assumes "epoll_ctl_contract os" "write_contract os" "peer_alive os" "conns_inv w" "cw_conns w p = Some c" "tc_state c = kConnected"
    and "isInLoopThread (tc_loop c) w" "own_fd p w" "mw_rpcs w rc = Some r" "m = monitor_message mc r request" "length (ser m) + 8 < 2 ^ 31"
  shows "\<exists>w1. onConnection_rpc os lib alloc rc p w = Inr w1 \<and>
    (SetMonitorInfo_rpc os adler ser mc rc request w1 = Inl LengthError \<or>
     (\<exists>w2 r2. SetMonitorInfo_rpc os adler ser mc rc request w1 = Inr w2 \<and> conns_inv w2 \<and> stream p w2 = stream p w @ frame adler ser m \<and>
        mw_rpcs w2 rc = Some r2 \<and> rc_conn (rcl_channel r2) = Some p \<and>
        rc_outstandings (rcl_channel r2) (rm_id m) = Some \<lparr>oc_response = Some new_TestResponse, oc_done = Some rc\<rparr>))"
proof -
  let ?r = "r\<lparr>rcl_channel := setConnection (Some p) (rcl_channel r)\<rparr>"
  let ?w = "put_rpc_client rc ?r w"
  have up: "onConnection_rpc os lib alloc rc p w = Inr ?w" using assms(5,6,9) by (simp add: onConnection_rpc_def)
  have m: "m = monitor_message mc ?r request" by (simp add: assms(10) monitor_message_def setConnection_def)
  have w: "mw_rpcs ?w rc = Some ?r" "conns_inv ?w" "cw_conns ?w p = Some c" "isInLoopThread (tc_loop c) ?w" "own_fd p ?w"
    using assms(4,5,7,8) by (simp_all add: isInLoopThread_def own_fd_def)
  have str: "stream p ?w = stream p w" by simp
  from w(1) assms(11) [unfolded m] obtain buf where buf: "buffer_inv buf" "content buf = frame adler ser m"
    and call: "SetMonitorInfo_rpc os adler ser mc rc request ?w = bindR (derefR (rc_conn (rcl_channel ?r))) (\<lambda>p. bindR (tcp_send os p buf ?w) (\<lambda>w1.
       Inr (put_rpc_client rc (?r\<lparr>rcl_channel := (rcl_channel ?r)\<lparr>rc_id := rc_id (rcl_channel ?r) + 1, rc_outstandings :=
         (rc_outstandings (rcl_channel ?r))(rc_id (rcl_channel ?r) + 1 \<mapsto> \<lparr>oc_response = Some new_TestResponse, oc_done = Some rc\<rparr>)\<rparr>\<rparr>) w1)))"
    unfolding m by (rule SetMonitorInfo_rpc_eq)
  have id: "rm_id m = rc_id (rcl_channel r) + 1" by (simp add: assms(10) monitor_message_def)
  from tcp_send_ok [OF assms(1-3) w(2,3) assms(6) w(4,5) buf(1)] consider "tcp_send os p buf ?w = Inl LengthError"
    | (ok) w2 where "tcp_send os p buf ?w = Inr w2" "conns_inv w2" "stream p w2 = stream p w @ frame adler ser m"
    unfolding str buf(2) by blast
  then show ?thesis
  proof cases
    case 1
    with up call show ?thesis by (simp add: setConnection_def)
  next
    case ok
    with up call id show ?thesis by (simp add: setConnection_def)
  qed
qed

text \<open>
  C39: two ways the example client goes down. Its thread makes the first call at once: before the
  connection is up the channel has none, and the null pointer is used. And when an established connection
  goes down, for any reason, \<open>onConnection\<close> connects again while the connector is still in state
  \<open>kConnected\<close>: the assertion of \<open>Connector::startInLoop\<close> fails inside \<open>TcpConnection::handleClose\<close>, so that a
  server that closes a connection stops its clients.
\<close>

theorem example_client_hazards:
  assumes "mw_rpcs w rc = Some r"
  shows "(rc_conn (rcl_channel r) = None \<longrightarrow> length (ser (monitor_message mc r request)) + 8 < 2 ^ 31 \<longrightarrow>
      SetMonitorInfo_rpc os adler ser mc rc request w = Inl NullPointer) \<and>
    (\<forall>p c cl cn. epoll_ctl_contract os \<longrightarrow> conns_inv w \<longrightarrow> cw_conns w p = Some c \<longrightarrow> up c \<longrightarrow> tc_connectionCb c = Some (cb_rpcConnection rc) \<longrightarrow>
      tw_clients w (rcl_client r) = Some cl \<longrightarrow> nw_connectors w (cl_connector cl) = Some cn \<longrightarrow> cn_state cn = cConnected \<longrightarrow>
      inet_ok lib (cn_serverAddr cn) \<longrightarrow> isInLoopThread (cn_loop cn) w \<longrightarrow>
      handleClose_conn (client_env os lib alloc (example_env os lib alloc onMsg)) os p w = Inl AssertFailure)"
proof (intro conjI allI impI)
  assume none: "rc_conn (rcl_channel r) = None" and short: "length (ser (monitor_message mc r request)) + 8 < 2 ^ 31"
  from assms short show "SetMonitorInfo_rpc os adler ser mc rc request w = Inl NullPointer"
    by (rule SetMonitorInfo_rpc_eq [where adler = adler and os = os]) (simp add: none)
next
  fix p c cl cn
  assume os: "epoll_ctl_contract os" and inv: "conns_inv w" and p: "cw_conns w p = Some c" "up c" "tc_connectionCb c = Some (cb_rpcConnection rc)"
    and cl: "tw_clients w (rcl_client r) = Some cl" "nw_connectors w (cl_connector cl) = Some cn" "cn_state cn = cConnected"
    and addr: "inet_ok lib (cn_serverAddr cn)" and thr: "isInLoopThread (cn_loop cn) w"
  from os inv p(1) obtain u where u: "disableAll os (tc_channel c) (put_conn p (c\<lparr>tc_state := kDisconnected\<rparr>) w) = Inr u"
    "evolves forward w u" "cw_conns u p = Some (c\<lparr>tc_state := kDisconnected\<rparr>)" "cworld.more u = cworld.more w" by (rule disableAll_closed)
  have more: "mw_rpcs u = mw_rpcs w" "tw_clients u = tw_clients w" "nw_connectors u = nw_connectors w"
    using u(4) by (cases u, cases w, simp add: nworld.defs tworld.defs mworld.defs)+
  have thr': "isInLoopThread (cn_loop cn) u" using thr u(2) by (simp add: isInLoopThread_def evolves_def loop_frame_def)
  have "connect_client os lib alloc (rcl_client r) u = Inl AssertFailure"
    using cl thr' toIpPort_ok [OF addr]
    by (simp add: connect_client_def start_connector_def runInLoop_def isInLoopThread_def startInLoop_connector_def more)
  then have "call_cb (client_env os lib alloc (example_env os lib alloc onMsg)) (tc_connectionCb c) p u = Inl AssertFailure"
    using assms u(3) by (simp add: call_cb_def p(3) example_callbacks onConnection_rpc_def connect_rpc_def more)
  then show "handleClose_conn (client_env os lib alloc (example_env os lib alloc onMsg)) os p w = Inl AssertFailure"
    using handleClose_steps [OF p(1,2), of "client_env os lib alloc (example_env os lib alloc onMsg)" os] u(1) by simp
qed

section \<open>A client to evaluate on\<close>

definition model_rpc_client :: rpc_client where
  "model_rpc_client = \<lparr>rcl_loop = 0, rcl_client = 50, rcl_channel = mk_RpcChannel 0 None\<rparr>"

text \<open>A connection at address 3 that is up, its client at 50, the connector at 40 and the example's object at 60.\<close>

definition model_mworld :: mworld where
  "model_mworld = \<lparr>w_tid = 1, w_chans = [7 \<mapsto> model_conn_channel], w_loops = w_loops model_world, w_trace = w_trace model_world,
     cw_conns = [3 \<mapsto> model_conn\<lparr>tc_connectionCb := Some (cb_rpcConnection 60)\<rparr>],
     nw_connectors = [40 \<mapsto> model_connector\<lparr>cn_state := cConnected\<rparr>], tw_clients = [50 \<mapsto> model_tclient\<lparr>cl_connection := Some 3\<rparr>],
     mw_rpcs = [60 \<mapsto> model_rpc_client]\<rparr>"

lemma model_mworld_inv: "conns_inv model_mworld"
proof -
  have "registry_inv l model_mworld" for l
    by (rule registry_inv_intro)
      (auto simp: model_mworld_def model_conn_defs model_defs mk_Poller_def interest_def index_defs split: if_splits)
  then have "reactor_inv model_mworld"
    by (auto simp: reactor_inv_def fds_unique_def model_mworld_def split: if_splits)
  moreover have "conn_ok 3 (model_conn\<lparr>tc_connectionCb := Some (cb_rpcConnection 60)\<rparr>) model_mworld"
    by (simp add: model_mworld_def conn_ok_def model_conn_defs model_channel_def linked_def state_ok_def
        isWriting_bit plain_events_def ReadEvent_def WriteEvent_def poll_defs index_defs bit_1_iff)
  ultimately show ?thesis by (auto simp: conns_inv_def model_mworld_def split: if_splits)
qed

lemma model_mworld_facts:
  "cw_conns model_mworld 3 = Some (model_conn\<lparr>tc_connectionCb := Some (cb_rpcConnection 60)\<rparr>)" "mw_rpcs model_mworld 60 = Some model_rpc_client"
  "isInLoopThread l model_mworld" "own_fd 3 model_mworld" "tc_state model_conn = kConnected"
  by (simp_all add: model_mworld_def isInLoopThread_def own_fd_def model_conn_def model_defs)

lemma model_peer_os_writes: "write_contract model_peer_os" "peer_alive model_peer_os"
  using model_os_contracts by (simp_all add: write_contract_def peer_alive_def model_peer_os_def os.defs net_os.defs)

theorem example_client_calls_witness:
  "\<exists>w1. onConnection_rpc model_peer_os model_lib model_alloc 60 3 model_mworld = Inr w1 \<and>
    (SetMonitorInfo_rpc model_peer_os adler32_ref echo_ser model_codec 60 new_TestRequest w1 = Inl LengthError \<or>
     (\<exists>w2. SetMonitorInfo_rpc model_peer_os adler32_ref echo_ser model_codec 60 new_TestRequest w1 = Inr w2 \<and>
        stream 3 w2 = stream 3 model_mworld @ frame adler32_ref echo_ser (monitor_message model_codec model_rpc_client new_TestRequest)))"
proof -
  have st: "tc_state (model_conn\<lparr>tc_connectionCb := Some (cb_rpcConnection 60)\<rparr>) = kConnected" using model_mworld_facts(5) by simp
  have "length (echo_ser m) + 8 < 2 ^ 31" for m by simp
  from example_client_calls [where lib = model_lib and alloc = model_alloc and adler = adler32_ref and ser = echo_ser and mc = model_codec and request = new_TestRequest,
      OF model_peer_os_ok(1) model_peer_os_writes model_mworld_inv model_mworld_facts(1) st model_mworld_facts(3,4,2) refl this]
  show ?thesis by blast
qed

theorem example_client_hazards_witness:
  "SetMonitorInfo_rpc model_peer_os adler32_ref echo_ser model_codec 60 new_TestRequest model_mworld = Inl NullPointer \<and>
   handleClose_conn (client_env model_peer_os model_lib model_alloc (example_env model_peer_os model_lib model_alloc (\<lambda>_ _. Inr))) model_peer_os 3
     model_mworld = Inl AssertFailure"
proof -
  have up: "up (model_conn\<lparr>tc_connectionCb := Some (cb_rpcConnection 60)\<rparr>)" using model_mworld_facts(5) by (simp add: up_def)
  have cl: "tw_clients model_mworld (rcl_client model_rpc_client) = Some (model_tclient\<lparr>cl_connection := Some 3\<rparr>)"
    "nw_connectors model_mworld (cl_connector (model_tclient\<lparr>cl_connection := Some 3\<rparr>)) = Some (model_connector\<lparr>cn_state := cConnected\<rparr>)"
    by (simp_all add: model_mworld_def model_rpc_client_def model_tclient_def)
  have addr: "inet_ok model_lib (cn_serverAddr (model_connector\<lparr>cn_state := cConnected\<rparr>))"
    by (simp add: model_connector_def setNewConnectionCallback_connector_def mk_Connector_def model_lib_ok)
  have none: "rc_conn (rcl_channel model_rpc_client) = None" by (simp add: model_rpc_client_def mk_RpcChannel_def)
  show ?thesis
    using example_client_hazards [where ser = echo_ser and mc = model_codec and request = new_TestRequest and os = model_peer_os and adler = adler32_ref
        and lib = model_lib and alloc = model_alloc and onMsg = "\<lambda>_ _. Inr", OF model_mworld_facts(2)]
      none model_peer_os_ok(1) model_mworld_inv model_mworld_facts(1,3) up cl addr by simp
qed

end
