(* ===== verification/SocketOptions.thy ===== *)
theory SocketOptions
  imports Sockets TcpConnection
begin

text \<open>
  The rest of \<open>network/src/SocketsOps.cc\<close> and \<open>network/src/Socket.cc\<close>: flags and options of descriptors and the
  statistics of a connection. These calls change nothing the other theories look at, so the kernel is
  a state of its own here; which flags and options a descriptor has is a function of that state.
\<close>

section \<open>The kernel\<close>

text \<open>\<open>struct tcp_info\<close>, as far as it is printed.\<close>

record tcp_info =
  tcpi_retransmits :: "8 word"
  tcpi_rto :: "32 word"
  tcpi_ato :: "32 word"
  tcpi_snd_mss :: "32 word"
  tcpi_rcv_mss :: "32 word"
  tcpi_lost :: "32 word"
  tcpi_retrans :: "32 word"
  tcpi_rtt :: "32 word"
  tcpi_rttvar :: "32 word"
  tcpi_snd_ssthresh :: "32 word"
  tcpi_snd_cwnd :: "32 word"
  tcpi_total_retrans :: "32 word"

text \<open>\<open>fcntl\<close> and \<open>setsockopt\<close> give their result, -1 for a failure; \<open>getsockopt\<close> with \<open>TCP_INFO\<close> may fail.\<close>

datatype fcntl_cmd = F_GETFL | F_SETFL | F_GETFD | F_SETFD

record 'k fd_os =
  fo_fcntl :: "fd \<Rightarrow> fcntl_cmd \<Rightarrow> 32 word \<Rightarrow> 'k \<Rightarrow> 32 word \<times> 'k"
  fo_setsockopt :: "fd \<Rightarrow> int \<Rightarrow> int \<Rightarrow> int \<Rightarrow> 'k \<Rightarrow> int \<times> 'k"
  fo_tcp_info :: "fd \<Rightarrow> 'k \<Rightarrow> tcp_info option"

unbundle bit_operations_syntax

definition O_NONBLOCK :: "32 word" where "O_NONBLOCK = 0x800"
definition FD_CLOEXEC :: "32 word" where "FD_CLOEXEC = 1"
definition SOL_SOCKET :: int where "SOL_SOCKET = 1"
definition SO_REUSEADDR :: int where "SO_REUSEADDR = 2"
definition SO_KEEPALIVE :: int where "SO_KEEPALIVE = 9"
definition SO_REUSEPORT :: int where "SO_REUSEPORT = 15"
definition IPPROTO_TCP :: int where "IPPROTO_TCP = 6"
definition TCP_NODELAY :: int where "TCP_NODELAY = 1"

lemmas option_defs = SOL_SOCKET_def SO_REUSEADDR_def SO_KEEPALIVE_def SO_REUSEPORT_def IPPROTO_TCP_def TCP_NODELAY_def

section \<open>SocketsOps.cc\<close>

definition setNonBlockAndCloseOnExec :: "'k fd_os \<Rightarrow> fd \<Rightarrow> 'k \<Rightarrow> 'k" where
  "setNonBlockAndCloseOnExec fo sockfd k =
     (let (flags, k1) = fo_fcntl fo sockfd F_GETFL 0 k;
          (ret, k2) = fo_fcntl fo sockfd F_SETFL (flags OR O_NONBLOCK) k1;
          (flags', k3) = fo_fcntl fo sockfd F_GETFD 0 k2;
          (ret', k4) = fo_fcntl fo sockfd F_SETFD (flags' OR FD_CLOEXEC) k3 in
      k4)"

section \<open>Socket.cc\<close>

definition optval :: "bool \<Rightarrow> int" where
  "optval on = (if on then 1 else 0)"

definition setTcpNoDelay :: "'k fd_os \<Rightarrow> fd \<Rightarrow> bool \<Rightarrow> 'k \<Rightarrow> 'k" where
  "setTcpNoDelay fo sockfd on k = snd (fo_setsockopt fo sockfd IPPROTO_TCP TCP_NODELAY (optval on) k)"

definition setReuseAddr :: "'k fd_os \<Rightarrow> fd \<Rightarrow> bool \<Rightarrow> 'k \<Rightarrow> 'k" where
  "setReuseAddr fo sockfd on k = snd (fo_setsockopt fo sockfd SOL_SOCKET SO_REUSEADDR (optval on) k)"

text \<open>The result says whether the failure is logged.\<close>

definition setReusePort :: "'k fd_os \<Rightarrow> fd \<Rightarrow> bool \<Rightarrow> 'k \<Rightarrow> bool \<times> 'k" where
  "setReusePort fo sockfd on k =
     (let (ret, k1) = fo_setsockopt fo sockfd SOL_SOCKET SO_REUSEPORT (optval on) k in (ret < 0 \<and> on, k1))"

definition setKeepAlive :: "'k fd_os \<Rightarrow> fd \<Rightarrow> bool \<Rightarrow> 'k \<Rightarrow> 'k" where
  "setKeepAlive fo sockfd on k = snd (fo_setsockopt fo sockfd SOL_SOCKET SO_KEEPALIVE (optval on) k)"

text \<open>\<open>memset\<close> clears the structure first.\<close>

definition zero_tcp_info :: tcp_info where
  "zero_tcp_info = \<lparr>tcpi_retransmits = 0, tcpi_rto = 0, tcpi_ato = 0, tcpi_snd_mss = 0, tcpi_rcv_mss = 0, tcpi_lost = 0,
     tcpi_retrans = 0, tcpi_rtt = 0, tcpi_rttvar = 0, tcpi_snd_ssthresh = 0, tcpi_snd_cwnd = 0, tcpi_total_retrans = 0\<rparr>"

definition getTcpInfo :: "'k fd_os \<Rightarrow> fd \<Rightarrow> 'k \<Rightarrow> bool \<times> tcp_info" where
  "getTcpInfo fo sockfd k = (case fo_tcp_info fo sockfd k of None \<Rightarrow> (False, zero_tcp_info) | Some tcpi \<Rightarrow> (True, tcpi))"

definition uint_text :: "'a::len word \<Rightarrow> string" where
  "uint_text x = decimal (unat x)"

definition tcp_info_text :: "tcp_info \<Rightarrow> string" where
  "tcp_info_text t = ''unrecovered='' @ uint_text (tcpi_retransmits t) @ '' rto='' @ uint_text (tcpi_rto t) @
     '' ato='' @ uint_text (tcpi_ato t) @ '' snd_mss='' @ uint_text (tcpi_snd_mss t) @ '' rcv_mss='' @ uint_text (tcpi_rcv_mss t) @
     '' lost='' @ uint_text (tcpi_lost t) @ '' retrans='' @ uint_text (tcpi_retrans t) @ '' rtt='' @ uint_text (tcpi_rtt t) @
     '' rttvar='' @ uint_text (tcpi_rttvar t) @ '' sshthresh='' @ uint_text (tcpi_snd_ssthresh t) @
     '' cwnd='' @ uint_text (tcpi_snd_cwnd t) @ '' total_retrans='' @ uint_text (tcpi_total_retrans t)"

text \<open>The buffer keeps what it held when the call fails.\<close>

definition getTcpInfoString_socket :: "'k fd_os \<Rightarrow> fd \<Rightarrow> string \<Rightarrow> nat \<Rightarrow> 'k \<Rightarrow> bool \<times> string" where
  "getTcpInfoString_socket fo sockfd buf len k =
     (let (ok, tcpi) = getTcpInfo fo sockfd k in (ok, if ok then snprintf len (tcp_info_text tcpi) else buf))"

section \<open>TcpConnection.cc\<close>

definition getTcpInfo_conn :: "'k fd_os \<Rightarrow> tcp_connection \<Rightarrow> 'k \<Rightarrow> bool \<times> tcp_info" where
  "getTcpInfo_conn fo c k = getTcpInfo fo (tc_sockfd c) k"

definition getTcpInfoString :: "'k fd_os \<Rightarrow> tcp_connection \<Rightarrow> 'k \<Rightarrow> string" where
  "getTcpInfoString fo c k = snd (getTcpInfoString_socket fo (tc_sockfd c) '''' 1024 k)"

definition setTcpNoDelay_conn :: "'k fd_os \<Rightarrow> tcp_connection \<Rightarrow> bool \<Rightarrow> 'k \<Rightarrow> 'k" where
  "setTcpNoDelay_conn fo c on k = setTcpNoDelay fo (tc_sockfd c) on k"

fun stateToString :: "StateE \<Rightarrow> string" where
  "stateToString kDisconnected = ''kDisconnected''"
| "stateToString kConnecting = ''kConnecting''"
| "stateToString kConnected = ''kConnected''"
| "stateToString kDisconnecting = ''kDisconnecting''"

text \<open>The text \<open>defaultConnectionCallback\<close> writes to the log, from the texts of the two addresses.\<close>

definition defaultConnectionCallback :: "string \<Rightarrow> string \<Rightarrow> tcp_connection \<Rightarrow> string" where
  "defaultConnectionCallback localAddr peerAddr c =
     localAddr @ '' -> '' @ peerAddr @ '' is '' @ (if tc_state c = kConnected then ''UP'' else ''DOWN'')"

section \<open>Flags and options\<close>

text \<open>
  What \<open>fcntl\<close> does, for a view of the kernel that gives the status flags and the descriptor flags of
  the open descriptors: reading changes nothing, \<open>F_SETFL\<close> replaces the flags that may be changed
  (\<open>settable\<close>, with \<open>O_NONBLOCK\<close> among them), \<open>F_SETFD\<close> replaces the descriptor flags, and every call on a
  descriptor that is not open fails without effect.
\<close>

definition fcntl_contract :: "32 word \<Rightarrow> 'k fd_os \<Rightarrow> ('k \<Rightarrow> fd \<rightharpoonup> 32 word \<times> 32 word) \<Rightarrow> bool" where
  "fcntl_contract settable fo view \<longleftrightarrow> settable AND O_NONBLOCK = O_NONBLOCK \<and>
     (\<forall>k fd x cmd. view k fd = None \<longrightarrow> fo_fcntl fo fd cmd x k = (- 1, k)) \<and>
     (\<forall>k fd x s d. view k fd = Some (s, d) \<longrightarrow> fo_fcntl fo fd F_GETFL x k = (s, k) \<and> fo_fcntl fo fd F_GETFD x k = (d, k) \<and>
        view (snd (fo_fcntl fo fd F_SETFL x k)) = (view k)(fd \<mapsto> ((s AND NOT settable) OR (x AND settable), d)) \<and>
        view (snd (fo_fcntl fo fd F_SETFD x k)) = (view k)(fd \<mapsto> (s, x)))"

lemma masked_flag:
  assumes "settable AND f = f"
  shows "(s AND NOT settable) OR ((s OR f) AND settable) = s OR (f :: 32 word)"
proof (rule bit_eqI)
  fix n
  have "bit f n \<Longrightarrow> bit settable n" using assms by (metis bit_and_iff)
  then show "bit ((s AND NOT settable) OR ((s OR f) AND settable)) n \<longleftrightarrow> bit (s OR f) n"
    using bit_imp_le_length [of s n] by (auto simp: bit_and_iff bit_or_iff bit_not_iff)
qed

text \<open>
  \<open>setNonBlockAndCloseOnExec\<close> does what its name says: the descriptor gets the two flags and keeps all its
  others, other descriptors stay as they are, and on a descriptor that is not open (\<open>accept\<close> hands it the
  result of a failed call) nothing happens.
\<close>

theorem setNonBlockAndCloseOnExec_ok:
  assumes "fcntl_contract settable fo view"
  shows "view (setNonBlockAndCloseOnExec fo fd k) =
    (case view k fd of None \<Rightarrow> view k | Some (s, d) \<Rightarrow> (view k)(fd \<mapsto> (s OR O_NONBLOCK, d OR FD_CLOEXEC)))"
proof (cases "view k fd")
  case None
  then have "fo_fcntl fo fd cmd x k = (- 1, k)" for cmd x using assms by (simp add: fcntl_contract_def)
  with None show ?thesis by (simp add: setNonBlockAndCloseOnExec_def)
next
  case (Some v)
  obtain s d where v: "v = (s, d)" by force
  define k2 where "k2 = snd (fo_fcntl fo fd F_SETFL (s OR O_NONBLOCK) k)"
  have m: "settable AND O_NONBLOCK = O_NONBLOCK" using assms by (simp add: fcntl_contract_def)
  have get: "fo_fcntl fo fd F_GETFL 0 k = (s, k)" using assms Some by (simp add: fcntl_contract_def v)
  have v2: "view k2 = (view k)(fd \<mapsto> (s OR O_NONBLOCK, d))"
    using assms Some by (simp add: fcntl_contract_def v k2_def masked_flag [OF m])
  then have "view k2 fd = Some (s OR O_NONBLOCK, d)" by simp
  then have set: "fo_fcntl fo fd F_GETFD 0 k2 = (d, k2)"
    "view (snd (fo_fcntl fo fd F_SETFD (d OR FD_CLOEXEC) k2)) = (view k2)(fd \<mapsto> (s OR O_NONBLOCK, d OR FD_CLOEXEC))"
    using assms unfolding fcntl_contract_def by blast+
  have "setNonBlockAndCloseOnExec fo fd k = snd (fo_fcntl fo fd F_SETFD (d OR FD_CLOEXEC) k2)"
    using set(1) by (simp add: setNonBlockAndCloseOnExec_def get k2_def case_prod_beta Let_def)
  with set(2) show ?thesis by (simp add: Some v v2)
qed

text \<open>The options of a socket are independent of each other and of those of other sockets.\<close>

definition setsockopt_contract :: "'k fd_os \<Rightarrow> ('k \<Rightarrow> fd \<times> int \<times> int \<rightharpoonup> int) \<Rightarrow> bool" where
  "setsockopt_contract fo opts \<longleftrightarrow> (\<forall>k fd lev name x. fst (fo_setsockopt fo fd lev name x k) \<ge> 0 \<longrightarrow>
     opts (snd (fo_setsockopt fo fd lev name x k)) = (opts k)((fd, lev, name) \<mapsto> x))"

lemma options_set:
  assumes "setsockopt_contract fo opts" "\<And>fd lev name x k. fst (fo_setsockopt fo fd lev name x k) \<ge> 0"
  shows "opts (setReuseAddr fo fd on (setKeepAlive fo fd ka (setTcpNoDelay fo fd nd (snd (setReusePort fo fd rp k))))) =
    (opts k)((fd, SOL_SOCKET, SO_REUSEPORT) \<mapsto> optval rp, (fd, IPPROTO_TCP, TCP_NODELAY) \<mapsto> optval nd,
      (fd, SOL_SOCKET, SO_KEEPALIVE) \<mapsto> optval ka, (fd, SOL_SOCKET, SO_REUSEADDR) \<mapsto> optval on)"
  using assms by (simp add: setsockopt_contract_def setReuseAddr_def setKeepAlive_def setTcpNoDelay_def setReusePort_def case_prod_beta)

section \<open>The text of the statistics\<close>

lemma uint_text_inject [simp]: "uint_text x = uint_text y \<longleftrightarrow> x = y"
  by (simp add: uint_text_def word_unat_eq_iff)

lemma uint_text_field [simp]: "uint_text x @ CHR '' '' # xs = uint_text y @ CHR '' '' # ys \<longleftrightarrow> x = y \<and> xs = ys"
proof
  assume eq: "uint_text x @ CHR '' '' # xs = uint_text y @ CHR '' '' # ys"
  have no: "CHR '' '' \<notin> set (uint_text z)" for z :: "'a word" using decimal_digits [of "CHR '' ''"] by (auto simp: uint_text_def)
  have "takeWhile ((\<noteq>) (CHR '' '')) (uint_text z @ CHR '' '' # zs) = uint_text z" for z :: "'a word" and zs
    using no by (subst takeWhile_append2) auto
  with eq have "uint_text x = uint_text y" by metis
  with eq show "x = y \<and> xs = ys" by simp
qed simp

lemma length_uint_text: "length (uint_text (x :: 32 word)) \<le> 10" "length (uint_text (y :: 8 word)) \<le> 3"
proof -
  have "unat x < 10 ^ Suc 9" using unsigned_less [of x, where 'a = nat] by simp
  from length_decimal [OF this] show "length (uint_text x) \<le> 10" by (simp add: uint_text_def)
  have "unat y < 10 ^ Suc 2" using unsigned_less [of y, where 'a = nat] by simp
  from length_decimal [OF this] show "length (uint_text y) \<le> 3" by (simp add: uint_text_def)
qed

lemma tcp_info_text_inject: "tcp_info_text t = tcp_info_text u \<Longrightarrow> t = u"
  by (cases t, cases u) (simp add: tcp_info_text_def)

lemma length_tcp_info_text: "length (tcp_info_text t) < 1024"
proof -
  have d: "length (uint_text (f t)) \<le> 10" for f :: "tcp_info \<Rightarrow> 32 word" by (rule length_uint_text)
  from d [of tcpi_rto] d [of tcpi_ato] d [of tcpi_snd_mss] d [of tcpi_rcv_mss] d [of tcpi_lost] d [of tcpi_retrans]
    d [of tcpi_rtt] d [of tcpi_rttvar] d [of tcpi_snd_ssthresh] d [of tcpi_snd_cwnd] d [of tcpi_total_retrans]
    length_uint_text(2) [of "tcpi_retransmits t"]
  show ?thesis by (simp add: tcp_info_text_def)
qed

text \<open>
  \<open>getTcpInfoString\<close> says everything: the buffer of 1024 characters is never too small, and two different
  sets of statistics never have the same text.
\<close>

theorem getTcpInfoString_complete:
  assumes "fo_tcp_info fo (tc_sockfd c) k = Some t" "fo_tcp_info fo' (tc_sockfd c') k' = Some t'"
  shows "getTcpInfoString fo c k = tcp_info_text t \<and> (getTcpInfoString fo c k = getTcpInfoString fo' c' k' \<longrightarrow> t = t')"
proof -
  have "snprintf 1024 (tcp_info_text x) = tcp_info_text x" for x by (rule snprintf_all [OF length_tcp_info_text])
  with assms show ?thesis
    using tcp_info_text_inject by (auto simp: getTcpInfoString_def getTcpInfoString_socket_def getTcpInfo_def)
qed

lemma getTcpInfoString_fails: "fo_tcp_info fo (tc_sockfd c) k = None \<Longrightarrow> getTcpInfoString fo c k = []"
  by (simp add: getTcpInfoString_def getTcpInfoString_socket_def getTcpInfo_def)

lemma stateToString_inject: "stateToString a = stateToString b \<longleftrightarrow> a = b"
  by (cases a; cases b) simp_all

end
