(* ===== verification/ProcessState.thy ===== *)
theory ProcessState
  imports Startup
begin

text \<open>
  \<open>network/util.h\<close>, \<open>network/src/util.cc\<close> and the state a thread keeps for itself: the loop of the current
  thread (\<open>t_loopInThisThread\<close> in \<open>EventLoop.cc\<close>).
\<close>

section \<open>util.cc\<close>

text \<open>The two variables are static and nothing assigns to them; the system calls are arguments.\<close>

definition g_pid :: int where "g_pid = 0"
definition t_thread_id :: int where "t_thread_id = 0"

definition getPid :: "int \<Rightarrow> int" where
  "getPid getpid = (if g_pid \<noteq> 0 then g_pid else getpid)"

definition getThreadId :: "int \<Rightarrow> int" where
  "getThreadId gettid = (if t_thread_id \<noteq> 0 then t_thread_id else gettid)"

text \<open>\<open>int64_t\<close> arithmetic on the two fields of a \<open>timeval\<close>; the division truncates towards zero.\<close>

definition getNowMs :: "64 word \<Rightarrow> 64 word \<Rightarrow> 64 word" where
  "getNowMs tv_sec tv_usec = tv_sec * 1000 + (if sint tv_usec < 0 then - word_of_int (- sint tv_usec div 1000) else word_of_int (sint tv_usec div 1000))"

definition getInt32FromNetByte :: "byte list \<Rightarrow> 32 word res" where
  "getInt32FromNetByte buf = bindR (mem_read buf 0 4) (\<lambda>d. Inr (networkToHost32 (bytes_word d)))"

text \<open>\<open>getThreadId\<close> is the identity of the calling thread, in every thread.\<close>

lemma getThreadId_current: "getThreadId tid = tid"
  by (simp add: getThreadId_def t_thread_id_def)

text \<open>
  \<open>getNowMs\<close> neither overflows nor goes back for the next hundred million years: for a normal \<open>timeval\<close> it is
  the number of whole milliseconds.
\<close>

theorem getNowMs_exact:
  assumes "0 \<le> s" "s < 2 ^ 53" "0 \<le> u" "u < 1000000"
  shows "sint (getNowMs (word_of_int s) (word_of_int u)) = (s * 1000000 + u) div 1000"
proof -
  have small: "sint (word_of_int x :: 64 word) = x" if "0 \<le> x" "x < 2 ^ 63" for x
    using that sint_sbintrunc' [of x, where ?'a = 64] by (simp add: signed_take_bit_int_eq_self)
  have ms: "0 \<le> u div 1000" "u div 1000 < 1000" using assms(3,4) div_mult_mod_eq [of u 1000] pos_mod_bound [of 1000 u] pos_mod_sign [of 1000 u] by linarith+
  have "getNowMs (word_of_int s) (word_of_int u) = word_of_int (s * 1000 + u div 1000)"
    using assms small [of u] by (simp add: getNowMs_def)
  moreover have "sint (word_of_int (s * 1000 + u div 1000) :: 64 word) = s * 1000 + u div 1000"
    using assms ms by (intro small) simp_all
  moreover have "(s * 1000000 + u) div 1000 = s * 1000 + u div 1000"
    using div_mult_self1 [of 1000 u "s * 1000"] by (simp add: algebra_simps)
  ultimately show ?thesis by simp
qed

text \<open>
  \<open>getInt32FromNetByte\<close> and \<open>Buffer::peekInt32\<close> read the same number from the same bytes, and read back what
  \<open>Buffer::appendInt32\<close> wrote.
\<close>

theorem getInt32FromNetByte_peek:
  assumes "buffer_inv b" "4 \<le> length (content b)"
  shows "getInt32FromNetByte (content b) = peekInt32 b"
proof -
  have "peek_mem b 4 = Inr (take 4 (content b))" using assms length_content [OF assms(1)] by (intro peek_mem_content) simp_all
  moreover have "mem_read (content b) 0 4 = Inr (take 4 (content b))" using assms(2) by (simp add: mem_read_def)
  moreover have "4 \<le> readableBytes b" using assms length_content [OF assms(1)] by simp
  ultimately show ?thesis by (simp add: getInt32FromNetByte_def peekInt32_def assertR_hold)
qed

section \<open>The loop of a thread\<close>

type_synonym thread_locals = "int \<rightharpoonup> ptr"

definition getEventLoopOfCurrentThread :: "thread_locals \<Rightarrow> 'a world_scheme \<Rightarrow> ptr option" where
  "getEventLoopOfCurrentThread tls w = tls (w_tid w)"

definition createEventfd :: "fd \<Rightarrow> fd res" where
  "createEventfd evtfd = (if evtfd < 0 then Inl FatalLog else Inr evtfd)"

text \<open>The constructor and the destructor with the variable they keep; \<open>evtfd\<close> is the result of \<open>eventfd\<close>.\<close>

definition new_EventLoop ::
  "'o os_scheme \<Rightarrow> int \<Rightarrow> ptr \<Rightarrow> ptr \<Rightarrow> fd \<Rightarrow> thread_locals \<times> 'a world_scheme \<Rightarrow> (thread_locals \<times> 'a world_scheme) res" where
  "new_EventLoop os junk l wakeupChannel evtfd = (\<lambda>(tls, w).
     bindR (createEventfd evtfd) (\<lambda>wakeupFd.
     bindR (mk_EventLoop os (tls (w_tid w)) junk l wakeupChannel wakeupFd w) (\<lambda>w1.
       Inr (tls(w_tid w \<mapsto> l), w1))))"

definition free_EventLoop ::
  "'o os_scheme \<Rightarrow> ptr \<Rightarrow> ptr \<Rightarrow> thread_locals \<times> 'a world_scheme \<Rightarrow> (thread_locals \<times> 'a world_scheme) res" where
  "free_EventLoop os l wakeupChannel = (\<lambda>(tls, w).
     bindR (delete_EventLoop os l wakeupChannel w) (\<lambda>w1. Inr (tls(w_tid w := None), w1)))"

text \<open>
  One loop per thread: in a thread without one the constructor succeeds and makes the loop that of the
  current thread; a second loop in this thread stops the program; after the destructor there is
  none again. Other threads are not affected.
\<close>

theorem one_loop_per_thread:
  assumes "epoll_ctl_contract os" "reactor_inv w" "w_chans w c = None" "loop_unused l w" "0 \<le> fd" "tls (w_tid w) = None"
  shows "\<exists>tls1 w1. new_EventLoop os junk l c fd (tls, w) = Inr (tls1, w1) \<and> getEventLoopOfCurrentThread tls1 w1 = Some l \<and>
    (\<forall>t. t \<noteq> w_tid w \<longrightarrow> tls1 t = tls t) \<and>
    (\<forall>l' c' fd'. new_EventLoop os junk l' c' fd' (tls1, w1) = Inl FatalLog) \<and>
    (\<exists>w2. free_EventLoop os l c (tls1, w1) = Inr (tls, w2) \<and> reactor_inv w2)"
proof -
  from mk_EventLoop_ok [OF assms(1-4), of junk fd] obtain w1 where w1: "mk_EventLoop os None junk l c fd w = Inr w1" "idle_loop l c fd w1" by blast
  have tid: "w_tid w1 = w_tid w" using w1(1) by (rule mk_EventLoop_effect)
  from delete_EventLoop_ok [OF assms(1) w1(2)] obtain w2 where w2: "delete_EventLoop os l c w1 = Inr w2" "reactor_inv w2" by blast
  let ?tls = "tls(w_tid w \<mapsto> l)"
  have "new_EventLoop os junk l' c' fd' (?tls, w1) = Inl FatalLog" for l' c' fd'
    using tid by (simp add: new_EventLoop_def createEventfd_def mk_EventLoop_def Let_def)
  moreover have "?tls(w_tid w := None) = tls" using assms(6) by auto
  ultimately show ?thesis
    using w1(1) w2 assms(5,6) tid
    by (intro exI [of _ ?tls] exI [of _ w1]) (simp add: new_EventLoop_def free_EventLoop_def createEventfd_def getEventLoopOfCurrentThread_def)
qed

end
