(* ===== verification/ThreadLocal.thy ===== *)
theory ThreadLocal
  imports Prelude
begin

text \<open>
  \<open>src/examples/thread_local.cc\<close>: two threads that each make an object on first use and keep it in a
  \<open>thread_local\<close> variable. Their insertions into \<open>std::cout\<close> interleave freely.
\<close>

section \<open>The program\<close>

text \<open>
  What \<open>std::cout\<close> shows. A pointer to a member function has no inserter of its own and is converted to
  \<open>bool\<close>; the address of the only member of an object is that of the object.
\<close>

datatype shown = Text string | Id int | Address nat | Bool bool | Endl

datatype item = Lit string | ThreadId | This | MemberFunction | MemberVariable | NewLine

datatype action = Acquire | Insert item

record tl_state =
  tl_loop :: "int \<rightharpoonup> nat" \<comment> \<open>\<open>t_loopInThisThread\<close>, by thread\<close>
  tl_heap :: "nat \<rightharpoonup> int" \<comment> \<open>the objects: their \<open>threadId\<close>\<close>
  tl_out :: "(int \<times> shown) list" \<comment> \<open>with the thread that wrote it\<close>
  tl_todo :: "int \<Rightarrow> action list"

fun insert_item :: "nat \<Rightarrow> int \<Rightarrow> item \<Rightarrow> shown" where
  "insert_item p threadId (Lit s) = Text s"
| "insert_item p threadId ThreadId = Id threadId"
| "insert_item p threadId This = Address p"
| "insert_item p threadId MemberFunction = Bool True"
| "insert_item p threadId MemberVariable = Address p"
| "insert_item p threadId NewLine = Endl"

definition printThreadId :: "item list" where
  "printThreadId = [Lit ''Thread ID: '', ThreadId, NewLine, Lit '' this '', This, NewLine]"

definition printMemberFunctionAddress :: "item list" where
  "printMemberFunctionAddress = [Lit ''Member Function Address: '', MemberFunction, NewLine]"

definition printMemberVariableAddress :: "item list" where
  "printMemberVariableAddress = [Lit ''Member Variable Address: '', MemberVariable, NewLine]"

definition printed :: "item list" where
  "printed = printThreadId @ printMemberFunctionAddress @ printMemberVariableAddress"

definition threadFunction :: "action list" where
  "threadFunction = Acquire # map Insert printed"

text \<open>One action of thread \<open>t\<close>; \<open>p\<close> is where \<open>new\<close> puts an object if it is called.\<close>

fun run_action :: "nat \<Rightarrow> int \<Rightarrow> action \<Rightarrow> tl_state \<Rightarrow> tl_state res" where
  "run_action p t Acquire s =
     (if tl_loop s t = None then Inr (s\<lparr>tl_loop := (tl_loop s)(t \<mapsto> p), tl_heap := (tl_heap s)(p \<mapsto> t)\<rparr>) else Inr s)"
| "run_action p t (Insert i) s =
     bindR (derefR (tl_loop s t)) (\<lambda>q. bindR (derefR (tl_heap s q)) (\<lambda>threadId.
       Inr (s\<lparr>tl_out := tl_out s @ [(t, insert_item q threadId i)]\<rparr>)))"

definition tl_start :: "int \<Rightarrow> int \<Rightarrow> tl_state" where
  "tl_start t1 t2 = \<lparr>tl_loop = Map.empty, tl_heap = Map.empty, tl_out = [],
     tl_todo = (\<lambda>t. if t = t1 \<or> t = t2 then threadFunction else [])\<rparr>"

inductive tl_runs :: "int \<Rightarrow> int \<Rightarrow> tl_state res \<Rightarrow> bool" for t1 t2 where
  start: "tl_runs t1 t2 (Inr (tl_start t1 t2))"
| act: "\<lbrakk>tl_runs t1 t2 (Inr s); tl_todo s t = a # as; tl_heap s p = None\<rbrakk>
    \<Longrightarrow> tl_runs t1 t2 (run_action p t a (s\<lparr>tl_todo := (tl_todo s)(t := as)\<rparr>))"

text \<open>The rest of \<open>main\<close>, after both threads are joined: \<open>delete\<close> of a null pointer does nothing.\<close>

definition tl_finish :: "int \<Rightarrow> tl_state \<Rightarrow> tl_state res" where
  "tl_finish self s = (case tl_loop s self of None \<Rightarrow> Inr s
     | Some p \<Rightarrow> bindR (derefR (tl_heap s p)) (\<lambda>_. Inr (s\<lparr>tl_heap := (tl_heap s)(p := None)\<rparr>)))"

section \<open>Every run\<close>

definition output_of :: "int \<Rightarrow> tl_state \<Rightarrow> shown list" where
  "output_of t s = map snd (filter (\<lambda>x. fst x = t) (tl_out s))"

text \<open>A thread has not begun, or has an object of its own and has written what it no longer has to do.\<close>

definition thread_ok :: "int \<Rightarrow> tl_state \<Rightarrow> bool" where
  "thread_ok t s \<longleftrightarrow> (tl_todo s t = threadFunction \<and> tl_loop s t = None \<and> output_of t s = []) \<or>
     (\<exists>p is. tl_loop s t = Some p \<and> tl_heap s p = Some t \<and> tl_todo s t = map Insert is \<and>
        output_of t s @ map (insert_item p t) is = map (insert_item p t) printed)"

definition tl_inv :: "int \<Rightarrow> int \<Rightarrow> tl_state \<Rightarrow> bool" where
  "tl_inv t1 t2 s \<longleftrightarrow> thread_ok t1 s \<and> thread_ok t2 s \<and> (\<forall>t. t \<noteq> t1 \<and> t \<noteq> t2 \<longrightarrow> tl_todo s t = [] \<and> tl_loop s t = None) \<and>
     (\<forall>p t. tl_heap s p = Some t \<longrightarrow> tl_loop s t = Some p)"

lemma tl_inv_start: "tl_inv t1 t2 (tl_start t1 t2)"
  by (auto simp: tl_inv_def thread_ok_def tl_start_def output_of_def)

lemma action_other:
  assumes "run_action p t a s = Inr s'" "u \<noteq> t"
  shows "tl_loop s' u = tl_loop s u" "output_of u s' = output_of u s" "tl_todo s' = tl_todo s"
  using assms by (cases a; auto simp: output_of_def bindR_def derefR_def split: if_splits option.splits sum.splits)+

lemma action_heap:
  assumes "run_action p t a s = Inr s'" "tl_heap s p = None" "tl_heap s q = Some u"
  shows "tl_heap s' q = Some u"
  using assms by (cases a) (auto simp: bindR_def derefR_def split: if_splits option.splits)

lemma action_thread:
  assumes ok: "thread_ok t s" and todo: "tl_todo s t = a # as"
    and inv: "\<And>p t. tl_heap s p = Some t \<Longrightarrow> tl_loop s t = Some p" and fresh: "tl_heap s p = None"
  shows "\<exists>s'. run_action p t a (s\<lparr>tl_todo := (tl_todo s)(t := as)\<rparr>) = Inr s' \<and> thread_ok t s' \<and>
    (\<forall>p t. tl_heap s' p = Some t \<longrightarrow> tl_loop s' t = Some p)"
  using ok [unfolded thread_ok_def]
proof (elim disjE exE conjE)
  assume new: "tl_todo s t = threadFunction" "tl_loop s t = None" "output_of t s = []"
  with todo have "a = Acquire" "as = map Insert printed" by (simp_all add: threadFunction_def)
  with new inv show ?thesis by (force simp: thread_ok_def output_of_def)
next
  fix q "is" assume q: "tl_loop s t = Some q" "tl_heap s q = Some t" "tl_todo s t = map Insert is"
    "output_of t s @ map (insert_item q t) is = map (insert_item q t) printed"
  with todo obtain i is' where "is = i # is'" "a = Insert i" "as = map Insert is'" by (cases "is") auto
  with q inv show ?thesis by (auto simp: derefR_def output_of_def thread_ok_def)
qed

lemma thread_ok_other:
  assumes "thread_ok u s" "u \<noteq> t" "run_action p t a (s\<lparr>tl_todo := (tl_todo s)(t := as)\<rparr>) = Inr s'" "tl_heap s p = None"
  shows "thread_ok u s'"
proof -
  let ?s = "s\<lparr>tl_todo := (tl_todo s)(t := as)\<rparr>"
  have "tl_todo s' u = tl_todo s u" "tl_loop s' u = tl_loop s u" "output_of u s' = output_of u s"
    using action_other [OF assms(3,2)] assms(2) by (simp_all add: output_of_def)
  moreover have "tl_heap s' q = Some u" if "tl_heap s q = Some u" for q
    using action_heap [OF assms(3)] that assms(4) by simp
  ultimately show ?thesis using assms(1) by (auto simp: thread_ok_def)
qed

lemma tl_inv_runs:
  assumes "tl_runs t1 t2 r"
  shows "\<exists>s. r = Inr s \<and> tl_inv t1 t2 s"
  using assms
proof (induction rule: tl_runs.induct)
  case start
  then show ?case by (simp add: tl_inv_start)
next
  case (act s t a as p)
  then have inv: "tl_inv t1 t2 s" by simp
  with act.hyps(2) have t: "t = t1 \<or> t = t2" by (auto simp: tl_inv_def)
  with inv have "thread_ok t s" "\<And>p t. tl_heap s p = Some t \<Longrightarrow> tl_loop s t = Some p" by (auto simp: tl_inv_def)
  from action_thread [OF this(1) act.hyps(2) this(2) act.hyps(3)] obtain s' where
    s': "run_action p t a (s\<lparr>tl_todo := (tl_todo s)(t := as)\<rparr>) = Inr s'" "thread_ok t s'" "\<forall>p t. tl_heap s' p = Some t \<longrightarrow> tl_loop s' t = Some p" by blast
  have ok: "thread_ok u s'" if "u = t1 \<or> u = t2" for u
    using thread_ok_other [OF _ _ s'(1) act.hyps(3)] s'(2) that inv by (cases "u = t") (auto simp: tl_inv_def)
  have "tl_todo s' u = [] \<and> tl_loop s' u = None" if "u \<noteq> t1 \<and> u \<noteq> t2" for u
  proof -
    from that t have "u \<noteq> t" by auto
    with action_other [OF s'(1) this] that inv show ?thesis by (auto simp: tl_inv_def)
  qed
  with ok s' show ?case by (auto simp: tl_inv_def)
qed

text \<open>
  No run dereferences a null or dangling pointer, and when both threads have ended each has
  written, whatever the interleaving, the lines of its own object; the two objects are distinct. \<open>main\<close>
  then deletes its own variable, which is null: both objects are leaked.
\<close>

theorem thread_local_example:
  assumes "tl_runs t1 t2 r" "t1 \<noteq> t2" "self \<noteq> t1" "self \<noteq> t2"
  shows "\<exists>s. r = Inr s \<and> (tl_todo s t1 = [] \<and> tl_todo s t2 = [] \<longrightarrow>
    (\<exists>p1 p2. p1 \<noteq> p2 \<and> output_of t1 s = map (insert_item p1 t1) printed \<and> output_of t2 s = map (insert_item p2 t2) printed \<and>
       tl_finish self s = Inr s \<and> tl_heap s = [p1 \<mapsto> t1, p2 \<mapsto> t2]))"
proof -
  from tl_inv_runs [OF assms(1)] obtain s where s: "r = Inr s" "tl_inv t1 t2 s" by blast
  have ended: "\<exists>p. tl_loop s t = Some p \<and> tl_heap s p = Some t \<and> output_of t s = map (insert_item p t) printed"
    if "thread_ok t s" "tl_todo s t = []" for t
    using that by (auto simp: thread_ok_def threadFunction_def)
  have "\<exists>p1 p2. p1 \<noteq> p2 \<and> output_of t1 s = map (insert_item p1 t1) printed \<and> output_of t2 s = map (insert_item p2 t2) printed \<and>
       tl_finish self s = Inr s \<and> tl_heap s = [p1 \<mapsto> t1, p2 \<mapsto> t2]" if "tl_todo s t1 = []" "tl_todo s t2 = []"
  proof -
    from s(2) have inv: "thread_ok t1 s" "thread_ok t2 s" "\<And>t. t \<noteq> t1 \<Longrightarrow> t \<noteq> t2 \<Longrightarrow> tl_loop s t = None"
      "\<And>p t. tl_heap s p = Some t \<Longrightarrow> tl_loop s t = Some p" by (auto simp: tl_inv_def)
    from ended [OF inv(1) that(1)] obtain p1 where p1: "tl_loop s t1 = Some p1" "tl_heap s p1 = Some t1" "output_of t1 s = map (insert_item p1 t1) printed" by blast
    from ended [OF inv(2) that(2)] obtain p2 where p2: "tl_loop s t2 = Some p2" "tl_heap s p2 = Some t2" "output_of t2 s = map (insert_item p2 t2) printed" by blast
    have "p1 \<noteq> p2" using p1(2) p2(2) assms(2) by auto
    moreover have "tl_heap s p = [p1 \<mapsto> t1, p2 \<mapsto> t2] p" for p
    proof (cases "tl_heap s p")
      case None
      then show ?thesis using p1(2) p2(2) by auto
    next
      case (Some t)
      with inv(3) [of t] inv(4) [OF Some] have "t = t1 \<or> t = t2" by auto
      with inv(4) [OF Some] p1 p2 Some show ?thesis using \<open>p1 \<noteq> p2\<close> by auto
    qed
    moreover have "tl_finish self s = Inr s" using inv(3) [of self] assms(3,4) by (simp add: tl_finish_def)
    ultimately show ?thesis using p1 p2 by blast
  qed
  with s(1) show ?thesis by blast
qed

end
