(* ===== verification/Wakeup.thy ===== *)
theory Wakeup
  imports EventLoop
begin

text \<open>
  The interleaving of \<open>EventLoop::loop\<close> with other threads that call \<open>queueInLoop\<close> and \<open>quit\<close>. Every
  step is one access to what the threads share: \<open>pendingFunctors_\<close> under its mutex, the flags
  \<open>quit_\<close> and \<open>callingPendingFunctors_\<close>, and the counter of the wake-up descriptor. Thread 0 is the
  thread of the loop.
\<close>

section \<open>State\<close>

text \<open>
  Where the loop thread is: outside \<open>loop()\<close>, at the loop condition, in \<open>epoll_wait\<close>, dispatching
  events (with the wake-up channel among them or not), about to swap the queue, running functors.
\<close>

datatype loop_pc = Outside | AtTest | Polling | Handling bool | AtSwap | Running

text \<open>Where a caller is: in neither function, after the push in \<open>queueInLoop\<close>, after the store in \<open>quit\<close>.\<close>

datatype caller_pc = Idle | Pushed | Quitting

text \<open>
  The last three fields only observe: what was queued and what was run so far, and whether the queue
  holds a functor that the loop thread put there while it was not inside \<open>loop()\<close>.
\<close>

record 'f wstate =
  ws_pending :: "'f list"
  ws_calling :: bool
  ws_quit :: bool
  ws_counter :: nat
  ws_pc :: loop_pc
  ws_functors :: "'f list"
  ws_callers :: "nat \<Rightarrow> caller_pc"
  ws_submitted :: "'f list"
  ws_executed :: "'f list"
  ws_early :: bool

definition ws_init :: "'f wstate" where
  "ws_init = \<lparr>ws_pending = [], ws_calling = False, ws_quit = False, ws_counter = 0, ws_pc = Outside,
     ws_functors = [], ws_callers = (\<lambda>_. Idle), ws_submitted = [], ws_executed = [], ws_early = False\<rparr>"

section \<open>Steps\<close>

text \<open>
  The next step of the loop thread, when nothing but the wake-up descriptor is ready: \<open>loop\<close> and
  \<open>doPendingFunctors\<close>. In \<open>epoll_wait\<close> it is blocked unless the counter is positive; \<open>handleRead\<close>
  resets the counter.
\<close>

fun loop_next :: "'f wstate \<Rightarrow> 'f wstate option" where
  "loop_next s = (case ws_pc s of
     Outside \<Rightarrow> Some (s\<lparr>ws_quit := False, ws_pc := AtTest\<rparr>)
   | AtTest \<Rightarrow> Some (s\<lparr>ws_pc := (if ws_quit s then Outside else Polling)\<rparr>)
   | Polling \<Rightarrow> (if ws_counter s > 0 then Some (s\<lparr>ws_pc := Handling True\<rparr>) else None)
   | Handling True \<Rightarrow> Some (s\<lparr>ws_counter := 0, ws_pc := Handling False\<rparr>)
   | Handling False \<Rightarrow> Some (s\<lparr>ws_calling := True, ws_pc := AtSwap\<rparr>)
   | AtSwap \<Rightarrow> Some (s\<lparr>ws_functors := ws_pending s, ws_pending := [], ws_early := False, ws_pc := Running\<rparr>)
   | Running \<Rightarrow> (case ws_functors s of
       f # fs \<Rightarrow> Some (s\<lparr>ws_functors := fs, ws_executed := ws_executed s @ [f]\<rparr>)
     | [] \<Rightarrow> Some (s\<lparr>ws_calling := False, ws_pc := AtTest\<rparr>)))"

text \<open>
  Callbacks and functors run in the loop thread may call \<open>queueInLoop\<close> and \<open>quit\<close>; so may the code
  around \<open>loop()\<close>.
\<close>

definition may_call :: "nat \<Rightarrow> 'f wstate \<Rightarrow> bool" where
  "may_call t s \<longleftrightarrow> ws_callers s t = Idle \<and>
     (t = 0 \<longrightarrow> ws_pc s = Outside \<or> ws_pc s = Handling False \<or> ws_pc s = Running)"

inductive step :: "'f wstate \<Rightarrow> 'f wstate \<Rightarrow> bool" where
  Loop: "ws_callers s 0 = Idle \<Longrightarrow> loop_next s = Some s' \<Longrightarrow> step s s'"
| OtherEvent: "ws_callers s 0 = Idle \<Longrightarrow> ws_pc s = Polling \<Longrightarrow> step s (s\<lparr>ws_pc := Handling False\<rparr>)"
| Push: "may_call t s \<Longrightarrow>
    step s (s\<lparr>ws_pending := ws_pending s @ [f], ws_submitted := ws_submitted s @ [f],
       ws_callers := (ws_callers s)(t := Pushed),
       ws_early := (ws_early s \<or> t = 0 \<and> ws_pc s = Outside)\<rparr>)"
| Wake: "ws_callers s t = Pushed \<Longrightarrow> t \<noteq> 0 \<or> ws_calling s \<Longrightarrow>
    step s (s\<lparr>ws_counter := ws_counter s + 1, ws_callers := (ws_callers s)(t := Idle)\<rparr>)"
| NoWake: "ws_callers s t = Pushed \<Longrightarrow> \<not> (t \<noteq> 0 \<or> ws_calling s) \<Longrightarrow>
    step s (s\<lparr>ws_callers := (ws_callers s)(t := Idle)\<rparr>)"
| Quit: "may_call t s \<Longrightarrow>
    step s (s\<lparr>ws_quit := True, ws_callers := (ws_callers s)(t := (if t = 0 then Idle else Quitting))\<rparr>)"
| QuitWake: "ws_callers s t = Quitting \<Longrightarrow>
    step s (s\<lparr>ws_counter := ws_counter s + 1, ws_callers := (ws_callers s)(t := Idle)\<rparr>)"

inductive reachable :: "'f wstate \<Rightarrow> bool" where
  Init: "reachable ws_init"
| Step: "reachable s \<Longrightarrow> step s s' \<Longrightarrow> reachable s'"

section \<open>Invariants\<close>

text \<open>A wake-up is under way: in the counter, or owed by a caller that has not reached it yet.\<close>

definition wake_pending :: "'f wstate \<Rightarrow> bool" where
  "wake_pending s \<longleftrightarrow> ws_counter s > 0 \<or> (\<exists>t. ws_callers s t = Pushed \<and> (t \<noteq> 0 \<or> ws_calling s))"

definition quit_pending :: "'f wstate \<Rightarrow> bool" where
  "quit_pending s \<longleftrightarrow> ws_counter s > 0 \<or> (\<exists>t. t \<noteq> 0 \<and> ws_callers s t = Quitting)"

definition wakeup_inv :: "'f wstate \<Rightarrow> bool" where
  "wakeup_inv s \<longleftrightarrow>
     (ws_calling s \<longleftrightarrow> ws_pc s = AtSwap \<or> ws_pc s = Running) \<and>
     (ws_functors s \<noteq> [] \<longrightarrow> ws_pc s = Running) \<and>
     ws_callers s 0 \<noteq> Quitting \<and>
     (ws_callers s 0 = Pushed \<longrightarrow> ws_pc s = Outside \<or> ws_pc s = Handling False \<or> ws_pc s = Running) \<and>
     ws_submitted s = ws_executed s @ ws_functors s @ ws_pending s \<and>
     (\<not> ws_early s \<longrightarrow> ws_pending s \<noteq> [] \<longrightarrow>
        ws_pc s = Outside \<or> ws_pc s = AtTest \<or> ws_pc s = Polling \<or> ws_pc s = Running \<longrightarrow> wake_pending s) \<and>
     (ws_quit s \<longrightarrow> ws_pc s = Polling \<longrightarrow> quit_pending s)"

lemma wakeup_inv_init: "wakeup_inv ws_init"
  by (simp add: wakeup_inv_def ws_init_def)

lemma wakeup_inv_loop:
  assumes "wakeup_inv s" and "ws_callers s 0 = Idle" and "loop_next s = Some s'"
  shows "wakeup_inv s'"
  using assms
  by (auto simp: wakeup_inv_def wake_pending_def quit_pending_def
      split: loop_pc.splits bool.splits list.splits if_splits)
    (metis caller_pc.distinct(1))

lemma wake_pending_upd:
  assumes "wake_pending s" and "ws_callers s t = Pushed \<Longrightarrow> t = 0 \<and> \<not> ws_calling s"
    and "ws_calling s' = ws_calling s" "ws_counter s' = ws_counter s" "ws_callers s' = (ws_callers s)(t := p)"
  shows "wake_pending s'"
proof (cases "ws_counter s > 0")
  case False
  with assms(1) obtain t' where t': "ws_callers s t' = Pushed" "t' \<noteq> 0 \<or> ws_calling s"
    by (auto simp: wake_pending_def)
  with assms(2) have "t' \<noteq> t" by auto
  with t' assms(3,5) show ?thesis unfolding wake_pending_def by (intro disjI2 exI [of _ t']) simp
qed (simp add: wake_pending_def assms)

lemma quit_pending_upd:
  assumes "quit_pending s" and "ws_callers s t \<noteq> Quitting"
    and "ws_counter s' = ws_counter s" "ws_callers s' = (ws_callers s)(t := p)"
  shows "quit_pending s'"
proof (cases "ws_counter s > 0")
  case False
  with assms(1) obtain t' where t': "ws_callers s t' = Quitting" "t' \<noteq> 0"
    by (auto simp: quit_pending_def)
  with assms(2) have "t' \<noteq> t" by auto
  with t' assms(4) show ?thesis unfolding quit_pending_def by (intro disjI2 exI [of _ t']) simp
qed (simp add: quit_pending_def assms)

lemma counter_pending: "ws_counter s > 0 \<Longrightarrow> wake_pending s" "ws_counter s > 0 \<Longrightarrow> quit_pending s"
  by (simp_all add: wake_pending_def quit_pending_def)

lemma wakeup_inv_caller:
  assumes inv: "wakeup_inv s" and ctl: "ws_pc s' = ws_pc s" "ws_calling s' = ws_calling s"
      "ws_functors s' = ws_functors s" "ws_executed s' = ws_executed s" "ws_early s \<longrightarrow> ws_early s'"
    and zero: "ws_callers s' 0 \<noteq> Quitting" "ws_callers s' 0 = Pushed \<Longrightarrow> ws_callers s 0 = Pushed \<or> may_call 0 s"
    and fifo: "ws_submitted s = ws_executed s @ ws_functors s @ ws_pending s \<Longrightarrow>
      ws_submitted s' = ws_executed s' @ ws_functors s' @ ws_pending s'"
    and wake: "\<not> ws_early s' \<Longrightarrow> ws_pending s' \<noteq> [] \<Longrightarrow>
      (ws_pending s \<noteq> [] \<Longrightarrow> wake_pending s) \<Longrightarrow>
      ws_pc s = Outside \<or> ws_pc s = AtTest \<or> ws_pc s = Polling \<or> ws_pc s = Running \<Longrightarrow> wake_pending s'"
    and quit: "ws_quit s' \<Longrightarrow> ws_pc s = Polling \<Longrightarrow> (ws_quit s \<Longrightarrow> quit_pending s) \<Longrightarrow> quit_pending s'"
  shows "wakeup_inv s'"
  unfolding wakeup_inv_def
proof (intro conjI impI)
  show "ws_calling s' \<longleftrightarrow> ws_pc s' = AtSwap \<or> ws_pc s' = Running"
    using inv ctl by (simp add: wakeup_inv_def)
  show "ws_pc s' = Running" if "ws_functors s' \<noteq> []"
    using inv ctl that by (simp add: wakeup_inv_def)
  show "ws_callers s' 0 \<noteq> Quitting" by (fact zero)
  show "ws_pc s' = Outside \<or> ws_pc s' = Handling False \<or> ws_pc s' = Running" if "ws_callers s' 0 = Pushed"
    using zero(2) [OF that] inv ctl by (auto simp: wakeup_inv_def may_call_def)
  show "ws_submitted s' = ws_executed s' @ ws_functors s' @ ws_pending s'"
    using fifo inv by (simp add: wakeup_inv_def)
  show "wake_pending s'" if "\<not> ws_early s'" "ws_pending s' \<noteq> []"
    "ws_pc s' = Outside \<or> ws_pc s' = AtTest \<or> ws_pc s' = Polling \<or> ws_pc s' = Running"
    using that inv ctl wake by (simp add: wakeup_inv_def)
  show "quit_pending s'" if "ws_quit s'" "ws_pc s' = Polling"
    using that inv ctl quit by (simp add: wakeup_inv_def)
qed

lemma wakeup_inv_step: "step s s' \<Longrightarrow> wakeup_inv s \<Longrightarrow> wakeup_inv s'"
proof (induction rule: step.induct)
  case (Loop s s')
  show ?case by (rule wakeup_inv_loop [OF Loop.prems Loop.hyps])
next
  case (OtherEvent s)
  then show ?case by (auto simp: wakeup_inv_def)
next
  case (Push t s f)
  let ?s = "s\<lparr>ws_pending := ws_pending s @ [f], ws_submitted := ws_submitted s @ [f],
       ws_callers := (ws_callers s)(t := Pushed), ws_early := (ws_early s \<or> t = 0 \<and> ws_pc s = Outside)\<rparr>"
  have idle: "ws_callers s t = Idle" using Push.hyps by (simp add: may_call_def)
  have owed: "wake_pending ?s"
    if "\<not> (t = 0 \<and> ws_pc s = Outside)"
      "ws_pc s = Outside \<or> ws_pc s = AtTest \<or> ws_pc s = Polling \<or> ws_pc s = Running"
  proof -
    have "t \<noteq> 0 \<or> ws_calling s"
      using that Push by (auto simp: may_call_def wakeup_inv_def)
    then show ?thesis unfolding wake_pending_def by (intro disjI2 exI [of _ t]) simp
  qed
  show ?case
  proof (rule wakeup_inv_caller [OF Push.prems])
    show "ws_callers ?s 0 \<noteq> Quitting" using Push.prems by (simp add: wakeup_inv_def)
    show "ws_callers s 0 = Pushed \<or> may_call 0 s" if "ws_callers ?s 0 = Pushed"
      using that Push.hyps by (auto split: if_splits)
    show "quit_pending ?s" if "ws_quit ?s" "ws_quit s \<Longrightarrow> quit_pending s"
      by (rule quit_pending_upd [of s t ?s Pushed]) (use that idle in simp_all)
    show "wake_pending ?s" if "\<not> ws_early ?s"
      "ws_pc s = Outside \<or> ws_pc s = AtTest \<or> ws_pc s = Polling \<or> ws_pc s = Running"
      by (rule owed) (use that in simp_all)
  qed simp_all
next
  case (Wake s t)
  have "ws_callers s 0 \<noteq> Quitting" using Wake.prems by (simp add: wakeup_inv_def)
  then show ?case
    by (intro wakeup_inv_caller [OF Wake.prems]) (simp_all add: counter_pending split: if_splits)
next
  case (NoWake s t)
  let ?s = "s\<lparr>ws_callers := (ws_callers s)(t := Idle)\<rparr>"
  have "wake_pending ?s" if "wake_pending s"
    by (rule wake_pending_upd [of s t ?s Idle]) (use that NoWake.hyps in simp_all)
  moreover have "quit_pending ?s" if "quit_pending s"
    by (rule quit_pending_upd [of s t ?s Idle]) (use that NoWake.hyps in simp_all)
  moreover have "ws_callers s 0 \<noteq> Quitting" using NoWake.prems by (simp add: wakeup_inv_def)
  ultimately show ?case
    by (intro wakeup_inv_caller [OF NoWake.prems]) (simp_all split: if_splits)
next
  case (Quit t s)
  let ?s = "s\<lparr>ws_quit := True, ws_callers := (ws_callers s)(t := (if t = 0 then Idle else Quitting))\<rparr>"
  have idle: "ws_callers s t = Idle" using Quit.hyps by (simp add: may_call_def)
  have "wake_pending ?s" if "wake_pending s"
    by (rule wake_pending_upd [OF that, of t]) (use idle in simp_all)
  moreover have "quit_pending ?s" if "ws_pc s = Polling"
  proof -
    have "t \<noteq> 0" using that Quit.hyps by (auto simp: may_call_def)
    then show ?thesis unfolding quit_pending_def by (intro disjI2 exI [of _ t]) simp
  qed
  moreover have "ws_callers s 0 \<noteq> Quitting" using Quit.prems by (simp add: wakeup_inv_def)
  ultimately show ?case
    by (intro wakeup_inv_caller [OF Quit.prems]) (simp_all split: if_splits)
next
  case (QuitWake s t)
  have "ws_callers s 0 \<noteq> Quitting" using QuitWake.prems by (simp add: wakeup_inv_def)
  then show ?case
    by (intro wakeup_inv_caller [OF QuitWake.prems]) (simp_all add: counter_pending split: if_splits)
qed

lemma reachable_inv: "reachable s \<Longrightarrow> wakeup_inv s"
  by (induction rule: reachable.induct) (auto intro: wakeup_inv_init wakeup_inv_step)

section \<open>The loop thread on its own\<close>

fun loop_run :: "nat \<Rightarrow> 'f wstate \<Rightarrow> 'f wstate option" where
  "loop_run 0 s = Some s"
| "loop_run (Suc n) s = (case loop_next s of None \<Rightarrow> None | Some s' \<Rightarrow> loop_run n s')"

definition drains :: "'f wstate \<Rightarrow> bool" where
  "drains s \<longleftrightarrow> (\<exists>n s'. loop_run n s = Some s' \<and> ws_executed s' = ws_submitted s)"

lemma drains_step:
  assumes "loop_next s = Some s1" "ws_submitted s1 = ws_submitted s" "drains s1"
  shows "drains s"
proof -
  from assms(3) obtain n s' where "loop_run n s1 = Some s'" "ws_executed s' = ws_submitted s1"
    by (auto simp: drains_def)
  with assms(1,2) show ?thesis unfolding drains_def by (intro exI [of _ "Suc n"] exI [of _ s']) simp
qed

declare loop_next.simps [simp del]
lemmas loop_next_pc = loop_next.simps

lemma loop_run_add: "loop_run (m + n) s = (case loop_run m s of None \<Rightarrow> None | Some s' \<Rightarrow> loop_run n s')"
  by (induction m arbitrary: s) (auto split: option.splits)

lemma loop_run_functors:
  assumes "ws_pc s = Running"
  shows "loop_run (length (ws_functors s)) s =
    Some (s\<lparr>ws_functors := [], ws_executed := ws_executed s @ ws_functors s\<rparr>)"
  using assms
proof (induction "ws_functors s" arbitrary: s)
  case (Cons f fs)
  let ?s = "s\<lparr>ws_functors := fs, ws_executed := ws_executed s @ [f]\<rparr>"
  have "loop_next s = Some ?s"
    using Cons.prems Cons.hyps(2) [symmetric] by (simp add: loop_next_pc)
  with Cons.hyps(1) [of ?s] Cons.prems Cons.hyps(2) [symmetric] show ?case by simp
qed simp

lemma drains_AtSwap:
  assumes "wakeup_inv s" "ws_pc s = AtSwap"
  shows "drains s"
proof -
  let ?s = "s\<lparr>ws_functors := ws_pending s, ws_pending := [], ws_early := False, ws_pc := Running\<rparr>"
  have "loop_next s = Some ?s" using assms(2) by (simp add: loop_next_pc)
  moreover have "ws_submitted s = ws_executed s @ ws_pending s"
    using assms by (auto simp: wakeup_inv_def)
  ultimately show ?thesis
    unfolding drains_def using loop_run_functors [of ?s]
    by (intro exI [of _ "Suc (length (ws_pending s))"]) simp
qed

lemma drains_Handling_False:
  assumes "wakeup_inv s" "ws_callers s 0 = Idle" "ws_pc s = Handling False"
  shows "drains s"
proof -
  let ?s = "s\<lparr>ws_calling := True, ws_pc := AtSwap\<rparr>"
  have next_s: "loop_next s = Some ?s" using assms by (simp add: loop_next_pc)
  have "drains ?s"
    using wakeup_inv_loop [OF assms(1,2) next_s] by (intro drains_AtSwap) simp_all
  with next_s show ?thesis by (auto intro: drains_step)
qed

lemma drains_Handling:
  assumes "wakeup_inv s" "ws_callers s 0 = Idle" "ws_pc s = Handling b"
  shows "drains s"
proof (cases b)
  case True
  let ?s = "s\<lparr>ws_counter := 0, ws_pc := Handling False\<rparr>"
  have next_s: "loop_next s = Some ?s" using assms True by (simp add: loop_next_pc)
  have "drains ?s"
    using wakeup_inv_loop [OF assms(1,2) next_s] assms by (intro drains_Handling_False) simp_all
  with next_s show ?thesis by (auto intro: drains_step)
qed (use assms drains_Handling_False in auto)

text \<open>
  The calls in progress are over, \<open>quit\<close> has not been called, and the queue holds nothing that the loop
  thread put there before it entered the loop.
\<close>

definition settled :: "'f wstate \<Rightarrow> bool" where
  "settled s \<longleftrightarrow> (\<forall>t. ws_callers s t = Idle) \<and> \<not> ws_early s \<and> \<not> ws_quit s \<and> ws_pc s \<noteq> Outside"

lemma settled_counter:
  assumes "wakeup_inv s" "settled s" "ws_pending s \<noteq> []"
    "ws_pc s = AtTest \<or> ws_pc s = Polling \<or> ws_pc s = Running"
  shows "ws_counter s > 0"
proof -
  have "wake_pending s" using assms by (simp add: wakeup_inv_def settled_def)
  then show ?thesis using assms(2) by (simp add: wake_pending_def settled_def)
qed

lemma drains_Polling:
  assumes "wakeup_inv s" "settled s" "ws_pc s = Polling"
  shows "drains s"
proof (cases "ws_pending s = []")
  case True
  then have "ws_executed s = ws_submitted s" using assms by (auto simp: wakeup_inv_def)
  then show ?thesis unfolding drains_def by (intro exI [of _ 0] exI [of _ s]) simp
next
  case False
  let ?s = "s\<lparr>ws_pc := Handling True\<rparr>"
  have "ws_counter s > 0"
    using settled_counter [OF assms(1,2) False] assms(3) by simp
  with assms(3) have next_s: "loop_next s = Some ?s" by (simp add: loop_next_pc)
  have idle: "ws_callers s 0 = Idle" using assms(2) by (simp add: settled_def)
  have "drains ?s"
    using wakeup_inv_loop [OF assms(1) idle next_s] idle by (intro drains_Handling) simp_all
  with next_s show ?thesis by (auto intro: drains_step)
qed

lemma drains_AtTest:
  assumes "wakeup_inv s" "settled s" "ws_pc s = AtTest"
  shows "drains s"
proof -
  let ?s = "s\<lparr>ws_pc := Polling\<rparr>"
  have next_s: "loop_next s = Some ?s" using assms by (simp add: loop_next_pc settled_def)
  have idle: "ws_callers s 0 = Idle" using assms(2) by (simp add: settled_def)
  have "drains ?s"
    using wakeup_inv_loop [OF assms(1) idle next_s] assms by (intro drains_Polling) (simp_all add: settled_def)
  with next_s show ?thesis by (auto intro: drains_step)
qed

lemma drains_Running:
  assumes "wakeup_inv s" "settled s" "ws_pc s = Running"
  shows "drains s"
  using assms
proof (induction "ws_functors s" arbitrary: s)
  case Nil
  let ?s = "s\<lparr>ws_calling := False, ws_pc := AtTest\<rparr>"
  have next_s: "loop_next s = Some ?s" using Nil by (simp add: loop_next_pc)
  have idle: "ws_callers s 0 = Idle" using Nil(3) by (simp add: settled_def)
  have "drains ?s"
    using wakeup_inv_loop [OF Nil(2) idle next_s] Nil(3) by (intro drains_AtTest) (simp_all add: settled_def)
  with next_s show ?case by (auto intro: drains_step)
next
  case (Cons f fs)
  let ?s = "s\<lparr>ws_functors := fs, ws_executed := ws_executed s @ [f]\<rparr>"
  have next_s: "loop_next s = Some ?s"
    using Cons.prems Cons.hyps(2) [symmetric] by (simp add: loop_next_pc)
  have idle: "ws_callers s 0 = Idle" using Cons.prems(2) by (simp add: settled_def)
  have "drains ?s"
    using wakeup_inv_loop [OF Cons.prems(1) idle next_s] Cons.prems by (intro Cons.hyps(1)) (simp_all add: settled_def)
  with next_s show ?case by (auto intro: drains_step)
qed

section \<open>Properties\<close>

text \<open>
  C21: in every interleaving, the functors handed to \<open>queueInLoop\<close> are run by the loop exactly once
  each and in the order of their insertion into \<open>pendingFunctors_\<close>: what was inserted is at any
  time what was run, followed by what the current call of \<open>doPendingFunctors\<close> still holds and
  what is in the queue.
\<close>

theorem functors_exactly_once_in_order:
  assumes "reachable s"
  shows "ws_submitted s = ws_executed s @ ws_functors s @ ws_pending s"
  using reachable_inv [OF assms] by (simp add: wakeup_inv_def)

text \<open>
  C20: no wake-up is lost while the loop runs. In every reachable state in which the loop thread is inside
  \<open>loop()\<close>, \<open>quit\<close> has not been called, the calls of \<open>queueInLoop\<close> made so far have returned and the queue
  holds no functor that the loop thread itself put there before it entered \<open>loop()\<close>, the loop thread runs
  every queued functor after finitely many steps of its own, without waiting for another event or
  for the time limit of \<open>epoll_wait\<close>. (The last condition is needed: see \<open>early_functor_waits\<close> below.)
\<close>

theorem queued_functors_are_run:
  assumes "reachable s" and "settled s"
  shows "\<exists>n s'. loop_run n s = Some s' \<and> ws_executed s' = ws_submitted s"
proof -
  have inv: "wakeup_inv s" by (rule reachable_inv [OF assms(1)])
  have idle: "ws_callers s 0 = Idle" using assms(2) by (simp add: settled_def)
  have "drains s"
  proof (cases "ws_pc s")
    case Outside
    then show ?thesis using assms(2) by (simp add: settled_def)
  next
    case AtTest then show ?thesis by (rule drains_AtTest [OF inv assms(2)])
  next
    case Polling then show ?thesis by (rule drains_Polling [OF inv assms(2)])
  next
    case (Handling b) then show ?thesis by (rule drains_Handling [OF inv idle])
  next
    case AtSwap then show ?thesis by (rule drains_AtSwap [OF inv])
  next
    case Running then show ?thesis by (rule drains_Running [OF inv assms(2)])
  qed
  then show ?thesis by (simp add: drains_def)
qed

text \<open>From where it may be when \<open>quit_\<close> is set, the loop thread gets out of the loop on its own.\<close>

definition leaves :: "'f wstate \<Rightarrow> bool" where
  "leaves s \<longleftrightarrow> (\<exists>n s'. loop_run n s = Some s' \<and> ws_pc s' = Outside \<and>
     (ws_pc s \<noteq> AtTest \<and> ws_pc s \<noteq> Running \<longrightarrow> ws_executed s' = ws_submitted s))"

lemma leaves_after:
  assumes "loop_run m s = Some u" "leaves u" "ws_submitted u = ws_submitted s"
    "ws_pc s \<noteq> AtTest \<and> ws_pc s \<noteq> Running \<Longrightarrow> ws_pc u \<noteq> AtTest \<and> ws_pc u \<noteq> Running"
  shows "leaves s"
proof -
  from assms(2) obtain n s' where s': "loop_run n u = Some s'" "ws_pc s' = Outside"
    "ws_pc u \<noteq> AtTest \<and> ws_pc u \<noteq> Running \<longrightarrow> ws_executed s' = ws_submitted u" by (auto simp: leaves_def)
  then have "loop_run (m + n) s = Some s'" using assms(1) by (simp add: loop_run_add)
  with s' assms(3,4) show ?thesis unfolding leaves_def by (intro exI [of _ "m + n"] exI [of _ s']) auto
qed

lemma leaves_AtTest: "ws_quit s \<Longrightarrow> ws_pc s = AtTest \<Longrightarrow> leaves s"
  unfolding leaves_def by (intro exI [of _ 1] exI [of _ "s\<lparr>ws_pc := Outside\<rparr>"]) (simp add: loop_next_pc)

lemma run_to_exit:
  assumes "ws_quit s" "ws_pc s = Running"
  shows "\<exists>n s'. loop_run n s = Some s' \<and> ws_pc s' = Outside \<and> ws_executed s' = ws_executed s @ ws_functors s"
proof -
  let ?r = "s\<lparr>ws_functors := [], ws_executed := ws_executed s @ ws_functors s\<rparr>"
  have "loop_run 2 ?r = Some (?r\<lparr>ws_calling := False, ws_pc := Outside\<rparr>)"
    using assms by (simp add: loop_next_pc numeral_eq_Suc)
  then have "loop_run (length (ws_functors s) + 2) s = Some (?r\<lparr>ws_calling := False, ws_pc := Outside\<rparr>)"
    using loop_run_functors [OF assms(2)] by (simp only: loop_run_add option.case)
  then show ?thesis by (intro exI conjI) (assumption | simp)+
qed

lemma leaves_Running: "ws_quit s \<Longrightarrow> ws_pc s = Running \<Longrightarrow> leaves s"
  using run_to_exit [of s] by (auto simp: leaves_def)

lemma leaves_AtSwap:
  assumes "wakeup_inv s" "ws_quit s" "ws_pc s = AtSwap"
  shows "leaves s"
proof -
  let ?u = "s\<lparr>ws_functors := ws_pending s, ws_pending := [], ws_early := False, ws_pc := Running\<rparr>"
  from run_to_exit [of ?u] assms(2) obtain n s' where s': "loop_run n ?u = Some s'" "ws_pc s' = Outside"
    "ws_executed s' = ws_executed s @ ws_pending s" by auto
  have "loop_run (Suc n) s = Some s'" using assms(3) s'(1) by (simp add: loop_next_pc)
  moreover have "ws_submitted s = ws_executed s @ ws_pending s" using assms(1,3) by (auto simp: wakeup_inv_def)
  ultimately show ?thesis unfolding leaves_def using s'(2,3) by metis
qed

lemma leaves_Handling:
  assumes "wakeup_inv s" "ws_callers s 0 = Idle" "ws_quit s" "ws_pc s = Handling b"
  shows "leaves s"
proof -
  have last: "leaves u" if u: "wakeup_inv u" "ws_callers u 0 = Idle" "ws_quit u" "ws_pc u = Handling False" for u :: "'a wstate"
  proof (rule leaves_after [where m = 1])
    let ?v = "u\<lparr>ws_calling := True, ws_pc := AtSwap\<rparr>"
    have next_u: "loop_next u = Some ?v" using u(4) by (simp add: loop_next_pc)
    then show "loop_run 1 u = Some ?v" by simp
    show "leaves ?v" by (rule leaves_AtSwap [OF wakeup_inv_loop [OF u(1,2) next_u]]) (simp_all add: u)
  qed simp_all
  show ?thesis
  proof (cases b)
    case True
    let ?v = "s\<lparr>ws_counter := 0, ws_pc := Handling False\<rparr>"
    have next_s: "loop_next s = Some ?v" using assms(4) True by (simp add: loop_next_pc)
    have "leaves ?v" by (rule last [OF wakeup_inv_loop [OF assms(1,2) next_s]]) (simp_all add: assms)
    then show ?thesis by (rule leaves_after [where m = 1, rotated]) (simp_all add: next_s)
  qed (use assms last in auto)
qed

lemma leaves_Polling:
  assumes "wakeup_inv s" "\<forall>t. ws_callers s t = Idle" "ws_quit s" "ws_pc s = Polling"
  shows "leaves s"
proof -
  have "quit_pending s" using assms(1,3,4) by (simp add: wakeup_inv_def)
  then have next_s: "loop_next s = Some (s\<lparr>ws_pc := Handling True\<rparr>)"
    using assms(2,4) by (simp add: quit_pending_def loop_next_pc)
  have "leaves (s\<lparr>ws_pc := Handling True\<rparr>)"
    by (rule leaves_Handling [where b = True]) (use wakeup_inv_loop [OF assms(1) _ next_s] assms in simp_all)
  then show ?thesis by (rule leaves_after [where m = 1, rotated]) (simp_all add: next_s assms(4))
qed

text \<open>
  C22: \<open>quit\<close> called while \<open>loop()\<close> runs, by any thread, the loop thread included, and wherever the loop
  thread is in the loop, ends it: in every reachable state inside \<open>loop()\<close> in which \<open>quit_\<close> is set and the
  calls of \<open>queueInLoop\<close> and \<open>quit\<close> in progress have returned, the loop thread leaves the loop after finitely
  many steps of its own, without waiting for another event or for the time limit of \<open>epoll_wait\<close>.
  Unless it was at the loop condition or already running functors, it has run everything that was queued.
\<close>

theorem quit_is_noticed:
  assumes "reachable s" and "\<forall>t. ws_callers s t = Idle" and "ws_quit s" and "ws_pc s \<noteq> Outside"
  shows "\<exists>n s'. loop_run n s = Some s' \<and> ws_pc s' = Outside \<and>
    (ws_pc s \<noteq> AtTest \<and> ws_pc s \<noteq> Running \<longrightarrow> ws_executed s' = ws_submitted s)"
proof -
  have inv: "wakeup_inv s" by (rule reachable_inv [OF assms(1)])
  have "leaves s"
    using assms leaves_AtTest leaves_Running leaves_AtSwap [OF inv] leaves_Handling [OF inv] leaves_Polling [OF inv]
    by (cases "ws_pc s") auto
  then show ?thesis by (simp add: leaves_def)
qed

section \<open>Concrete runs\<close>

definition polling :: "nat list \<Rightarrow> bool \<Rightarrow> nat \<Rightarrow> bool \<Rightarrow> nat wstate" where
  "polling fs q n e = \<lparr>ws_pending = fs, ws_calling = False, ws_quit = q, ws_counter = n, ws_pc = Polling,
     ws_functors = [], ws_callers = (\<lambda>_. Idle), ws_submitted = fs, ws_executed = [], ws_early = e\<rparr>"

lemma all_idle [simp]: "(\<lambda>_. Idle)(t := Idle) = (\<lambda>_. Idle)"
  by auto

lemma reachable_polling: "reachable (polling [] False 0 False)"
proof -
  have "step ws_init (ws_init\<lparr>ws_pc := AtTest\<rparr> :: nat wstate)"
    by (rule step.Loop) (simp_all add: ws_init_def loop_next_pc)
  moreover have "step (ws_init\<lparr>ws_pc := AtTest\<rparr>) (polling [] False 0 False)"
    by (rule step.Loop) (simp_all add: ws_init_def loop_next_pc polling_def)
  ultimately show ?thesis by (blast intro: reachable.intros)
qed

lemma reachable_queued: "reachable (polling [8] False 1 False)"
proof -
  let ?s = "(polling [8] False 0 False)\<lparr>ws_callers := (\<lambda>_. Idle)(1 := Pushed)\<rparr>"
  have "step (polling [] False 0 False) ?s"
    using step.Push [of 1 "polling [] False 0 False" 8] by (simp add: may_call_def polling_def)
  moreover have "step ?s (polling [8] False 1 False)"
    using step.Wake [of ?s 1] by (simp add: polling_def)
  ultimately show ?thesis using reachable_polling by (blast intro: reachable.intros)
qed

lemma reachable_quit: "reachable (polling [] True 1 False)"
proof -
  let ?s = "(polling [] True 0 False)\<lparr>ws_callers := (\<lambda>_. Idle)(1 := Quitting)\<rparr>"
  have "step (polling [] False 0 False) ?s"
    using step.Quit [of 1 "polling [] False 0 False"] by (simp add: may_call_def polling_def)
  moreover have "step ?s (polling [] True 1 False)"
    using step.QuitWake [of ?s 1] by (simp add: polling_def)
  ultimately show ?thesis using reachable_polling by (blast intro: reachable.intros)
qed

theorem functors_exactly_once_in_order_witness:
  "reachable (polling [8] False 1 False) \<and>
   ws_submitted (polling [8] False 1 False) =
     ws_executed (polling [8] False 1 False) @ ws_functors (polling [8] False 1 False) @
     ws_pending (polling [8] False 1 False)"
  using functors_exactly_once_in_order [OF reachable_queued] reachable_queued by simp

theorem queued_functors_are_run_witness:
  "reachable (polling [8] False 1 False) \<and> settled (polling [8] False 1 False) \<and>
   (\<exists>n s'. loop_run n (polling [8] False 1 False) = Some s' \<and> ws_executed s' = [8])"
proof -
  have s: "settled (polling [8] False 1 False)" by (simp add: settled_def polling_def)
  with queued_functors_are_run [OF reachable_queued s] reachable_queued show ?thesis
    by (simp add: polling_def)
qed

theorem quit_is_noticed_witness:
  "reachable (polling [] True 1 False) \<and>
   (\<exists>n s'. loop_run n (polling [] True 1 False) = Some s' \<and> ws_pc s' = Outside)"
  using quit_is_noticed [OF reachable_quit] reachable_quit by (auto simp: polling_def)

text \<open>
  A functor that the loop thread itself queues before it enters \<open>loop()\<close> does not get a
  wake-up, since \<open>callingPendingFunctors_\<close> is false there: there is a reachable state in which all
  calls have returned, the functor is queued and the loop is blocked in \<open>epoll_wait\<close>, until another
  event or the time limit.
\<close>

theorem early_functor_waits:
  "\<exists>s :: nat wstate. reachable s \<and> (\<forall>t. ws_callers s t = Idle) \<and> ws_pending s = [8] \<and> ws_pc s = Polling \<and>
     loop_next s = None"
proof -
  let ?p = "ws_init\<lparr>ws_pending := [8], ws_submitted := [8], ws_early := True\<rparr> :: nat wstate"
  have 1: "step ws_init (?p\<lparr>ws_callers := (\<lambda>_. Idle)(0 := Pushed)\<rparr>)"
    using step.Push [of 0 ws_init "8 :: nat"] by (simp add: may_call_def ws_init_def)
  have 2: "step (?p\<lparr>ws_callers := (\<lambda>_. Idle)(0 := Pushed)\<rparr>) ?p"
    using step.NoWake [of "?p\<lparr>ws_callers := (\<lambda>_. Idle)(0 := Pushed)\<rparr>" 0] by (simp add: ws_init_def)
  have 3: "step ?p (?p\<lparr>ws_pc := AtTest\<rparr>)"
    by (rule step.Loop) (simp_all add: ws_init_def loop_next_pc)
  have 4: "step (?p\<lparr>ws_pc := AtTest\<rparr>) (polling [8] False 0 True)"
    by (rule step.Loop) (simp_all add: ws_init_def loop_next_pc polling_def)
  have "reachable (polling [8] False 0 True)"
    by (rule reachable.Step [OF reachable.Step [OF reachable.Step [OF reachable.Step [OF reachable.Init 1] 2] 3] 4])
  then show ?thesis
    by (intro exI [of _ "polling [8] False 0 True"]) (simp add: polling_def loop_next_pc)
qed

end
