(* ===== verification/LoopThread.thy ===== *)
theory LoopThread
  imports ThreadPool
begin

text \<open>
  \<open>network/EventLoopThread.h\<close> and \<open>network/src/EventLoopThread.cc\<close>: the handshake by which
  \<open>startLoop\<close> waits for the loop its new thread runs, and the destructor that ends it. Two threads
  interleave, the owner of the object (which runs \<open>startLoop\<close> and later the destructor) and the
  thread that runs \<open>threadFunc\<close>. Every step is one access to what they share: the mutex, \<open>loop_\<close>
  and the flag \<open>quit_\<close> of the loop. A \<open>cv_.wait\<close> releases the mutex and sleeps until \<open>notify_all\<close> or
  a spurious wake-up. That a running loop notices \<open>quit\<close> is shown in the theory \<open>Wakeup\<close>; here
  \<open>loop()\<close> returns once \<open>quit_\<close> is set.
\<close>

section \<open>State\<close>

datatype owner_pc =
    S_Spawn | S_Lock | S_Test | S_Wait | S_Relock | S_Unlock "ptr option" | S_Returned "ptr option"
  | D_Exit | D_Test | D_Quit | D_Join | D_Done | Crashed

datatype thread_pc =
    T_None | T_Construct | T_Callback | T_Lock | T_Publish | T_Unlock | T_Enter | T_Loop
  | T_Lock2 | T_Clear | T_Unlock2 | T_Done

datatype who = Owner | LoopThread

text \<open>\<open>lt_ran\<close> only observes whether \<open>callback_\<close> has run.\<close>

record loop_thread =
  lt_loop :: "ptr option"
  lt_exiting :: bool
  lt_callback :: bool
  lt_mutex :: "who option"
  lt_quit :: bool
  lt_owner :: owner_pc
  lt_thread :: thread_pc
  lt_ran :: bool

definition mk_EventLoopThread :: "bool \<Rightarrow> loop_thread" where
  "mk_EventLoopThread cb = \<lparr>lt_loop = None, lt_exiting = False, lt_callback = cb, lt_mutex = None, lt_quit = False,
     lt_owner = S_Spawn, lt_thread = T_None, lt_ran = False\<rparr>"

section \<open>Steps\<close>

text \<open>
  \<open>startLoop\<close> and the destructor. The destructor tests \<open>loop_\<close> without the mutex; destroying a
  \<open>std::thread\<close> that has not been joined calls \<open>std::terminate\<close>.
\<close>

fun owner_next :: "loop_thread \<Rightarrow> loop_thread option" where
  "owner_next s = (case lt_owner s of
     S_Spawn \<Rightarrow> Some (s\<lparr>lt_thread := T_Construct, lt_owner := S_Lock\<rparr>)
   | S_Lock \<Rightarrow> (if lt_mutex s = None then Some (s\<lparr>lt_mutex := Some Owner, lt_owner := S_Test\<rparr>) else None)
   | S_Test \<Rightarrow> (case lt_loop s of
       None \<Rightarrow> Some (s\<lparr>lt_mutex := None, lt_owner := S_Wait\<rparr>)
     | Some l \<Rightarrow> Some (s\<lparr>lt_owner := S_Unlock (Some l)\<rparr>))
   | S_Wait \<Rightarrow> None
   | S_Relock \<Rightarrow> (if lt_mutex s = None then Some (s\<lparr>lt_mutex := Some Owner, lt_owner := S_Test\<rparr>) else None)
   | S_Unlock l \<Rightarrow> Some (s\<lparr>lt_mutex := None, lt_owner := S_Returned l\<rparr>)
   | S_Returned l \<Rightarrow> None
   | D_Exit \<Rightarrow> Some (s\<lparr>lt_exiting := True, lt_owner := D_Test\<rparr>)
   | D_Test \<Rightarrow> Some (s\<lparr>lt_owner := (if lt_loop s \<noteq> None then D_Quit else Crashed)\<rparr>)
   | D_Quit \<Rightarrow> (case lt_loop s of
       None \<Rightarrow> Some (s\<lparr>lt_owner := Crashed\<rparr>)
     | Some l \<Rightarrow> Some (s\<lparr>lt_quit := True, lt_owner := D_Join\<rparr>))
   | D_Join \<Rightarrow> (if lt_thread s = T_Done then Some (s\<lparr>lt_owner := D_Done\<rparr>) else None)
   | D_Done \<Rightarrow> None
   | Crashed \<Rightarrow> None)"

text \<open>\<open>threadFunc\<close>, with the loop at address \<open>l\<close>; \<open>loop()\<close> starts by clearing \<open>quit_\<close>.\<close>

fun thread_next :: "ptr \<Rightarrow> loop_thread \<Rightarrow> loop_thread option" where
  "thread_next l s = (case lt_thread s of
     T_None \<Rightarrow> None
   | T_Construct \<Rightarrow> Some (s\<lparr>lt_quit := False, lt_thread := (if lt_callback s then T_Callback else T_Lock)\<rparr>)
   | T_Callback \<Rightarrow> Some (s\<lparr>lt_ran := True, lt_thread := T_Lock\<rparr>)
   | T_Lock \<Rightarrow> (if lt_mutex s = None then Some (s\<lparr>lt_mutex := Some LoopThread, lt_thread := T_Publish\<rparr>) else None)
   | T_Publish \<Rightarrow> Some (s\<lparr>lt_loop := Some l, lt_thread := T_Unlock,
       lt_owner := (if lt_owner s = S_Wait then S_Relock else lt_owner s)\<rparr>)
   | T_Unlock \<Rightarrow> Some (s\<lparr>lt_mutex := None, lt_thread := T_Enter\<rparr>)
   | T_Enter \<Rightarrow> Some (s\<lparr>lt_quit := False, lt_thread := T_Loop\<rparr>)
   | T_Loop \<Rightarrow> (if lt_quit s then Some (s\<lparr>lt_thread := T_Lock2\<rparr>) else None)
   | T_Lock2 \<Rightarrow> (if lt_mutex s = None then Some (s\<lparr>lt_mutex := Some LoopThread, lt_thread := T_Clear\<rparr>) else None)
   | T_Clear \<Rightarrow> Some (s\<lparr>lt_loop := None, lt_thread := T_Unlock2\<rparr>)
   | T_Unlock2 \<Rightarrow> Some (s\<lparr>lt_mutex := None, lt_thread := T_Done\<rparr>)
   | T_Done \<Rightarrow> None)"

datatype lt_label = Normal | Spurious | Destroy | UserQuit

text \<open>
  Who got the loop from \<open>startLoop\<close> may call \<open>quit\<close> on it, and the object may be destroyed any time
  after \<open>startLoop\<close> returned.
\<close>

inductive lt_step :: "ptr \<Rightarrow> lt_label \<Rightarrow> loop_thread \<Rightarrow> loop_thread \<Rightarrow> bool" for l where
  Owner_step: "owner_next s = Some s' \<Longrightarrow> lt_step l Normal s s'"
| Thread_step: "thread_next l s = Some s' \<Longrightarrow> lt_step l Normal s s'"
| Spurious_step: "lt_owner s = S_Wait \<Longrightarrow> lt_step l Spurious s (s\<lparr>lt_owner := S_Relock\<rparr>)"
| Destroy_step: "lt_owner s = S_Returned r \<Longrightarrow> lt_step l Destroy s (s\<lparr>lt_owner := D_Exit\<rparr>)"
| Quit_step: "lt_owner s = S_Returned r \<Longrightarrow> lt_step l UserQuit s (s\<lparr>lt_quit := True\<rparr>)"

inductive lt_run :: "ptr \<Rightarrow> loop_thread \<Rightarrow> lt_label list \<Rightarrow> loop_thread \<Rightarrow> bool" for l where
  Refl: "lt_run l s [] s"
| Step: "lt_run l s as u \<Longrightarrow> lt_step l a u v \<Longrightarrow> lt_run l s (as @ [a]) v"

inductive_cases lt_stepE: "lt_step l a s s'"

section \<open>Invariant\<close>

text \<open>Who is inside a critical section, and what has happened when a thread is where it is.\<close>

fun starting :: "owner_pc \<Rightarrow> bool" where
  "starting (S_Returned r) = False" | "starting D_Exit = False" | "starting D_Test = False"
| "starting D_Quit = False" | "starting D_Join = False" | "starting D_Done = False" | "starting Crashed = False"
| "starting _ = True"

fun owner_holds :: "owner_pc \<Rightarrow> bool" where
  "owner_holds S_Test = True" | "owner_holds (S_Unlock r) = True" | "owner_holds _ = False"

fun thread_holds :: "thread_pc \<Rightarrow> bool" where
  "thread_holds T_Publish = True" | "thread_holds T_Unlock = True" | "thread_holds T_Clear = True"
| "thread_holds T_Unlock2 = True" | "thread_holds _ = False"

fun early :: "thread_pc \<Rightarrow> bool" where
  "early T_None = True" | "early T_Construct = True" | "early T_Callback = True" | "early T_Lock = True"
| "early T_Publish = True" | "early _ = False"

fun late :: "thread_pc \<Rightarrow> bool" where
  "late T_Lock2 = True" | "late T_Clear = True" | "late T_Unlock2 = True" | "late T_Done = True" | "late _ = False"

fun published :: "thread_pc \<Rightarrow> bool" where
  "published T_Unlock = True" | "published T_Enter = True" | "published T_Loop = True" | "published T_Lock2 = True"
| "published T_Clear = True" | "published _ = False"

fun called :: "thread_pc \<Rightarrow> bool" where
  "called T_None = False" | "called T_Construct = False" | "called T_Callback = False" | "called _ = True"

fun result_ok :: "ptr \<Rightarrow> owner_pc \<Rightarrow> thread_pc \<Rightarrow> bool" where
  "result_ok l (S_Unlock r) t \<longleftrightarrow> r = Some l \<and> published t"
| "result_ok l (S_Returned r) t \<longleftrightarrow> r = Some l"
| "result_ok l S_Wait t \<longleftrightarrow> early t"
| "result_ok l _ t \<longleftrightarrow> True"

definition lt_inv :: "ptr \<Rightarrow> loop_thread \<Rightarrow> bool" where
  "lt_inv l s \<longleftrightarrow>
     lt_mutex s = (if owner_holds (lt_owner s) then Some Owner else if thread_holds (lt_thread s) then Some LoopThread else None) \<and>
     \<not> (owner_holds (lt_owner s) \<and> thread_holds (lt_thread s)) \<and>
     lt_loop s = (if published (lt_thread s) then Some l else None) \<and>
     (lt_owner s = S_Spawn \<longleftrightarrow> lt_thread s = T_None) \<and>
     (starting (lt_owner s) \<longrightarrow> \<not> lt_quit s \<and> \<not> late (lt_thread s)) \<and>
     (\<not> starting (lt_owner s) \<longrightarrow> \<not> early (lt_thread s)) \<and>
     (called (lt_thread s) \<and> lt_callback s \<longrightarrow> lt_ran s) \<and>
     result_ok l (lt_owner s) (lt_thread s)"

lemma lt_inv_init: "lt_inv l (mk_EventLoopThread cb)"
  by (simp add: lt_inv_def mk_EventLoopThread_def)

lemma lt_inv_owner:
  assumes "lt_inv l s"
  shows "pred_option (lt_inv l) (owner_next s)"
  using assms by (cases "lt_owner s"; cases "lt_thread s"; simp add: lt_inv_def)

lemma lt_inv_thread:
  assumes "lt_inv l s"
  shows "pred_option (lt_inv l) (thread_next l s)"
  using assms by (cases "lt_thread s"; cases "lt_owner s"; simp add: lt_inv_def)

lemma lt_inv_step:
  assumes "lt_inv l s" "lt_step l a s s'"
  shows "lt_inv l s'"
  using assms(2)
proof cases
  case Spurious_step
  with assms(1) show ?thesis by (auto simp: lt_inv_def)
next
  case (Destroy_step r)
  with assms(1) show ?thesis by (simp add: lt_inv_def)
next
  case (Quit_step r)
  with assms(1) show ?thesis by (simp add: lt_inv_def)
qed (use lt_inv_owner [OF assms(1)] lt_inv_thread [OF assms(1)] in \<open>simp_all del: owner_next.simps thread_next.simps\<close>)

lemma lt_inv_run: "lt_run l s as u \<Longrightarrow> lt_inv l s \<Longrightarrow> lt_inv l u"
  by (induction rule: lt_run.induct) (auto intro: lt_inv_step)

section \<open>startLoop\<close>

text \<open>Every step of the two threads comes closer to the end; a spurious wake-up costs two steps.\<close>

fun owner_rank :: "owner_pc \<Rightarrow> nat" where
  "owner_rank S_Spawn = 5" | "owner_rank S_Lock = 4" | "owner_rank S_Relock = 4" | "owner_rank S_Test = 3"
| "owner_rank S_Wait = 2" | "owner_rank (S_Unlock r) = 1" | "owner_rank _ = 0"

fun thread_rank :: "thread_pc \<Rightarrow> nat" where
  "thread_rank T_None = 12" | "thread_rank T_Construct = 12" | "thread_rank T_Callback = 11"
| "thread_rank T_Lock = 10" | "thread_rank T_Publish = 9" | "thread_rank T_Unlock = 6" | "thread_rank T_Enter = 5"
| "thread_rank T_Loop = 4" | "thread_rank T_Lock2 = 3" | "thread_rank T_Clear = 2" | "thread_rank T_Unlock2 = 1"
| "thread_rank T_Done = 0"

definition lt_rank :: "loop_thread \<Rightarrow> nat" where
  "lt_rank s = owner_rank (lt_owner s) + thread_rank (lt_thread s)"

lemma starting_normal_step:
  assumes "lt_step l Normal s s'" "starting (lt_owner s)" "lt_inv l s"
  shows "lt_rank s' < lt_rank s"
  using assms(1)
proof cases
  case Owner_step
  with assms(2,3) show ?thesis
    by (cases "lt_owner s") (auto simp: lt_rank_def lt_inv_def split: if_splits option.splits)
next
  case Thread_step
  then show ?thesis
    by (cases "lt_thread s") (auto simp: lt_rank_def split: if_splits)
qed

lemma starting_before:
  assumes "lt_step l a s s'" "starting (lt_owner s')"
  shows "starting (lt_owner s) \<and> (a = Normal \<or> a = Spurious)"
  using assms(1)
proof cases
  case Owner_step
  with assms(2) show ?thesis
    by (cases "lt_owner s") (auto split: if_splits option.splits)
next
  case Thread_step
  with assms(2) show ?thesis
    by (cases "lt_thread s") (auto split: if_splits)
qed (use assms(2) in auto)

lemma starting_run:
  assumes "lt_run l s as u" "lt_inv l s" "starting (lt_owner u)"
  shows "count_list as Normal + lt_rank u \<le> lt_rank s + 2 * count_list as Spurious"
  using assms
proof (induction rule: lt_run.induct)
  case (Step s as u a v)
  from starting_before [OF Step.hyps(2) Step.prems(2)] have u: "starting (lt_owner u)" and a: "a = Normal \<or> a = Spurious"
    by simp_all
  have inv: "lt_inv l u" using lt_inv_run Step by blast
  have "lt_rank v < lt_rank u" if "a = Normal"
    using starting_normal_step Step.hyps(2) u inv that by blast
  moreover have "lt_rank v = lt_rank u + 2" if "a = Spurious"
    using Step.hyps(2) that by (auto elim!: lt_stepE simp: lt_rank_def)
  ultimately show ?case using Step.IH [OF Step.prems(1) u] a by auto
qed simp

lemma starting_not_stuck:
  assumes "lt_inv l s" "starting (lt_owner s)"
  shows "\<exists>s'. lt_step l Normal s s'"
proof -
  have "owner_next s \<noteq> None \<or> thread_next l s \<noteq> None"
    using assms by (cases "lt_owner s"; cases "lt_thread s") (auto simp: lt_inv_def)
  then show ?thesis using lt_step.intros(1,2) by (metis not_None_eq)
qed

text \<open>
  C36: \<open>startLoop\<close> returns, and returns the loop. In every interleaving of the owner and the new
  thread, spurious wake-ups included, as long as \<open>startLoop\<close> has not returned one of the two threads
  can take a step; after at most seventeen steps, and two more for every spurious wake-up, it has
  returned; and what it returns is the loop of the new thread, never a null pointer, after the
  initialisation callback has run.
\<close>

theorem startLoop_returns:
  assumes "lt_run l (mk_EventLoopThread cb) as s"
  shows "(starting (lt_owner s) \<longrightarrow> (\<exists>s'. lt_step l Normal s s') \<and>
      count_list as Normal \<le> 17 + 2 * count_list as Spurious) \<and>
    (\<forall>r. lt_owner s = S_Returned r \<longrightarrow> r = Some l \<and> (cb \<longrightarrow> lt_ran s))"
proof -
  have inv: "lt_inv l s" by (rule lt_inv_run [OF assms lt_inv_init])
  have cb: "lt_callback u = lt_callback (mk_EventLoopThread cb)" if "lt_run l (mk_EventLoopThread cb) bs u" for bs u
    using that by (induction rule: lt_run.induct) (auto elim!: lt_stepE split: owner_pc.splits thread_pc.splits if_splits option.splits)
  have "lt_rank (mk_EventLoopThread cb) = 17" by (simp add: lt_rank_def mk_EventLoopThread_def)
  then have "starting (lt_owner s) \<longrightarrow> count_list as Normal \<le> 17 + 2 * count_list as Spurious"
    using starting_run [OF assms lt_inv_init] by auto
  moreover have "r = Some l \<and> (cb \<longrightarrow> lt_ran s)" if "lt_owner s = S_Returned r" for r
    using inv that cb [OF assms] by (cases "lt_thread s") (auto simp: lt_inv_def mk_EventLoopThread_def)
  ultimately show ?thesis using starting_not_stuck [OF inv] by blast
qed

text \<open>A run given by who moves.\<close>

fun lt_exec :: "ptr \<Rightarrow> who list \<Rightarrow> loop_thread \<Rightarrow> loop_thread option" where
  "lt_exec l [] s = Some s"
| "lt_exec l (x # xs) s = Option.bind (case x of Owner \<Rightarrow> owner_next s | LoopThread \<Rightarrow> thread_next l s) (lt_exec l xs)"

lemma lt_run_trans: "lt_run l u bs v \<Longrightarrow> lt_run l s as u \<Longrightarrow> lt_run l s (as @ bs) v"
  by (induction rule: lt_run.induct) (auto simp: append_assoc [symmetric] simp del: append_assoc intro: lt_run.intros)

lemma lt_run_single: "lt_step l a s s' \<Longrightarrow> lt_run l s [a] s'"
  using lt_run.Step [OF lt_run.Refl] by fastforce

lemma lt_exec_run: "lt_exec l xs s = Some u \<Longrightarrow> lt_run l s (replicate (length xs) Normal) u"
proof (induction xs arbitrary: s)
  case (Cons x xs)
  then obtain v where v: "(case x of Owner \<Rightarrow> owner_next s | LoopThread \<Rightarrow> thread_next l s) = Some v" "lt_exec l xs v = Some u"
    by (auto simp: bind_eq_Some_conv simp del: owner_next.simps thread_next.simps)
  then have "lt_step l Normal s v" by (cases x) (auto intro: lt_step.intros simp del: owner_next.simps thread_next.simps)
  from lt_run_trans [OF Cons.IH [OF v(2)] lt_run_single [OF this]] show ?case by simp
qed (auto intro: lt_run.Refl)

definition published_state :: loop_thread where
  "published_state = \<lparr>lt_loop = Some 9, lt_exiting = False, lt_callback = True, lt_mutex = None, lt_quit = False,
     lt_owner = S_Returned (Some 9), lt_thread = T_Enter, lt_ran = True\<rparr>"

lemma published_state_reached:
  "lt_run 9 (mk_EventLoopThread True) (replicate 11 Normal) published_state"
proof -
  have "lt_exec 9 [Owner, Owner, Owner, LoopThread, LoopThread, LoopThread, LoopThread, LoopThread, Owner, Owner, Owner]
      (mk_EventLoopThread True) = Some published_state"
    by (simp add: mk_EventLoopThread_def published_state_def)
  from lt_exec_run [OF this] show ?thesis by (simp add: numeral_eq_Suc)
qed

theorem startLoop_returns_witness:
  "\<exists>as s. lt_run 9 (mk_EventLoopThread True) as s \<and> lt_owner s = S_Returned (Some 9) \<and> lt_ran s"
proof (intro exI conjI)
  show "lt_run 9 (mk_EventLoopThread True) (replicate 11 Normal) published_state" by (rule published_state_reached)
  show "lt_owner published_state = S_Returned (Some 9)" by (simp add: published_state_def)
  with startLoop_returns [OF published_state_reached] show "lt_ran published_state" by simp
qed

section \<open>The destructor\<close>

text \<open>States of a destructor that was entered while the loop was running, and the steps left.\<close>

definition closing :: "loop_thread \<Rightarrow> bool" where
  "closing s \<longleftrightarrow>
     lt_owner s \<in> {D_Exit, D_Test, D_Quit} \<and> lt_thread s = T_Loop \<and> \<not> lt_quit s \<or>
     lt_owner s = D_Join \<and> lt_quit s \<and> (lt_thread s = T_Loop \<or> late (lt_thread s)) \<or>
     lt_owner s = D_Done \<and> lt_thread s = T_Done"

fun closing_rank :: "owner_pc \<Rightarrow> nat" where
  "closing_rank D_Exit = 4" | "closing_rank D_Test = 3" | "closing_rank D_Quit = 2" | "closing_rank D_Join = 1"
| "closing_rank _ = 0"

lemma closing_owner:
  assumes "lt_inv l s" "closing s"
  shows "pred_option (\<lambda>s'. closing s' \<and>
    closing_rank (lt_owner s') + thread_rank (lt_thread s') < closing_rank (lt_owner s) + thread_rank (lt_thread s)) (owner_next s)"
  using assms by (cases "lt_owner s"; cases "lt_thread s"; simp add: lt_inv_def closing_def)

lemma closing_thread:
  assumes "lt_inv l s" "closing s"
  shows "pred_option (\<lambda>s'. closing s' \<and>
    closing_rank (lt_owner s') + thread_rank (lt_thread s') < closing_rank (lt_owner s) + thread_rank (lt_thread s)) (thread_next l s)"
  using assms by (cases "lt_owner s"; cases "lt_thread s"; simp add: lt_inv_def closing_def)

lemma closing_step:
  assumes "lt_inv l s" "closing s" "lt_step l a s s'"
  shows "closing s' \<and>
    closing_rank (lt_owner s') + thread_rank (lt_thread s') < closing_rank (lt_owner s) + thread_rank (lt_thread s)"
  using assms(3)
proof cases
  case Owner_step
  with closing_owner [OF assms(1,2)] show ?thesis by (simp del: owner_next.simps)
next
  case Thread_step
  with closing_thread [OF assms(1,2)] show ?thesis by (simp del: thread_next.simps)
qed (use assms(2) in \<open>auto simp: closing_def\<close>)

lemma closing_run:
  assumes "lt_run l s as u" "lt_inv l s" "closing s"
  shows "closing u \<and> length as + closing_rank (lt_owner u) + thread_rank (lt_thread u) \<le>
    closing_rank (lt_owner s) + thread_rank (lt_thread s)"
  using assms
proof (induction rule: lt_run.induct)
  case (Step s as u a v)
  with lt_inv_run closing_step [of l u a v] show ?case by fastforce
qed simp

lemma closing_not_stuck:
  assumes "lt_inv l s" "closing s"
  shows "lt_owner s = D_Done \<and> lt_thread s = T_Done \<or> owner_next s \<noteq> None \<or> thread_next l s \<noteq> None"
  using assms by (cases "lt_owner s"; cases "lt_thread s"; simp add: lt_inv_def closing_def)


lemma lt_run_then: "lt_run l s as u \<Longrightarrow> lt_step l a u v \<Longrightarrow> lt_exec l xs v = Some t \<Longrightarrow> \<exists>bs. lt_run l s bs t"
  using lt_run.Step lt_exec_run lt_run_trans by blast


text \<open>
  C40: two ways for the destructor to fail. If it runs after \<open>startLoop\<close> returned but before the thread
  has entered \<open>loop()\<close>, then \<open>loop()\<close> clears the request to quit, the loop runs for ever and \<open>join\<close>
  never returns: no thread can take a step. If the loop has already ended because someone called
  \<open>quit\<close> on it, \<open>loop_\<close> is null again, the destructor skips \<open>join\<close>, and destroying the joinable
  \<open>std::thread\<close> terminates the program.
\<close>

theorem destructor_hazards:
  "(\<exists>as s. lt_run 9 (mk_EventLoopThread True) as s \<and> lt_owner s = D_Join \<and> lt_thread s = T_Loop \<and>
      (\<forall>a s'. \<not> lt_step 9 a s s')) \<and>
   (\<exists>as s. lt_run 9 (mk_EventLoopThread True) as s \<and> lt_owner s = Crashed \<and> lt_thread s = T_Done)"
proof
  let ?s = "published_state\<lparr>lt_owner := D_Exit\<rparr>"
  have "lt_step 9 Destroy published_state ?s" by (rule Destroy_step) (simp add: published_state_def)
  moreover have "lt_exec 9 [Owner, Owner, Owner, LoopThread] ?s =
      Some (published_state\<lparr>lt_owner := D_Join, lt_exiting := True, lt_thread := T_Loop\<rparr>)" (is "_ = Some ?t")
    by (simp add: published_state_def)
  ultimately obtain as where "lt_run 9 (mk_EventLoopThread True) as ?t"
    using lt_run_then [OF published_state_reached] by blast
  moreover have "\<forall>a s'. \<not> lt_step 9 a ?t s'"
    by (auto elim!: lt_stepE simp: published_state_def)
  ultimately show "\<exists>as s. lt_run 9 (mk_EventLoopThread True) as s \<and> lt_owner s = D_Join \<and> lt_thread s = T_Loop \<and>
      (\<forall>a s'. \<not> lt_step 9 a s s')" by (intro exI [of _ as] exI [of _ ?t]) simp
next
  let ?r = "published_state\<lparr>lt_thread := T_Loop\<rparr>"
  let ?q = "?r\<lparr>lt_quit := True\<rparr>"
  let ?e = "?q\<lparr>lt_thread := T_Done, lt_loop := None\<rparr>"
  have "lt_step 9 Normal published_state ?r" by (rule Thread_step) (simp add: published_state_def)
  then obtain as where "lt_run 9 (mk_EventLoopThread True) as ?r"
    using lt_run.Step [OF published_state_reached] by blast
  moreover have "lt_step 9 UserQuit ?r ?q" by (rule Quit_step) (simp add: published_state_def)
  moreover have "lt_exec 9 [LoopThread, LoopThread, LoopThread, LoopThread] ?q = Some ?e"
    by (simp add: published_state_def)
  ultimately obtain bs where "lt_run 9 (mk_EventLoopThread True) bs ?e" using lt_run_then by blast
  moreover have "lt_step 9 Destroy ?e (?e\<lparr>lt_owner := D_Exit\<rparr>)" by (rule Destroy_step) (simp add: published_state_def)
  moreover have "lt_exec 9 [Owner, Owner] (?e\<lparr>lt_owner := D_Exit\<rparr>) = Some (?e\<lparr>lt_owner := Crashed, lt_exiting := True\<rparr>)"
    by (simp add: published_state_def)
  ultimately obtain cs where "lt_run 9 (mk_EventLoopThread True) cs (?e\<lparr>lt_owner := Crashed, lt_exiting := True\<rparr>)"
    using lt_run_then by blast
  then show "\<exists>as s. lt_run 9 (mk_EventLoopThread True) as s \<and> lt_owner s = Crashed \<and> lt_thread s = T_Done" by fastforce
qed

end
