(* ===== verification/Spec2Isabelle.thy ===== *)
theory Spec2Isabelle
  imports RpcPair RpcTyping ExampleClient SocketOptions ProcessState ThreadLocal Wakeup LoopThread
begin

text \<open>
  A verification of \<open>proto_rpc\<close>, remote procedure calls over protobuf on an epoll reactor
  (\<open>src/network\<close>, \<open>src/proto_rpc\<close>), and of its example programs (\<open>src/examples\<close>).

  \<^bold>\<open>The program.\<close> An \<open>EventLoop\<close> owns a \<open>Poller\<close> (epoll) and runs, in one thread, the callbacks of the
  \<open>Channel\<close>s that have events and the functors other threads queue. A \<open>TcpConnection\<close> owns a socket, a
  channel and two \<open>Buffer\<close>s. On the server side an \<open>Acceptor\<close> accepts sockets and a \<open>TcpServer\<close> makes
  connections of them and spreads them over the loops of an \<open>EventLoopThreadPool\<close> of \<open>EventLoopThread\<close>s;
  on the client side a \<open>Connector\<close> connects a socket and a \<open>TcpClient\<close> makes a connection of it. Above a
  connection, \<open>ProtoRpcCodec\<close> frames messages, an \<open>RpcChannel\<close> matches responses with outstanding calls
  and runs requests on services, and \<open>RpcServer\<close> gives every connection its channel. The examples are a
  server that answers \<open>MonitorInfo\<close> and a client that calls it from several threads.

  \<^bold>\<open>Conventions.\<close> Operations return \<open>fault + result\<close>: the build is a debug build, so a failing \<open>assert\<close>
  stops the program, as do \<open>LOG(FATAL)\<close>, exceptions of the standard library, null and dangling pointers
  and accesses out of bounds. Objects live in stores that map addresses to records, one extension of the
  world per layer: \<open>world\<close> (channels, loops, the history of system calls), \<open>cworld\<close> (connections),
  \<open>sworld\<close> (acceptors, servers), \<open>rworld\<close> (RPC servers and channels), \<open>nworld\<close> (connectors),
  \<open>tworld\<close> (clients), \<open>mworld\<close> (the client of the examples). Operations are polymorphic in what extends the world they need. Closures built by
  \<open>std::bind\<close> are values of \<open>callback\<close> and \<open>Functor\<close> or numbers, run by a dispatcher. The kernel is the
  record \<open>os\<close> (\<open>net_os\<close>): a function per system call, of the history so far. What is assumed of it is named:
  \<open>epoll_ctl_contract\<close>, \<open>epoll_wait_contract\<close>, \<open>write_contract\<close>, \<open>readv_contract\<close>, \<open>socket_contract\<close>,
  \<open>accept_contract\<close>, \<open>startup_contract\<close>, \<open>fcntl_contract\<close>, \<open>setsockopt_contract\<close>, \<open>peer_alive\<close>. Where \<open>new\<close> puts
  an object is an argument too (\<open>fresh_alloc\<close>). Likewise zlib's \<open>adler32\<close> (\<open>is_adler32\<close>), the protobuf
  serialisation (\<open>sendable\<close>, \<open>codec_ok\<close>), the services (\<open>prompt\<close>) and \<open>inet_ntop\<close>/\<open>inet_pton\<close> (\<open>inet_ok\<close>) are
  arguments with named hypotheses. Each hypothesis is met by a concrete instance in a witness.

  \<^bold>\<open>Theories.\<close>
  \<^item> \<open>Prelude\<close>: faults and results, \<open>size_t\<close> arithmetic, bytes of words, the locale \<open>simulation\<close>.
  \<^item> \<open>Buffer\<close> (\<open>Endian.h\<close>, \<open>Buffer.h\<close>, \<open>Buffer.cc\<close>): the storage, the two indices, \<open>makeSpace\<close>, \<open>readFd\<close>.
    The locale \<open>byte_queue\<close> is what clients rely on and is interpreted on the operations: a buffer refines
    a queue of bytes; integers round trip; \<open>append\<close> and \<open>readFd\<close> are total up to \<open>length_error\<close>.
  \<^item> \<open>RpcCodec\<close> (\<open>RpcCodec.h\<close>, \<open>RpcCodec.cc\<close>): framing, checksum, the receive loop \<open>onMessage\<close>, against the
    reference decoder of the locale \<open>stream_decoder\<close>: segmentation does not matter, frames round trip,
    parsing reads in bounds, a bad frame blocks the stream for ever.
  \<^item> \<open>Reactor_State\<close>, \<open>Poller\<close>, \<open>Channel\<close>, \<open>EventLoop\<close> (the files of these names): the registry invariant
    ties the map of the poller, the states of the channels and the kernel's interest list together; the
    locale \<open>simulation\<close> is interpreted on scripts of channel operations.
  \<^item> \<open>Wakeup\<close>: the loop thread against threads that call \<open>queueInLoop\<close> and \<open>quit\<close>, as a step relation with
    the eventfd counter: no functor is lost, duplicated or reordered, and inside \<open>loop()\<close>
    no wake-up and no \<open>quit\<close> is lost.
  \<^item> \<open>TcpConnection\<close>, \<open>Connection\<close> (\<open>TcpConnection.h\<close>, \<open>TcpConnection.cc\<close>): all members; the invariant
    \<open>conns_inv\<close>, the dispatch of its events, the byte stream of a connection under partial writes, the life
    cycle, tear-down, and two ways to an abort.
  \<^item> \<open>ThreadPool\<close>, \<open>LoopThread\<close> (\<open>EventLoopThreadPool\<close>, \<open>EventLoopThread\<close>): round robin; the start-up
    handshake and the destructor as a step relation of two threads with mutex and condition variable.
  \<^item> \<open>InetAddress\<close>, \<open>Sockets\<close> (\<open>InetAddress\<close>, \<open>SocketsOps\<close>, \<open>Socket\<close>): addresses and their text; the system
    calls on sockets.
  \<^item> \<open>SocketOptions\<close> (the rest of \<open>SocketsOps\<close>, \<open>Socket\<close> and \<open>TcpConnection\<close>): flags and options of descriptors,
    \<open>getTcpInfo\<close> and its text.
  \<^item> \<open>ProcessState\<close> (\<open>util\<close>, the thread-local state of \<open>EventLoop\<close>): a thread has at most one loop; the clock.
  \<^item> \<open>TcpServer\<close>, \<open>Server\<close> (\<open>Acceptor\<close>, \<open>TcpServer\<close>): accepting, naming, removing; the map of connections.
  \<^item> \<open>Serving\<close>, \<open>ServerLoop\<close>, \<open>ServerRun\<close>, \<open>Startup\<close>, \<open>ServerSafety\<close>: a server in one thread, all dispatchers
    composed. The invariant \<open>serving\<close> ties the map of connections, the queued functors, the registry and the
    open descriptors together. The locale \<open>application\<close> says what callbacks may do; its client lemmas carry
    the invariant through events, functors and whole iterations. It is interpreted on callbacks that run
    any script of \<open>send\<close>, \<open>shutdown\<close>, \<open>forceClose\<close>, \<open>forceCloseWithDelay\<close>, \<open>retrieve\<close> and \<open>setMessageCallback\<close>
    (\<open>stopRead\<close> and \<open>startRead\<close> are left out, since \<open>Connection\<close> shows how they lead to an abort), and so from the
    constructors on, through any number of iterations, as long as there is a name for the next connection,
    no assertion fails, no destroyed connection is used and only open descriptors are closed.
  \<^item> \<open>Connector\<close>, \<open>Connecting\<close> (\<open>Connector\<close>): along the sequences of steps the code
    supports (\<open>cn_allowed\<close>) no socket is leaked, closed twice or handed over twice; others fail assertions.
  \<^item> \<open>TcpClient\<close> (\<open>TcpClient\<close>): a successful attempt becomes a connection.
  \<^item> \<open>RpcChannel\<close> (\<open>rpc.proto\<close>, \<open>RpcChannel\<close>, \<open>ProtoRpcCodec::send\<close>): calls complete once, requests are
    answered once.
  \<^item> \<open>RpcServer\<close> (\<open>RpcServer\<close>): requests that arrive on a socket are answered on its output stream.
  \<^item> \<open>RpcLoop\<close>: \<open>RpcServer\<close> as an \<open>application\<close>, whatever bytes arrive on its connections; the second
    interpretation of that interface.
  \<^item> \<open>RpcTyping\<close>: the address a stored closure is bound to always holds an object of the closure's type.
  \<^item> \<open>RpcPair\<close>: a client channel and a server channel joined by byte streams.
  \<^item> \<open>Monitor\<close>, \<open>ExampleClient\<close> (\<open>src/examples\<close>): the service, the messages and the class \<open>RpcClient\<close>: the call the
    programs make, its answer, and what happens when there is no connection or no answer.
  \<^item> \<open>ThreadLocal\<close> (\<open>src/examples/thread_local.cc\<close>): two threads with an object each, in any interleaving.
  \<^item> This theory: the end-to-end theorem.

  \<^bold>\<open>Bounds and termination.\<close> No model uses fuel. Loops over data are structural or have a measure
  (\<open>onMessage\<close> by the content of the buffer); the loop of \<open>EventLoop::loop\<close>, which need not end, is a
  \<open>partial_function\<close> in the option monad, and that it ends after \<open>quit\<close> is a theorem. Machine integers are words
  where the code relies on their width (lengths of frames, identifiers, ports, event masks, counters of
  iterations); \<open>size_t\<close> arithmetic wraps explicitly; the size of the event array is passed to
  \<open>epoll_wait\<close> as an \<open>int\<close>; \<open>nextConnId_\<close> is a 32-bit word whose increment wraps, and what is proved of names and
  of runs of a server asks for a counter below the maximum and a name that fits its buffer (\<open>name_fits\<close>,
  \<open>names_left\<close>), which holds when a server has been started.

  \<^bold>\<open>Not modelled.\<close> Logging and code compiled for Valgrind have no effect on the state described. The casts
  of \<open>SocketsOps\<close> and its wrappers \<open>read\<close>, \<open>readv\<close> and \<open>write\<close> are the system calls themselves, accessors that
  return a member are field selections, and the typedefs of \<open>Callbacks.h\<close> are the types of the model;
  \<open>operationToString\<close> is only logged. Timers are commented out in the sources. Reference counts of
  \<open>shared_ptr\<close> are not followed: destructors are operations of their own, whether a reference is the last one
  is an argument where the code asks, and for a server in one thread it is computed from the places that
  hold a connection (\<open>unreferenced\<close>). Handlers run to completion except in \<open>Wakeup\<close> and \<open>LoopThread\<close>,
  where the interleaving is the point; data races elsewhere (\<open>RpcChannel\<close> used from several threads)
  are outside. Generated protobuf code and the build files are left out.

  \<^bold>\<open>Beyond this.\<close> Two compositions would extend the development: a server whose connections live in the
  loops of several threads (the steps of \<open>Wakeup\<close> around the operations of \<open>Server\<close>), and the client of the
  examples over its own \<open>TcpConnection\<close>, where \<open>RpcPair\<close> joins the two channels by byte streams.
\<close>

section \<open>A client and a server\<close>

text \<open>
  C1: a client and a server work together. A client with nothing outstanding makes any number of
  calls; the bytes reach the server in any segmentation, and the bytes the server sends back reach
  the client in any segmentation. Then no assertion fails on either side, every request is answered
  once, and the closures of the calls run once each, in order, each with the response object of its
  own call holding what the server computed for it (or unparsed, when the server had an error);
  nothing stays outstanding, and nothing stays in the input buffers.
\<close>

theorem rpc_end_to_end:
  assumes "is_adler32 adler" "prompt ops serve" "no_null (rc_services srv)"
    and "rc_conn srv = Some sp" "rc_conn cl = Some cp" "rc_outstandings cl = Map.empty" "length cs < 2 ^ 64"
    and "reqs = call_requests (rc_id cl) cs" "reps = map (reply (rc_services srv) ops serve) reqs"
    and "\<forall>m \<in> set (reqs @ reps). sendable ser pfa m"
    and "buffer_inv sb" "content sb = []" "buffer_inv cb" "content cb = []"
    and "csend = codec_send adler ser wire_send" "ssend = codec_send adler ser wire_send"
    and "has_room sb (length (concat (map (frame adler ser) reqs)))"
    and "has_room cb (length (concat (map (frame adler ser) reps)))"
  shows "\<exists>cl1 out ret.
    foldR (call_op csend) cs (cl, [], []) = Inr (cl1, out, []) \<and>
    (\<forall>chunks. concat chunks = out \<longrightarrow>
      (\<exists>sb'. content sb' = [] \<and>
        feed adler pfa (onRpcMessage ssend ops spfs log_done sp) chunks sb (srv, [], []) = Inr (sb', srv, ret, []))) \<and>
    (\<forall>chunks. concat chunks = ret \<longrightarrow>
      (\<exists>cb'. content cb' = [] \<and>
        feed adler pfa (onRpcMessage csend cops pfs log_done cp) chunks cb (cl1, out, []) =
          Inr (cb', cl1\<lparr>rc_outstandings := Map.empty\<rparr>, out, map2 (call_result pfs) cs reps)))"
  by (rule pair_runs [OF assms])

text \<open>One call of an echo service; two messages are all the serialisation has to tell apart.\<close>

definition model_call :: "(byte list, nat) call" where
  "model_call = (''Echo'', ''echo'', [5], [], 7)"

definition model_client :: "(byte list, nat, nat) rpc_channel" where
  "model_client = \<lparr>rc_conn = Some 3, rc_id = 0, rc_outstandings = Map.empty, rc_services = None\<rparr>"

definition model_ser :: "RpcMessage \<Rightarrow> byte list" where
  "model_ser m = (if rm_type m = REQUEST then [0] else [1])"

definition model_pfa :: "byte list \<Rightarrow> RpcMessage option" where
  "model_pfa d = (if d = [0] then Some (call_request 1 model_call)
     else if d = [1] then Some (result_reply [5] (call_request 1 model_call)) else None)"

theorem rpc_end_to_end_witness:
  "\<exists>cl1 out ret sb cb sb' cb' cl2. content sb = [] \<and> content cb = [] \<and>
    foldR (call_op (codec_send adler32_ref model_ser wire_send)) [model_call] (model_client, [], [] :: (nat \<times> byte list) list) = Inr (cl1, out, []) \<and>
    feed adler32_ref model_pfa (onRpcMessage (codec_send adler32_ref model_ser wire_send) echo_ops (\<lambda>r d. d) log_done 4)
      [out] sb (echo_rc, [], []) = Inr (sb', echo_rc, ret, []) \<and>
    feed adler32_ref model_pfa (onRpcMessage (codec_send adler32_ref model_ser wire_send) echo_ops (\<lambda>r d. d) log_done 3)
      [ret] cb (cl1, out, []) = Inr (cb', cl2, out, [(7, [5])])"
proof -
  let ?q = "call_request 1 model_call"
  let ?p = "result_reply [5] ?q"
  have reqs: "[?q] = call_requests (rc_id model_client) [model_call]"
    by (simp add: call_requests_def call_ids_def model_client_def)
  have reps: "[?p] = map (reply (rc_services echo_rc) echo_ops (\<lambda>v m q. q)) [?q]"
    by (simp add: reply_def echo_rc_def echo_ops_def call_request_def model_call_def)
  have send: "\<forall>m \<in> set ([?q] @ [?p]). sendable model_ser model_pfa m"
    by (simp add: sendable_def model_ser_def model_pfa_def kMaxMessageLen_def call_request_def model_call_def
        result_reply_def new_RpcMessage_def)
  obtain b where b: "buffer_inv b" "content b = []" "length (storage b) = 8 + 0"
    using mk_Buffer_ok [of 0] by (auto simp: max_size_def)
  have l: "length (model_ser m) = 1" for m by (simp add: model_ser_def)
  have room: "has_room b (length (concat (map (frame adler32_ref model_ser) [m])))" for m
    using b by (simp add: has_room_def max_size_def l)
  have "rc_conn model_client = Some 3" "rc_outstandings model_client = Map.empty" "length [model_call] < 2 ^ 64"
    by (simp_all add: model_client_def)
  from rpc_end_to_end [where pfs = "\<lambda>r d. d" and spfs = "\<lambda>r d. d" and cops = echo_ops, OF adler32_ref_ok echo_facts this
      reqs reps send b(1,2) b(1,2) refl refl room room]
  obtain cl1 out ret where run: "foldR (call_op (codec_send adler32_ref model_ser wire_send)) [model_call] (model_client, [], [] :: (nat \<times> byte list) list) = Inr (cl1, out, [])"
    "\<forall>chunks. concat chunks = out \<longrightarrow> (\<exists>sb'. content sb' = [] \<and>
        feed adler32_ref model_pfa (onRpcMessage (codec_send adler32_ref model_ser wire_send) echo_ops (\<lambda>r d. d) log_done 4) chunks b (echo_rc, [], []) =
          Inr (sb', echo_rc, ret, []))"
    "\<forall>chunks. concat chunks = ret \<longrightarrow> (\<exists>cb'. content cb' = [] \<and>
        feed adler32_ref model_pfa (onRpcMessage (codec_send adler32_ref model_ser wire_send) echo_ops (\<lambda>r d. d) log_done 3) chunks b (cl1, out, []) =
          Inr (cb', cl1\<lparr>rc_outstandings := Map.empty\<rparr>, out, map2 (call_result (\<lambda>r d. d)) [model_call] [?p]))"
    by blast
  have "map2 (call_result (\<lambda>r d. d)) [model_call] [?p] = [(7, [5])]"
    by (simp add: call_result_def model_call_def result_reply_def new_RpcMessage_def)
  moreover have "concat [out] = out" "concat [ret] = ret" by simp_all
  ultimately show ?thesis using run b(2) by metis
qed

end
